(* ===== verification/Prelude.thy ===== *)
theory Prelude
  imports Complex_Main "HOL-Library.AList" "HOL-Library.Multiset"
begin

text \<open>
  What the components share: the JavaScript values the source branches on (\<open>jsnum\<close>,
  \<open>jsval\<close>, truthiness, \<open>||\<close> and \<open>??\<close>), \<open>Map\<close> objects as association lists in
  insertion order, decimal rendering of integers, and the generic event machine: a component
  that is driven by events is a total step function from a state and an event to the next
  state and the calls it makes to the outside. The two locales state what such a component
  promises (an invariant every event keeps; a ledger that loses and duplicates nothing) and
  carry it to whole runs once and for all.
\<close>

named_theorems js_simps
named_theorems map_simps


section \<open>JavaScript numbers and values\<close>

text \<open>
  A finite double is represented by the exact rational it stands for; rounding of the
  arithmetic on doubles is not modelled. Comparisons with \<open>NaN\<close> are false.
\<close>

datatype jsnum = Fin rat | PosInf | NegInf | NaN

fun num_lt :: "jsnum \<Rightarrow> jsnum \<Rightarrow> bool" where
  "num_lt (Fin x) (Fin y) = (x < y)"
| "num_lt (Fin x) PosInf = True"
| "num_lt NegInf (Fin x) = True"
| "num_lt NegInf PosInf = True"
| "num_lt _ _ = False"

fun num_le :: "jsnum \<Rightarrow> jsnum \<Rightarrow> bool" where
  "num_le NaN _ = False"
| "num_le _ NaN = False"
| "num_le x y = (num_lt x y \<or> x = y)"

fun num_finite :: "jsnum \<Rightarrow> bool" where
  "num_finite (Fin _) = True"
| "num_finite _ = False"

text \<open>
  The values an application can hand over or throw. \<open>JObj True fs\<close> is an ordinary object
  with the own properties \<open>fs\<close>; \<open>JObj False fs\<close> is one without a prototype
  (\<open>Object.create(null)\<close>), which has no \<open>toString\<close>. An \<open>Error\<close> is an ordinary
  object with a \<open>message\<close> property.
\<close>

datatype jsval =
    JUndef
  | JNull
  | JBool bool
  | JNum jsnum
  | JStr string
  | JSym string
  | JObj bool "(string \<times> jsval) list"

fun truthy :: "jsval \<Rightarrow> bool" where
  "truthy JUndef = False"
| "truthy JNull = False"
| "truthy (JBool b) = b"
| "truthy (JNum n) = (n \<noteq> Fin 0 \<and> n \<noteq> NaN)"
| "truthy (JStr s) = (s \<noteq> [])"
| "truthy (JSym _) = True"
| "truthy (JObj _ _) = True"

fun nullish :: "jsval \<Rightarrow> bool" where
  "nullish JUndef = True"
| "nullish JNull = True"
| "nullish _ = False"

definition js_or :: "jsval \<Rightarrow> jsval \<Rightarrow> jsval" where
  "js_or a b = (if truthy a then a else b)"

definition js_coalesce :: "jsval \<Rightarrow> jsval \<Rightarrow> jsval" where
  "js_coalesce a b = (if nullish a then b else a)"

text \<open>\<open>v || d\<close> on an option that is absent or a number, or absent or a string.\<close>

definition num_or :: "rat option \<Rightarrow> rat \<Rightarrow> rat" where
  "num_or v d = (case v of None \<Rightarrow> d | Some x \<Rightarrow> if x = 0 then d else x)"

definition str_or :: "string option \<Rightarrow> string \<Rightarrow> string" where
  "str_or v d = (case v of None \<Rightarrow> d | Some x \<Rightarrow> if x = [] then d else x)"

text \<open>Optional property access \<open>v?.k\<close>.\<close>

fun opt_prop :: "jsval \<Rightarrow> string \<Rightarrow> jsval" where
  "opt_prop (JObj _ fs) k = (case map_of fs k of Some v \<Rightarrow> v | None \<Rightarrow> JUndef)"
| "opt_prop _ _ = JUndef"

definition error_object :: "string \<Rightarrow> jsval" where
  "error_object msg = JObj True [(''message'', JStr msg)]"

definition coded_error :: "string \<Rightarrow> string \<Rightarrow> jsval" where
  "coded_error code msg = JObj True [(''message'', JStr msg), (''code'', JStr code)]"

lemma opt_prop_error [js_simps]:
  "opt_prop (error_object m) ''message'' = JStr m"
  "opt_prop (coded_error c m) ''message'' = JStr m"
  "opt_prop (coded_error c m) ''code'' = JStr c"
  "opt_prop (error_object m) ''retryable'' = JUndef"
  "opt_prop (coded_error c m) ''retryable'' = JUndef"
  by (simp_all add: error_object_def coded_error_def)

section \<open>Decimal rendering\<close>

definition digit_char :: "nat \<Rightarrow> char" where
  "digit_char d = ''0123456789'' ! d"

fun nat_str :: "nat \<Rightarrow> string" where
  "nat_str n = (if n < 10 then [digit_char n] else nat_str (n div 10) @ [digit_char (n mod 10)])"

declare nat_str.simps [simp del]

definition int_str :: "int \<Rightarrow> string" where
  "int_str i = (if i < 0 then CHR ''-'' # nat_str (nat (- i)) else nat_str (nat i))"

definition char_digit :: "char \<Rightarrow> nat" where
  "char_digit c = of_char c - 48"

definition str_nat :: "string \<Rightarrow> nat" where
  "str_nat s = foldl (\<lambda>n c. 10 * n + char_digit c) 0 s"

lemma less_10_cases: "(d::nat) < 10 \<Longrightarrow> d \<in> {0, 1, 2, 3, 4, 5, 6, 7, 8, 9}"
  by auto

lemma char_digit_char [simp]: "d < 10 \<Longrightarrow> char_digit (digit_char d) = d"
  by (drule less_10_cases) (auto simp: char_digit_def digit_char_def)

lemma digit_char_not_dash: "d < 10 \<Longrightarrow> digit_char d \<noteq> CHR ''-''"
  by (drule less_10_cases) (auto simp: digit_char_def)

lemma str_nat_snoc: "str_nat (s @ [c]) = 10 * str_nat s + char_digit c"
  by (simp add: str_nat_def)

lemma str_nat_nat_str [simp]: "str_nat (nat_str n) = n"
proof (induction n rule: nat_str.induct)
  case (1 n)
  then show ?case
    by (cases "n < 10") (simp_all add: nat_str.simps [of n] str_nat_snoc, simp add: str_nat_def)
qed

lemma nat_str_inj [simp]: "nat_str m = nat_str n \<longleftrightarrow> m = n"
  by (metis str_nat_nat_str)

lemma nat_str_no_dash: "CHR ''-'' \<notin> set (nat_str n)"
proof (induction n rule: nat_str.induct)
  case (1 n)
  show ?case
  proof (cases "n < 10")
    case True
    then show ?thesis
      using digit_char_not_dash [of n] by (simp add: nat_str.simps [of n])
  next
    case False
    with 1 have "CHR ''-'' \<notin> set (nat_str (n div 10))" by simp
    moreover have "digit_char (n mod 10) \<noteq> CHR ''-''"
      by (rule digit_char_not_dash) simp
    ultimately show ?thesis using False by (simp add: nat_str.simps [of n])
  qed
qed

lemma append_dash_inj:
  assumes "a @ CHR ''-'' # x = b @ CHR ''-'' # y"
    and "CHR ''-'' \<notin> set x" "CHR ''-'' \<notin> set y"
  shows "x = y"
  using assms
proof (induction a arbitrary: b)
  case Nil
  then show ?case
    by (cases b) (auto simp: in_set_conv_decomp)
next
  case (Cons c a)
  show ?case
  proof (cases b)
    case Nil
    with Cons.prems show ?thesis by auto
  next
    case (Cons d b')
    with Cons.prems Cons.IH [of b'] show ?thesis by simp
  qed
qed

section \<open>Map objects in insertion order\<close>

text \<open>
  A JavaScript \<open>Map\<close> keeps its entries in insertion order: \<open>set\<close> on a present key
  overwrites in place, on an absent key appends. \<open>AList.update\<close> and \<open>AList.delete\<close> are
  exactly these operations; every model map keeps its keys distinct.
\<close>

type_synonym ('k, 'v) jsmap = "('k \<times> 'v) list"

definition map_get :: "('k, 'v) jsmap \<Rightarrow> 'k \<Rightarrow> 'v option" where
  "map_get m k = map_of m k"

lemma map_get_eval [simp]:
  "map_get [] k = None"
  "map_get ((k', v) # m) k = (if k = k' then Some v else map_get m k)"
  by (simp_all add: map_get_def)

abbreviation map_set :: "'k \<Rightarrow> 'v \<Rightarrow> ('k, 'v) jsmap \<Rightarrow> ('k, 'v) jsmap" where
  "map_set k v m \<equiv> AList.update k v m"

abbreviation map_del :: "'k \<Rightarrow> ('k, 'v) jsmap \<Rightarrow> ('k, 'v) jsmap" where
  "map_del k m \<equiv> AList.delete k m"

definition map_has :: "('k, 'v) jsmap \<Rightarrow> 'k \<Rightarrow> bool" where
  "map_has m k = (map_get m k \<noteq> None)"

abbreviation keys_of :: "('k, 'v) jsmap \<Rightarrow> 'k list" where
  "keys_of m \<equiv> map fst m"

abbreviation wf_map :: "('k, 'v) jsmap \<Rightarrow> bool" where
  "wf_map m \<equiv> distinct (map fst m)"

lemma map_get_set [map_simps]: "map_get (map_set k v m) k' = (if k' = k then Some v else map_get m k')"
  by (simp add: map_get_def update_conv')

lemma map_get_del [map_simps]: "map_get (map_del k m) k' = (if k' = k then None else map_get m k')"
  by (simp add: map_get_def delete_conv')

lemma wf_map_set [simp, intro]: "wf_map m \<Longrightarrow> wf_map (map_set k v m)"
  by (rule distinct_update)

lemma wf_map_del [simp, intro]: "wf_map m \<Longrightarrow> wf_map (map_del k m)"
  by (rule distinct_delete)

lemma wf_map_filter [simp, intro]: "wf_map m \<Longrightarrow> wf_map (filter P m)"
  by (simp add: distinct_map_filter)

lemma map_get_filter:
  "wf_map m \<Longrightarrow> map_get (filter P m) k =
     (case map_get m k of Some v \<Rightarrow> (if P (k, v) then Some v else None) | None \<Rightarrow> None)"
  by (induction m) (auto simp: map_get_def map_of_eq_None_iff image_iff split: option.splits)

lemma map_has_simps [map_simps]:
  "map_has (map_set k v m) k' = (k' = k \<or> map_has m k')"
  "map_has (map_del k m) k' = (k' \<noteq> k \<and> map_has m k')"
  "map_has [] k' = False"
  by (auto simp: map_has_def map_simps)

lemma map_has_set: "map_has m k \<longleftrightarrow> k \<in> set (keys_of m)"
  by (induction m) (auto simp: map_has_def)

definition map_all :: "('v \<Rightarrow> bool) \<Rightarrow> ('k, 'v) jsmap \<Rightarrow> bool" where
  "map_all P m = list_all (\<lambda>(k, v). P v) m"

lemma map_all_Nil [simp]: "map_all P []"
  by (simp add: map_all_def)

lemma map_all_set: "P v \<Longrightarrow> map_all P m \<Longrightarrow> map_all P (map_set k v m)"
  by (induction m) (auto simp: map_all_def)

lemma map_all_del: "map_all P m \<Longrightarrow> map_all P (map_del k m)"
  by (induction m) (auto simp: map_all_def)

lemma map_all_filter: "map_all P m \<Longrightarrow> map_all P (filter Q m)"
  by (induction m) (auto simp: map_all_def)

lemma map_all_get: "map_all P m \<Longrightarrow> map_get m k = Some v \<Longrightarrow> P v"
  by (induction m) (auto simp: map_all_def split: if_splits)

lemmas map_all_intros = map_all_Nil map_all_set map_all_del map_all_filter

definition map_values :: "('v \<Rightarrow> 'w) \<Rightarrow> ('k, 'v) jsmap \<Rightarrow> ('k, 'w) jsmap" where
  "map_values f m = map (\<lambda>(k, v). (k, f v)) m"

lemma keys_map_values [simp]: "keys_of (map_values f m) = keys_of m"
  by (induction m) (auto simp: map_values_def)

lemma map_get_values [map_simps]: "map_get (map_values f m) k = map_option f (map_get m k)"
  by (induction m) (auto simp: map_values_def)

lemma map_all_values: "(\<And>v. P v \<Longrightarrow> Q (f v)) \<Longrightarrow> map_all P m \<Longrightarrow> map_all Q (map_values f m)"
  by (induction m) (auto simp: map_all_def map_values_def)

text \<open>A \<open>Set\<close> object in insertion order: \<open>add\<close>.\<close>

definition set_add :: "'a \<Rightarrow> 'a list \<Rightarrow> 'a list" where
  "set_add x xs = (if x \<in> set xs then xs else xs @ [x])"

lemma set_set_add [simp]: "set (set_add x xs) = insert x (set xs)"
  by (auto simp: set_add_def)

text \<open>The key set and the multiset of values of a map.\<close>

definition key_set :: "('k, 'v) jsmap \<Rightarrow> 'k set" where
  "key_set m = set (map fst m)"

lemma key_set_simps [simp]:
  "key_set [] = {}" "key_set ((k, v) # m) = insert k (key_set m)"
  "key_set (map_set k v m) = insert k (key_set m)" "key_set (map_del k m) = key_set m - {k}"
  by (induction m) (auto simp: key_set_def)

lemma map_get_None [map_simps]: "map_get m k = None \<longleftrightarrow> k \<notin> key_set m"
  by (simp add: map_get_def map_of_eq_None_iff key_set_def)

lemma map_get_in: "map_get m k = Some v \<Longrightarrow> (k, v) \<in> set m"
  by (simp add: map_get_def map_of_SomeD)

lemma map_get_key: "map_get m k = Some v \<Longrightarrow> k \<in> key_set m"
  by (metis map_get_None option.distinct(1))

lemma map_has_key [map_simps]: "map_has m k \<longleftrightarrow> k \<in> key_set m"
  by (simp add: map_has_def map_get_None)

lemmas map_basic_simps = map_get_set map_get_del map_has_simps map_get_values

abbreviation vals_of :: "('k, 'v) jsmap \<Rightarrow> 'v multiset" where
  "vals_of m \<equiv> image_mset snd (mset m)"

lemma vals_set_new: "k \<notin> key_set m \<Longrightarrow> vals_of (map_set k v m) = add_mset v (vals_of m)"
  by (induction m) auto

lemma map_del_absent: "k \<notin> key_set m \<Longrightarrow> map_del k m = m"
  by (simp add: delete_idem key_set_def)

lemma vals_del:
  "wf_map m \<Longrightarrow> map_get m k = Some v \<Longrightarrow> vals_of m = add_mset v (vals_of (map_del k m))"
proof (induction m)
  case (Cons a m)
  show ?case
  proof (cases "k = fst a")
    case True
    with Cons.prems have "map_del k m = m" by (intro map_del_absent) (simp add: key_set_def)
    with True Cons.prems show ?thesis by (cases a) simp
  next
    case False
    with Cons show ?thesis by (cases a) auto
  qed
qed simp

lemma map_del_set [simp]: "map_del k (map_set k v m) = map_del k m"
  by (induction m) auto

lemma vals_set:
  assumes "wf_map m" shows "vals_of (map_set k v m) = add_mset v (vals_of (map_del k m))"
  using vals_del [OF wf_map_set [OF assms], of k v k v] by (simp add: map_simps)

section \<open>Event machines\<close>

text \<open>
  \<open>step s e\<close> is the next state and the calls made to the outside while \<open>e\<close> is handled;
  one event is one run-to-completion turn of the JavaScript event loop (the callback and the
  microtasks it queues). An event that cannot occur in \<open>s\<close> leaves \<open>s\<close> as it is.
\<close>

fun run_machine :: "('s \<Rightarrow> 'e \<Rightarrow> 's \<times> 'o list) \<Rightarrow> 's \<Rightarrow> 'e list \<Rightarrow> 's \<times> 'o list" where
  "run_machine step s [] = (s, [])"
| "run_machine step s (e # es) =
     (let (s1, out1) = step s e; (s2, out2) = run_machine step s1 es in (s2, out1 @ out2))"

lemma run_machine_simps [simp]:
  "fst (run_machine step s (e # es)) = fst (run_machine step (fst (step s e)) es)"
  "snd (run_machine step s (e # es)) =
     snd (step s e) @ snd (run_machine step (fst (step s e)) es)"
  by (simp_all add: split_def Let_def)

lemma run_machine_append:
  "run_machine step s (es @ fs) =
     (let (s1, out1) = run_machine step s es; (s2, out2) = run_machine step s1 fs
      in (s2, out1 @ out2))"
  by (induction es arbitrary: s) (simp_all add: split_def Let_def)

declare run_machine.simps(2) [simp del]

lemma run_trace:
  assumes "\<And>s e out. P s out \<Longrightarrow> P (fst (step s e)) (out @ snd (step s e))" "P s out"
  shows "P (fst (run_machine step s es)) (out @ snd (run_machine step s es))"
  using assms(2)
proof (induction es arbitrary: s out)
  case (Cons e es)
  from Cons.IH [OF assms(1) [OF Cons.prems, of e]] show ?case by simp
qed simp

text \<open>One synchronous piece of code after another, with the calls they make.\<close>

definition chain :: "'s \<times> 'o list \<Rightarrow> ('s \<Rightarrow> 's \<times> 'o list) \<Rightarrow> 's \<times> 'o list" where
  "chain r f = (let (s1, out1) = r; (s2, out2) = f s1 in (s2, out1 @ out2))"

lemma chain_simps [simp]:
  "fst (chain r f) = fst (f (fst r))" "snd (chain r f) = snd r @ snd (f (fst r))"
  by (simp_all add: chain_def split_def Let_def)

lemma chain_eval: "chain (s, out1) f = (fst (f s), out1 @ snd (f s))"
  by (simp add: chain_def split_def Let_def)

locale event_machine =
  fixes step :: "'s \<Rightarrow> 'e \<Rightarrow> 's \<times> 'o list"
    and ok :: "'e \<Rightarrow> bool"
    and inv :: "'s \<Rightarrow> bool"
  assumes step_inv: "inv s \<Longrightarrow> ok e \<Longrightarrow> inv (fst (step s e))"
begin

lemma run_inv: "inv s \<Longrightarrow> list_all ok es \<Longrightarrow> inv (fst (run_machine step s es))"
  by (induction es arbitrary: s) (simp_all add: step_inv)

lemma run_safe:
  assumes safe: "\<And>s e x. inv s \<Longrightarrow> ok e \<Longrightarrow> x \<in> set (snd (step s e)) \<Longrightarrow> good x"
    and s: "inv s" "list_all ok es" and x: "x \<in> set (snd (run_machine step s es))"
  shows "good x"
  using s x by (induction es arbitrary: s) (auto intro: safe step_inv)

end

fun total_entered ::
  "('s \<Rightarrow> 'e \<Rightarrow> 's \<times> 'o list) \<Rightarrow> ('s \<Rightarrow> 'e \<Rightarrow> 'd multiset) \<Rightarrow> 's \<Rightarrow> 'e list \<Rightarrow> 'd multiset" where
  "total_entered step entered s [] = {#}"
| "total_entered step entered s (e # es) =
     entered s e + total_entered step entered (fst (step s e)) es"

definition total_settled :: "('o \<Rightarrow> 'd multiset) \<Rightarrow> 'o list \<Rightarrow> 'd multiset" where
  "total_settled settles out = sum_list (map settles out)"

lemma total_settled_simps [simp]:
  "total_settled settles [] = {#}"
  "total_settled settles (x # out) = settles x + total_settled settles out"
  "total_settled settles (out @ out') = total_settled settles out + total_settled settles out'"
  by (simp_all add: total_settled_def)

text \<open>
  A ledger machine takes in items (deliveries, requests, tasks) and settles them. The law says
  that one event moves items only from the tracked to the settled side.
\<close>

locale ledger_machine = event_machine step ok inv
  for step :: "'s \<Rightarrow> 'e \<Rightarrow> 's \<times> 'o list" and ok :: "'e \<Rightarrow> bool" and inv :: "'s \<Rightarrow> bool" +
  fixes tracked :: "'s \<Rightarrow> 'd multiset"
    and entered :: "'s \<Rightarrow> 'e \<Rightarrow> 'd multiset"
    and settles :: "'o \<Rightarrow> 'd multiset"
  assumes step_conserves: "inv s \<Longrightarrow> ok e \<Longrightarrow>
    tracked s + entered s e =
      tracked (fst (step s e)) + total_settled settles (snd (step s e))"
begin

lemma run_conserves:
  "inv s \<Longrightarrow> list_all ok es \<Longrightarrow> tracked s + total_entered step entered s es =
     tracked (fst (run_machine step s es)) + total_settled settles (snd (run_machine step s es))"
proof (induction es arbitrary: s)
  case Nil
  then show ?case by simp
next
  case (Cons e es)
  let ?s1 = "fst (step s e)"
  have "tracked s + total_entered step entered s (e # es) = (tracked s + entered s e) + total_entered step entered ?s1 es"
    by (simp add: add.assoc)
  also have "\<dots> = total_settled settles (snd (step s e)) + (tracked ?s1 + total_entered step entered ?s1 es)"
    using step_conserves [of s e] Cons.prems by (simp add: add.commute add.left_commute)
  also have "tracked ?s1 + total_entered step entered ?s1 es =
      tracked (fst (run_machine step ?s1 es)) +
        total_settled settles (snd (run_machine step ?s1 es))"
    by (rule Cons.IH) (use Cons.prems step_inv in auto)
  finally show ?case by (simp add: add.commute add.left_commute)
qed

end

end
