(* ===== verification/Utils.thy ===== *)
theory Utils
  imports Prelude
begin

text \<open>
  \<open>src/utils\<close>: option validation, error descriptions, contained emission of events, the
  contained logger and its levels, and detached promises. A call that can throw returns
  \<open>Inl\<close> the thrown value.
\<close>

section \<open>options.js, errors.js\<close>

definition non_negative_number :: "jsval \<Rightarrow> string \<Rightarrow> jsnum \<Rightarrow> jsval + jsnum" where
  "non_negative_number value name fallback =
     (if nullish value then Inr fallback
      else case value of
        JNum n \<Rightarrow> if n = NaN \<or> num_lt n (Fin 0)
                  then Inl (error_object (name @ '' must be a non-negative number'')) else Inr n
      | _ \<Rightarrow> Inl (error_object (name @ '' must be a non-negative number'')))"

definition not_connected_error :: jsval where
  "not_connected_error = coded_error ''NOT_CONNECTED''
     ''Not connected to RabbitMQ. Connection establishing/recovery in progress.''"

section \<open>Conversion to strings\<close>

text \<open>
  \<open>String(v)\<close> and the conversion in a template literal. An object without a prototype cannot
  be converted by either, a symbol only by the former; \<open>None\<close> is the TypeError. A number is
  rendered in decimal with at most 17 digits after the point; exponents are not rendered.
\<close>

fun frac_digits :: "nat \<Rightarrow> rat \<Rightarrow> string" where
  "frac_digits 0 r = []"
| "frac_digits (Suc n) r =
     (if r = 0 then [] else digit_char (nat \<lfloor>10 * r\<rfloor>) # frac_digits n (10 * r - of_int \<lfloor>10 * r\<rfloor>))"

fun num_str :: "jsnum \<Rightarrow> string" where
  "num_str NaN = ''NaN''"
| "num_str PosInf = ''Infinity''"
| "num_str NegInf = ''-Infinity''"
| "num_str (Fin q) =
     (if q < 0 then ''-'' else []) @ nat_str (nat \<lfloor>\<bar>q\<bar>\<rfloor>) @
     (let r = \<bar>q\<bar> - of_int \<lfloor>\<bar>q\<bar>\<rfloor> in if r = 0 then [] else CHR ''.'' # frac_digits 17 r)"

fun js_String :: "jsval \<Rightarrow> string option" where
  "js_String JUndef = Some ''undefined''"
| "js_String JNull = Some ''null''"
| "js_String (JBool b) = Some (if b then ''true'' else ''false'')"
| "js_String (JNum n) = Some (num_str n)"
| "js_String (JStr s) = Some s"
| "js_String (JSym d) = Some (''Symbol('' @ d @ '')'')"
| "js_String (JObj True _) = Some ''[object Object]''"
| "js_String (JObj False _) = None"

fun js_template :: "jsval \<Rightarrow> string option" where
  "js_template (JSym _) = None"
| "js_template v = js_String v"

definition type_error :: jsval where
  "type_error = error_object ''Cannot convert object to primitive value''"

section \<open>describe-error.js\<close>

definition describe_error :: "jsval \<Rightarrow> jsval + jsval" where
  "describe_error error =
     (let m = opt_prop error ''message''
      in if nullish m
         then (case js_String error of None \<Rightarrow> Inl type_error | Some s \<Rightarrow> Inr (JStr s))
         else Inr m)"

text \<open>The line built from a prefix and \<open>describeError(error)\<close> in a template literal.\<close>

definition describe_line :: "string \<Rightarrow> jsval \<Rightarrow> jsval + string" where
  "describe_line prefix error =
     (case describe_error error of
        Inl e \<Rightarrow> Inl e
      | Inr v \<Rightarrow> (case js_template v of None \<Rightarrow> Inl type_error | Some s \<Rightarrow> Inr (prefix @ s)))"

definition describable :: "jsval \<Rightarrow> bool" where
  "describable error \<longleftrightarrow> (\<exists>s. describe_line [] error = Inr s)"

lemma describable_line: "describable e \<Longrightarrow> \<exists>s. describe_line p e = Inr s"
  by (auto simp: describable_def describe_line_def split: sum.splits option.splits)

lemma undescribable_line: "\<not> describable e \<Longrightarrow> \<exists>x. describe_line p e = Inl x"
  by (auto simp: describable_def describe_line_def split: sum.splits option.splits)

text \<open>
  What can be described. Every primitive value (\<open>null\<close>, \<open>undefined\<close>, booleans,
  numbers, strings, symbols), every \<open>Error\<close> with a string message and every ordinary object
  without a message can be turned into a log line; an object made without a prototype and
  without a message cannot, the conversion itself throws.
\<close>

theorem describable_values:
  "describable JUndef \<and> describable JNull \<and> describable (JBool b) \<and> describable (JNum n)
   \<and> describable (JStr s) \<and> describable (JSym s) \<and> describable (error_object s)
   \<and> describable (JObj True []) \<and> \<not> describable (JObj False [])
   \<and> \<not> describable (JObj True [(''message'', JSym s)])"
  by (simp_all add: describable_def describe_line_def describe_error_def error_object_def)

section \<open>emit-safely.js\<close>

text \<open>
  What a listener does when it is called: return, return a thenable (which later fulfils, or
  rejects with a value), or throw. The log records the calls and the lines written; a rejection
  is reported after the loop, when the promise settles.
\<close>

datatype listener_result = Returns | ReturnsThenable "jsval option" | Throws jsval

datatype emit_action = Called nat | Logged string

definition emit_report :: "string \<Rightarrow> jsval \<Rightarrow> jsval + string" where
  "emit_report event error = describe_line (''A '' @ [CHR 0x27] @ event @ [CHR 0x27] @ '' listener threw: '') error"

fun emit_loop :: "string \<Rightarrow> nat \<Rightarrow> listener_result list \<Rightarrow> emit_action list \<times> jsval option" where
  "emit_loop event i [] = ([], None)"
| "emit_loop event i (r # rs) =
     (case r of
        Throws error \<Rightarrow>
          (case emit_report event error of
             Inl escaped \<Rightarrow> ([Called i], Some escaped)
           | Inr line \<Rightarrow> apfst (\<lambda>acts. Called i # Logged line # acts) (emit_loop event (Suc i) rs))
      | _ \<Rightarrow> apfst (\<lambda>acts. Called i # acts) (emit_loop event (Suc i) rs))"

text \<open>The result is the thrown value that escapes, or whether anyone was listening.\<close>

definition emit_safely :: "string \<Rightarrow> listener_result list \<Rightarrow> emit_action list \<times> (jsval + bool)" where
  "emit_safely event rs =
     (case emit_loop event 0 rs of
        (acts, Some escaped) \<Rightarrow> (acts, Inl escaped)
      | (acts, None) \<Rightarrow> (acts, Inr (rs \<noteq> [])))"

definition calls_of :: "emit_action list \<Rightarrow> nat list" where
  "calls_of acts = concat (map (\<lambda>a. case a of Called i \<Rightarrow> [i] | Logged _ \<Rightarrow> []) acts)"

lemma calls_of_simps [simp]:
  "calls_of [] = []" "calls_of (Called i # acts) = i # calls_of acts"
  "calls_of (Logged l # acts) = calls_of acts"
  by (simp_all add: calls_of_def)

lemma emit_loop_contained:
  "\<forall>error. Throws error \<in> set rs \<longrightarrow> describable error \<Longrightarrow>
     calls_of (fst (emit_loop event i rs)) = [i ..< i + length rs] \<and> snd (emit_loop event i rs) = None"
proof (induction rs arbitrary: i)
  case Nil
  then show ?case by simp
next
  case (Cons r rs)
  then have IH: "calls_of (fst (emit_loop event (Suc i) rs)) = [Suc i ..< Suc i + length rs]"
    "snd (emit_loop event (Suc i) rs) = None"
    by auto
  show ?case
  proof (cases r)
    case (Throws error)
    then have "describable error" using Cons.prems by simp
    then obtain line where "emit_report event error = Inr line"
      using describable_line by (auto simp: emit_report_def)
    with IH Throws show ?thesis by (simp add: upt_conv_Cons del: upt_Suc)
  qed (use IH in \<open>simp_all add: upt_conv_Cons del: upt_Suc\<close>)
qed

text \<open>
  Emission is contained. If every value a listener throws can be described, all listeners
  are called, once each and in order of registration, no exception reaches the emitter, and
  the result says whether anyone was listening.
\<close>

theorem emit_safely_contained:
  assumes "\<forall>error. Throws error \<in> set rs \<longrightarrow> describable error"
  shows "calls_of (fst (emit_safely event rs)) = [0 ..< length rs]
    \<and> snd (emit_safely event rs) = Inr (rs \<noteq> [])"
  using emit_loop_contained [OF assms, of event 0]
  by (auto simp: emit_safely_def split: prod.splits option.splits)

theorem emit_safely_contained_witness:
  "calls_of (fst (emit_safely ''disconnected'' [Throws JNull, Returns, Throws (error_object ''x'')])) = [0 ..< 3]
    \<and> snd (emit_safely ''disconnected'' [Throws JNull, Returns, Throws (error_object ''x'')]) = Inr True"
  using emit_safely_contained [of "[Throws JNull, Returns, Throws (error_object ''x'')]" "''disconnected''"]
  by (simp add: describable_def describe_line_def describe_error_def js_simps numeral_3_eq_3)

text \<open>
  Emission is not contained for every thrown value. A listener that throws an object
  without a prototype makes the report itself throw: the exception reaches the emitter and the
  listeners after it are never called.
\<close>

theorem emit_safely_escape:
  "emit_safely event [Throws (JObj False []), Returns] = ([Called 0], Inl type_error)"
  by (simp add: emit_safely_def emit_report_def describe_line_def describe_error_def)

section \<open>detached.js\<close>

text \<open>The log lines of a detached promise, and the rejection that stays unhandled if any.\<close>

definition detached :: "jsval option \<Rightarrow> string \<Rightarrow> string list \<times> jsval option" where
  "detached rejection label = (case rejection of
      None \<Rightarrow> ([], None)
    | Some error \<Rightarrow> (case describe_line (label @ '': '') error of
        Inl escaped \<Rightarrow> ([], Some escaped) | Inr line \<Rightarrow> ([line], None)))"

section \<open>logger.js, safe-logger.js\<close>

datatype log_level = Error | Warn | Info | Debug

fun level_rank :: "log_level \<Rightarrow> nat" where
  "level_rank Error = 0"
| "level_rank Warn = 1"
| "level_rank Info = 2"
| "level_rank Debug = 3"

instantiation log_level :: linorder
begin

definition less_eq_log_level :: "log_level \<Rightarrow> log_level \<Rightarrow> bool" where
  "less_eq_log_level a b = (level_rank a \<le> level_rank b)"

definition less_log_level :: "log_level \<Rightarrow> log_level \<Rightarrow> bool" where
  "less_log_level a b = (level_rank a < level_rank b)"

instance
proof
  fix a b :: log_level
  show "a \<le> b \<Longrightarrow> b \<le> a \<Longrightarrow> a = b"
    by (cases a; cases b; simp add: less_eq_log_level_def)
qed (auto simp: less_eq_log_level_def less_log_level_def)

end

definition level_of_name :: "string \<Rightarrow> log_level option" where
  "level_of_name s =
     (if s = ''error'' then Some Error else if s = ''warn'' then Some Warn
      else if s = ''info'' then Some Info else if s = ''debug'' then Some Debug else None)"

definition create_logger :: "string option \<Rightarrow> log_level \<Rightarrow> bool" where
  "create_logger level =
     (let threshold = (case Option.bind level level_of_name of Some t \<Rightarrow> t | None \<Rightarrow> Info)
      in (\<lambda>lvl. lvl \<le> threshold))"

text \<open>
  An application logger has, per level, no method or a method that may throw on a line. The
  effects of a logging call: the line reached the application, or the last-resort line reached
  the console.
\<close>

type_synonym app_logger = "log_level \<Rightarrow> (string \<Rightarrow> jsval option) option"

datatype logger = Raw "app_logger option" | Wrapped "app_logger option"

datatype log_effect = AppLine log_level string | ConsoleLine log_level

fun log_call :: "bool \<Rightarrow> logger \<Rightarrow> log_level \<Rightarrow> string \<Rightarrow> log_effect list \<times> jsval option" where
  "log_call console_throws (Raw l) lvl line = (case l of
      None \<Rightarrow> ([], Some type_error)
    | Some app \<Rightarrow> (case app lvl of
        None \<Rightarrow> ([], Some type_error)
      | Some f \<Rightarrow> ([AppLine lvl line], f line)))"
| "log_call console_throws (Wrapped l) lvl line = (case l of
      None \<Rightarrow> (if console_throws then [] else [ConsoleLine lvl], None)
    | Some app \<Rightarrow> (case app lvl of
        None \<Rightarrow> ([], None)
      | Some f \<Rightarrow> (AppLine lvl line #
          (if f line \<noteq> None \<and> \<not> console_throws then [ConsoleLine lvl] else []), None)))"

fun safe_logger :: "logger \<Rightarrow> logger" where
  "safe_logger (Wrapped l) = Wrapped l"
| "safe_logger (Raw l) = Wrapped l"

text \<open>
  A wrapped logger never throws, whatever the application logger, its methods and the
  console do; the line reaches the application exactly when it has a method of that level; and
  wrapping twice is wrapping once.
\<close>

theorem safe_logger_total:
  "snd (log_call console_throws (safe_logger l) lvl line) = None
   \<and> (AppLine lvl line \<in> set (fst (log_call console_throws (safe_logger (Raw (Some app))) lvl line))
        \<longleftrightarrow> app lvl \<noteq> None)
   \<and> safe_logger (safe_logger l) = safe_logger l"
  by (cases l) (auto split: option.split)

end
