(* ===== verification/Consumer_Lifecycle.thy ===== *)
theory Consumer_Lifecycle
  imports Utils
begin

text \<open>
  The life of a consumer in \<open>src/consumers/consumer-manager.js\<close>: registration, the setup
  closure with its fences, recovery after a loss, recreation after a reconnection,
  unsubscription with draining, removal, disposal. Every \<open>async\<close> function of the file is a
  task: between two of its \<open>await\<close>s it runs to the end, at an \<open>await\<close> it is stored with what
  it does next, and the event \<open>TaskDone\<close> resumes it with the outcome of what it waits for. Any
  interleaving of the tasks with calls, deliveries, channel losses and pool replacements is a
  sequence of events.

  A consumer's info object is never copied and its id is never used twice, so the objects are
  kept in one store by id, and \<open>activeConsumers\<close> is the list of the ids it maps.
\<close>

section \<open>State\<close>

record consumer_info =
  ci_queue :: string
  ci_no_ack :: bool
  ci_sequential :: bool
  ci_channel :: "nat option"
  ci_tag :: "string option"
  ci_watched :: "nat option"
  ci_cancelled :: bool
  ci_processor :: bool
  ci_epoch :: nat
  ci_in_flight :: nat
  ci_drain_waiters :: "nat list"

datatype setup_by = BySubscribe | ByRecovery nat nat "nat option" | ByRecreate

datatype after_drop = RejectSubscribe jsval | FinishUnsubscribe string | ConsumerLost

datatype cm_task =
    SetupChannel setup_by string
  | SetupRelease setup_by string
  | SetupPrefetch setup_by string nat
  | SetupConsume setup_by string nat
  | SetupCancel setup_by string
  | RecoverySleep string nat nat "nat option"
  | UnsubscribeCancel string string
  | DropDrain string after_drop
  | DropTerminate string after_drop
  | DropRelease string after_drop
  | DisposeTerminate

text \<open>The pool is the facade's current channel pool: its identity and whether it is closed.\<close>

record manager =
  cm_infos :: "(string, consumer_info) jsmap"
  cm_active :: "string list"
  cm_by_tag :: "(string, string) jsmap"
  cm_worker_pools :: "(string, nat) jsmap"
  cm_sequence :: nat
  cm_watchers :: "(string \<times> nat) list"
  cm_pool :: "(nat \<times> bool) option"
  cm_tasks :: "(nat, cm_task) jsmap"
  cm_next_task :: nat

datatype task_result = Done | GotChannel nat | GotTag string | TaskFailed jsval

datatype cm_out =
    OpenDedicated string
  | PrefetchCall nat
  | ConsumeCall string nat
  | CancelCall nat string
  | SleepCall nat
  | ReleaseChannel string
  | TerminatePool nat
  | DisposeSequential string
  | EmitCancelled string "string option"
  | EmitRecovered string "string option"
  | EmitLost string
  | Subscribed string string
  | SubscribeRejected string jsval
  | UnsubscribeResult bool
  | Crashed

definition cm_new :: "(nat \<times> bool) option \<Rightarrow> manager" where
  "cm_new pool = \<lparr>cm_infos = [], cm_active = [], cm_by_tag = [], cm_worker_pools = [], cm_sequence = 0,
     cm_watchers = [], cm_pool = pool, cm_tasks = [], cm_next_task = 0\<rparr>"

definition consumer_id :: "string \<Rightarrow> nat \<Rightarrow> string" where
  "consumer_id queue n = ''consumer-'' @ queue @ CHR ''-'' # nat_str n"

definition max_recovery_attempts :: nat where
  "max_recovery_attempts = 3"

section \<open>Small steps shared by the tasks\<close>

definition cm_info :: "manager \<Rightarrow> string \<Rightarrow> consumer_info" where
  "cm_info m i = the (map_get (cm_infos m) i)"

definition cm_update :: "string \<Rightarrow> (consumer_info \<Rightarrow> consumer_info) \<Rightarrow> manager \<Rightarrow> manager" where
  "cm_update i f m = (case map_get (cm_infos m) i of
      None \<Rightarrow> m | Some info \<Rightarrow> m\<lparr>cm_infos := map_set i (f info) (cm_infos m)\<rparr>)"

definition cm_await :: "cm_task \<Rightarrow> manager \<Rightarrow> manager" where
  "cm_await t m = m\<lparr>cm_tasks := map_set (cm_next_task m) t (cm_tasks m), cm_next_task := Suc (cm_next_task m)\<rparr>"

definition find_consumer_id_by_tag :: "string \<Rightarrow> manager \<Rightarrow> string option" where
  "find_consumer_id_by_tag tag m = map_get (cm_by_tag m) tag"

text \<open>\<open>Inl\<close> is the TypeError of reading \<open>queueName\<close> of an absent consumer.\<close>

definition find_queue_name_by_tag :: "string option \<Rightarrow> manager \<Rightarrow> unit + string option" where
  "find_queue_name_by_tag tag m = (case tag of
      None \<Rightarrow> Inr None
    | Some t \<Rightarrow> (case (if t = [] then None else find_consumer_id_by_tag t m) of
        None \<Rightarrow> Inr None
      | Some i \<Rightarrow> if i \<in> set (cm_active m) then Inr (Some (ci_queue (cm_info m i))) else Inl ()))"

section \<open>Registration, tags, removal\<close>

definition register_consumer :: "string \<Rightarrow> bool \<Rightarrow> bool \<Rightarrow> manager \<Rightarrow> manager \<times> string" where
  "register_consumer queue no_ack sequential m =
     (let n = Suc (cm_sequence m); i = consumer_id queue n
      in (m\<lparr>cm_sequence := n,
            cm_infos := map_set i \<lparr>ci_queue = queue, ci_no_ack = no_ack, ci_sequential = sequential,
              ci_channel = None, ci_tag = None, ci_watched = None, ci_cancelled = False, ci_processor = False,
              ci_epoch = 0, ci_in_flight = 0, ci_drain_waiters = []\<rparr> (cm_infos m),
            cm_active := cm_active m @ [i]\<rparr>, i))"

definition track_consumer_tag :: "string \<Rightarrow> string \<Rightarrow> manager \<Rightarrow> manager" where
  "track_consumer_tag i tag m =
     (cm_update i (\<lambda>info. info\<lparr>ci_tag := Some tag\<rparr>) m)\<lparr>cm_by_tag := map_set tag i (cm_by_tag m)\<rparr>"

definition dispose_processor :: "string \<Rightarrow> manager \<Rightarrow> manager \<times> cm_out list" where
  "dispose_processor i m = (m, if ci_processor (cm_info m i) then [DisposeSequential i] else [])"

text \<open>What follows the release of the channel, per caller of \<open>dropConsumer\<close>.\<close>

definition drop_finished :: "string \<Rightarrow> after_drop \<Rightarrow> manager \<Rightarrow> manager \<times> cm_out list" where
  "drop_finished i after m = (m, case after of
      RejectSubscribe e \<Rightarrow> [SubscribeRejected i e]
    | FinishUnsubscribe tag \<Rightarrow> [UnsubscribeResult True]
    | ConsumerLost \<Rightarrow> [EmitLost (ci_queue (cm_info m i))])"

definition drop_release :: "string \<Rightarrow> after_drop \<Rightarrow> manager \<Rightarrow> manager \<times> cm_out list" where
  "drop_release i after m = (case cm_pool m of
      None \<Rightarrow> drop_finished i after m
    | Some _ \<Rightarrow> (cm_await (DropRelease i after) m, [ReleaseChannel i]))"

text \<open>The part of \<open>dropConsumer\<close> after the drain.\<close>

definition drop_now :: "string \<Rightarrow> after_drop \<Rightarrow> manager \<Rightarrow> manager \<times> cm_out list" where
  "drop_now i after m =
     (let (m1, out) = dispose_processor i (m\<lparr>cm_by_tag := filter (\<lambda>(tag, owner). owner \<noteq> i) (cm_by_tag m)\<rparr>);
          m2 = m1\<lparr>cm_active := removeAll i (cm_active m1)\<rparr>
      in case map_get (cm_worker_pools m2) i of
           Some p \<Rightarrow> (cm_await (DropTerminate i after) (m2\<lparr>cm_worker_pools := map_del i (cm_worker_pools m2)\<rparr>),
                      out @ [TerminatePool p])
         | None \<Rightarrow> apsnd (\<lambda>out'. out @ out') (drop_release i after m2))"

definition drop_consumer :: "string \<Rightarrow> after_drop \<Rightarrow> manager \<Rightarrow> manager \<times> cm_out list" where
  "drop_consumer i after m =
     (if ci_in_flight (cm_info m i) > 0
      then (cm_await (DropDrain i after)
              (cm_update i (\<lambda>info. info\<lparr>ci_drain_waiters := ci_drain_waiters info @ [cm_next_task m]\<rparr>) m), [])
      else drop_now i after m)"

section \<open>Setup and recovery\<close>

definition still_ours :: "string \<Rightarrow> nat option \<Rightarrow> manager \<Rightarrow> bool" where
  "still_ours i owned m \<longleftrightarrow> i \<in> set (cm_active m) \<and> \<not> ci_cancelled (cm_info m i) \<and> map_option fst (cm_pool m) = owned"

definition sleep_then_retry :: "string \<Rightarrow> nat \<Rightarrow> nat \<Rightarrow> nat option \<Rightarrow> manager \<Rightarrow> manager \<times> cm_out list" where
  "sleep_then_retry i attempt known owned m = (cm_await (RecoverySleep i attempt known owned) m, [SleepCall attempt])"

text \<open>A setup that rejected, seen by the caller that awaits it.\<close>

definition setup_failed :: "setup_by \<Rightarrow> string \<Rightarrow> jsval \<Rightarrow> manager \<Rightarrow> manager \<times> cm_out list" where
  "setup_failed by i error m = (case by of
      BySubscribe \<Rightarrow> drop_consumer i (RejectSubscribe error) m
    | ByRecreate \<Rightarrow> (m, [])
    | ByRecovery attempt known owned \<Rightarrow>
        if attempt < max_recovery_attempts then sleep_then_retry i (Suc attempt) known owned m
        else if \<not> still_ours i owned m then (m, [])
        else drop_consumer i ConsumerLost m)"

definition setup_succeeded :: "setup_by \<Rightarrow> string \<Rightarrow> string \<Rightarrow> manager \<Rightarrow> manager \<times> cm_out list" where
  "setup_succeeded by i tag m = (m, case by of
      BySubscribe \<Rightarrow> [Subscribed i tag]
    | ByRecreate \<Rightarrow> []
    | ByRecovery _ _ _ \<Rightarrow> [EmitRecovered (ci_queue (cm_info m i)) (ci_tag (cm_info m i))])"

text \<open>\<open>runSetup\<close>; a recovery records the epoch right after the increment as its own.\<close>

definition run_setup :: "setup_by \<Rightarrow> string \<Rightarrow> manager \<Rightarrow> manager \<times> cm_out list" where
  "run_setup by i m =
     (let m1 = cm_update i (\<lambda>info. info\<lparr>ci_epoch := Suc (ci_epoch info)\<rparr>) m;
          by1 = (case by of ByRecovery attempt _ owned \<Rightarrow> ByRecovery attempt (ci_epoch (cm_info m1 i)) owned | _ \<Rightarrow> by)
      in case cm_pool m1 of
           None \<Rightarrow> setup_failed by1 i not_connected_error m1
         | Some _ \<Rightarrow> (cm_await (SetupChannel by1 i) m1, [OpenDedicated i]))"

definition cancelled_early :: jsval where
  "cancelled_early = error_object ''Consumer was cancelled before its channel was ready''"

definition cancelled_in_flight :: jsval where
  "cancelled_in_flight = error_object ''Consumer was cancelled while its consume was in flight''"

text \<open>The setup closure after \<open>getDedicatedChannel\<close>.\<close>

definition setup_consume :: "setup_by \<Rightarrow> string \<Rightarrow> nat \<Rightarrow> manager \<Rightarrow> manager \<times> cm_out list" where
  "setup_consume by i ch m = (cm_await (SetupConsume by i ch) m, [ConsumeCall i ch])"

definition setup_channel_ready :: "setup_by \<Rightarrow> string \<Rightarrow> nat \<Rightarrow> manager \<Rightarrow> manager \<times> cm_out list" where
  "setup_channel_ready by i ch m =
     (if i \<notin> set (cm_active m)
      then (case cm_pool m of
              None \<Rightarrow> setup_failed by i cancelled_early m
            | Some _ \<Rightarrow> (cm_await (SetupRelease by i) m, [ReleaseChannel i]))
      else if ci_cancelled (cm_info m i) then setup_failed by i cancelled_early m
      else let (m1, out) = (if ci_sequential (cm_info m i)
                 then apfst (cm_update i (\<lambda>info. info\<lparr>ci_processor := True\<rparr>)) (dispose_processor i m) else (m, []))
           in if \<not> ci_no_ack (cm_info m1 i)
              then (cm_await (SetupPrefetch by i ch) m1, out @ [PrefetchCall ch])
              else apsnd (\<lambda>out'. out @ out') (setup_consume by i ch m1))"

definition watch_channel_loss :: "string \<Rightarrow> nat \<Rightarrow> manager \<Rightarrow> manager" where
  "watch_channel_loss i ch m =
     (if ci_watched (cm_info m i) = Some ch then m
      else (cm_update i (\<lambda>info. info\<lparr>ci_watched := Some ch\<rparr>) m)\<lparr>cm_watchers := cm_watchers m @ [(i, ch)]\<rparr>)"

definition setup_consumed :: "setup_by \<Rightarrow> string \<Rightarrow> nat \<Rightarrow> string \<Rightarrow> manager \<Rightarrow> manager \<times> cm_out list" where
  "setup_consumed by i ch tag m =
     (if i \<notin> set (cm_active m) \<or> ci_cancelled (cm_info m i)
      then (cm_await (SetupCancel by i) m, [CancelCall ch tag])
      else let m1 = cm_update i (\<lambda>info. info\<lparr>ci_channel := Some ch\<rparr>) m;
               m2 = track_consumer_tag i tag m1;
               m3 = watch_channel_loss i ch m2
           in setup_succeeded by i tag m3)"

definition handle_consumer_loss :: "string \<Rightarrow> manager \<Rightarrow> manager \<times> cm_out list" where
  "handle_consumer_loss i m =
     (if i \<notin> set (cm_active m) \<or> ci_cancelled (cm_info m i) then (m, [])
      else apsnd (\<lambda>out. EmitCancelled (ci_queue (cm_info m i)) (ci_tag (cm_info m i)) # out)
             (sleep_then_retry i 1 (ci_epoch (cm_info m i)) (map_option fst (cm_pool m)) m))"

text \<open>The loop of \<open>handleConsumerLoss\<close> after a sleep.\<close>

definition recovery_awake :: "string \<Rightarrow> nat \<Rightarrow> nat \<Rightarrow> nat option \<Rightarrow> manager \<Rightarrow> manager \<times> cm_out list" where
  "recovery_awake i attempt known owned m =
     (if \<not> still_ours i owned m then (m, [])
      else if ci_epoch (cm_info m i) \<noteq> known then (m, [])
      else run_setup (ByRecovery attempt known owned) i m)"

definition handle_broker_cancel :: "string \<Rightarrow> manager \<Rightarrow> manager \<times> cm_out list" where
  "handle_broker_cancel i m = (if i \<notin> set (cm_active m) then (m, []) else handle_consumer_loss i m)"

section \<open>Calls and events\<close>

definition subscribe_call :: "string \<Rightarrow> bool \<Rightarrow> bool \<Rightarrow> manager \<Rightarrow> manager \<times> cm_out list" where
  "subscribe_call queue no_ack sequential m =
     (let (m1, i) = register_consumer queue no_ack sequential m in run_setup BySubscribe i m1)"

definition unsubscribe_call :: "string \<Rightarrow> manager \<Rightarrow> manager \<times> cm_out list" where
  "unsubscribe_call tag m = (case find_consumer_id_by_tag tag m of
      None \<Rightarrow> (m, [UnsubscribeResult False])
    | Some i \<Rightarrow>
        if i \<notin> set (cm_active m) then (m, [Crashed])
        else let m1 = cm_update i (\<lambda>info. info\<lparr>ci_cancelled := True\<rparr>) m
             in case ci_channel (cm_info m1 i) of
                  Some ch \<Rightarrow> (cm_await (UnsubscribeCancel i tag) m1, [CancelCall ch (the (ci_tag (cm_info m1 i)))])
                | None \<Rightarrow> drop_consumer i (FinishUnsubscribe tag) m1)"

fun recreate_each :: "string list \<Rightarrow> manager \<Rightarrow> manager \<times> cm_out list" where
  "recreate_each [] m = (m, [])"
| "recreate_each (i # is) m =
     (let (m1, out1) = run_setup ByRecreate i m; (m2, out2) = recreate_each is m1 in (m2, out1 @ out2))"

definition recreate_all :: "manager \<Rightarrow> manager \<times> cm_out list" where
  "recreate_all m = recreate_each (cm_active m) m"

definition dispose_all :: "manager \<Rightarrow> manager \<times> cm_out list" where
  "dispose_all m = (cm_await DisposeTerminate m, map (\<lambda>(i, p). TerminatePool p) (cm_worker_pools m))"

fun cancel_each :: "string list \<Rightarrow> manager \<Rightarrow> manager" where
  "cancel_each [] m = m"
| "cancel_each (i # is) m = cancel_each is (cm_update i (\<lambda>info. info\<lparr>ci_cancelled := True\<rparr>) m)"

definition dispose_finish :: "manager \<Rightarrow> manager \<times> cm_out list" where
  "dispose_finish m =
     ((cancel_each (cm_active m) m)\<lparr>cm_worker_pools := [], cm_active := [], cm_by_tag := []\<rparr>,
      concat (map (\<lambda>i. if ci_processor (cm_info m i) then [DisposeSequential i] else []) (cm_active m)))"

text \<open>The listener of \<open>watchChannelLoss\<close> and the microtask behind it.\<close>

definition watcher_fires :: "nat \<Rightarrow> string \<Rightarrow> manager \<Rightarrow> manager \<times> cm_out list" where
  "watcher_fires ch i m =
     (let (m1, out) = dispose_processor i m
      in case cm_pool m1 of
           None \<Rightarrow> (m1, out)
         | Some (p, shut) \<Rightarrow>
             if shut \<or> ci_cancelled (cm_info m1 i) \<or> ci_channel (cm_info m1 i) \<noteq> Some ch then (m1, out)
             else apsnd (\<lambda>out'. out @ out') (handle_consumer_loss i m1))"

fun watchers_fire :: "nat \<Rightarrow> string list \<Rightarrow> manager \<Rightarrow> manager \<times> cm_out list" where
  "watchers_fire ch [] m = (m, [])"
| "watchers_fire ch (i # is) m =
     (let (m1, out1) = watcher_fires ch i m; (m2, out2) = watchers_fire ch is m1 in (m2, out1 @ out2))"

text \<open>The end of a delivery: the waiters of the drain are resumed when it was the last.\<close>

definition finish_drain :: "nat \<Rightarrow> manager \<Rightarrow> manager \<times> cm_out list" where
  "finish_drain t m = (case map_get (cm_tasks m) t of
      Some (DropDrain i after) \<Rightarrow> drop_now i after (m\<lparr>cm_tasks := map_del t (cm_tasks m)\<rparr>)
    | _ \<Rightarrow> (m, []))"

fun finish_drains :: "nat list \<Rightarrow> manager \<Rightarrow> manager \<times> cm_out list" where
  "finish_drains [] m = (m, [])"
| "finish_drains (t # ts) m =
     (let (m1, out1) = finish_drain t m; (m2, out2) = finish_drains ts m1 in (m2, out1 @ out2))"

definition delivery_finished :: "string \<Rightarrow> manager \<Rightarrow> manager \<times> cm_out list" where
  "delivery_finished i m =
     (let m1 = cm_update i (\<lambda>info. info\<lparr>ci_in_flight := ci_in_flight info - 1\<rparr>) m
      in if ci_in_flight (cm_info m1 i) = 0
         then finish_drains (ci_drain_waiters (cm_info m1 i)) (cm_update i (\<lambda>info. info\<lparr>ci_drain_waiters := []\<rparr>) m1)
         else (m1, []))"

fun resume_task :: "cm_task \<Rightarrow> task_result \<Rightarrow> manager \<Rightarrow> manager \<times> cm_out list" where
  "resume_task (SetupChannel by i) r m = (case r of
      GotChannel ch \<Rightarrow> setup_channel_ready by i ch m
    | TaskFailed e \<Rightarrow> setup_failed by i e m | _ \<Rightarrow> (m, []))"
| "resume_task (SetupRelease by i) r m =
     (case r of TaskFailed e \<Rightarrow> setup_failed by i e m | _ \<Rightarrow> setup_failed by i cancelled_early m)"
| "resume_task (SetupPrefetch by i ch) r m =
     (case r of TaskFailed e \<Rightarrow> setup_failed by i e m | _ \<Rightarrow> setup_consume by i ch m)"
| "resume_task (SetupConsume by i ch) r m = (case r of
      GotTag tag \<Rightarrow> setup_consumed by i ch tag m
    | TaskFailed e \<Rightarrow> setup_failed by i e m | _ \<Rightarrow> (m, []))"
| "resume_task (SetupCancel by i) r m = setup_failed by i cancelled_in_flight m"
| "resume_task (RecoverySleep i attempt known owned) r m = recovery_awake i attempt known owned m"
| "resume_task (UnsubscribeCancel i tag) r m = drop_consumer i (FinishUnsubscribe tag) m"
| "resume_task (DropDrain i after) r m = drop_now i after m"
| "resume_task (DropTerminate i after) r m = drop_release i after m"
| "resume_task (DropRelease i after) r m = drop_finished i after m"
| "resume_task DisposeTerminate r m = dispose_finish m"

datatype cm_event =
    Subscribe string bool bool
  | Unsubscribe string
  | TaskDone nat task_result
  | DeliveryStarts string
  | DeliveryEnds string
  | BrokerCancels string
  | ChannelCloses nat "(nat \<times> bool) option"
  | PoolChanges "(nat \<times> bool) option"
  | AttachWorkers string nat
  | RecreateAll
  | DisposeAll

fun cm_step :: "manager \<Rightarrow> cm_event \<Rightarrow> manager \<times> cm_out list" where
  "cm_step m (Subscribe queue no_ack sequential) = subscribe_call queue no_ack sequential m"
| "cm_step m (Unsubscribe tag) = unsubscribe_call tag m"
| "cm_step m (TaskDone t r) = (case map_get (cm_tasks m) t of
      None \<Rightarrow> (m, [])
    | Some task \<Rightarrow> resume_task task r (m\<lparr>cm_tasks := map_del t (cm_tasks m)\<rparr>))"
| "cm_step m (DeliveryStarts i) = (cm_update i (\<lambda>info. info\<lparr>ci_in_flight := Suc (ci_in_flight info)\<rparr>) m, [])"
| "cm_step m (DeliveryEnds i) = (if ci_in_flight (cm_info m i) = 0 then (m, []) else delivery_finished i m)"
| "cm_step m (BrokerCancels i) = handle_broker_cancel i m"
| "cm_step m (ChannelCloses ch pool) =
     watchers_fire ch (map fst (filter (\<lambda>w. snd w = ch) (cm_watchers m)))
       (m\<lparr>cm_watchers := filter (\<lambda>w. snd w \<noteq> ch) (cm_watchers m), cm_pool := pool\<rparr>)"
| "cm_step m (PoolChanges pool) = (m\<lparr>cm_pool := pool\<rparr>, [])"
| "cm_step m (AttachWorkers tag p) = (case find_consumer_id_by_tag tag m of
      None \<Rightarrow> (m, []) | Some i \<Rightarrow> (m\<lparr>cm_worker_pools := map_set i p (cm_worker_pools m)\<rparr>, []))"
| "cm_step m RecreateAll = recreate_all m"
| "cm_step m DisposeAll = dispose_all m"

section \<open>Invariant\<close>

text \<open>
  Every tag belongs to an active consumer, every active consumer has an info object, and every
  info object was registered under a sequence number already used.
\<close>

definition cm_inv :: "manager \<Rightarrow> bool" where
  "cm_inv m \<longleftrightarrow> map_all (\<lambda>i. i \<in> set (cm_active m)) (cm_by_tag m)
     \<and> set (cm_active m) \<subseteq> key_set (cm_infos m)
     \<and> (\<forall>i \<in> key_set (cm_infos m). \<exists>q n. i = consumer_id q n \<and> n \<le> cm_sequence m)"

text \<open>
  What all steps except a registration have in common: they keep the invariant, revive no
  consumer, create no info object and never turn an epoch back.
\<close>

definition cm_good :: "manager \<Rightarrow> manager \<Rightarrow> bool" where
  "cm_good m m' \<longleftrightarrow> (cm_inv m \<longrightarrow> cm_inv m') \<and> set (cm_active m') \<subseteq> set (cm_active m)
     \<and> key_set (cm_infos m') = key_set (cm_infos m) \<and> cm_sequence m' = cm_sequence m
     \<and> (\<forall>i. ci_epoch (cm_info m i) \<le> ci_epoch (cm_info m' i))"

named_theorems cm_good_intros

lemma cm_good_refl [simp]: "cm_good m m"
  by (simp add: cm_good_def)

lemma cm_good_trans: "cm_good m m1 \<Longrightarrow> cm_good m1 m2 \<Longrightarrow> cm_good m m2"
  unfolding cm_good_def by (simp, meson order_trans)

lemma cm_update_fields [simp]:
  "cm_active (cm_update i f m) = cm_active m" "cm_by_tag (cm_update i f m) = cm_by_tag m"
  "cm_sequence (cm_update i f m) = cm_sequence m" "key_set (cm_infos (cm_update i f m)) = key_set (cm_infos m)"
  "cm_tasks (cm_update i f m) = cm_tasks m" "cm_pool (cm_update i f m) = cm_pool m"
  "cm_worker_pools (cm_update i f m) = cm_worker_pools m" "cm_watchers (cm_update i f m) = cm_watchers m"
  "cm_next_task (cm_update i f m) = cm_next_task m"
  by (auto simp: cm_update_def map_get_key insert_absorb split: option.split)

lemma cm_info_update:
  "cm_info (cm_update i f m) j = (if j = i \<and> i \<in> key_set (cm_infos m) then f (cm_info m i) else cm_info m j)"
  by (auto simp: cm_update_def cm_info_def map_simps map_get_key split: option.split)

lemma cm_await_fields [simp]:
  "cm_active (cm_await t m) = cm_active m" "cm_by_tag (cm_await t m) = cm_by_tag m"
  "cm_sequence (cm_await t m) = cm_sequence m" "cm_infos (cm_await t m) = cm_infos m"
  "cm_pool (cm_await t m) = cm_pool m" "cm_worker_pools (cm_await t m) = cm_worker_pools m"
  "cm_info (cm_await t m) = cm_info m"
  by (simp_all add: cm_await_def cm_info_def [abs_def])

lemma cm_info_same [simp]:
  "cm_info (m\<lparr>cm_tasks := ts\<rparr>) = cm_info m" "cm_info (m\<lparr>cm_by_tag := bt\<rparr>) = cm_info m"
  "cm_info (m\<lparr>cm_watchers := w\<rparr>) = cm_info m"
  by (simp_all add: cm_info_def [abs_def])

lemma cm_good_update: "(\<And>info. ci_epoch info \<le> ci_epoch (f info)) \<Longrightarrow> cm_good m (cm_update i f m)"
  by (auto simp: cm_good_def cm_inv_def cm_info_update)

lemma cm_good_same:
  "cm_active m' = cm_active m \<Longrightarrow> cm_by_tag m' = cm_by_tag m \<Longrightarrow> cm_sequence m' = cm_sequence m \<Longrightarrow>
   cm_infos m' = cm_infos m \<Longrightarrow> cm_good m m'"
  by (simp add: cm_good_def cm_inv_def cm_info_def)

lemma cm_good_await [simp]: "cm_good m (cm_await t m)"
  by (rule cm_good_same) simp_all

lemma cm_good_update_await:
  "(\<And>info. ci_epoch info \<le> ci_epoch (f info)) \<Longrightarrow> cm_good m (cm_await t (cm_update i f m))"
  by (rule cm_good_trans [OF cm_good_update cm_good_await])

lemma dispose_processor_same [simp]: "fst (dispose_processor i m) = m"
  by (simp add: dispose_processor_def)

lemma drop_finished_same [simp]: "fst (drop_finished i after m) = m"
  by (simp add: drop_finished_def)

lemma drop_release_good: "cm_good m (fst (drop_release i after m))"
  by (simp add: drop_release_def split: option.split)

lemma drop_now_good: "cm_good m (fst (drop_now i after m))"
proof -
  let ?m2 = "m\<lparr>cm_by_tag := filter (\<lambda>(tag, owner). owner \<noteq> i) (cm_by_tag m), cm_active := removeAll i (cm_active m)\<rparr>"
  have "map_all (\<lambda>j. j \<in> set (cm_active m) \<and> j \<noteq> i) (filter (\<lambda>(tag, owner). owner \<noteq> i) (cm_by_tag m))"
    if "map_all (\<lambda>j. j \<in> set (cm_active m)) (cm_by_tag m)"
    using that by (auto simp: map_all_def list_all_iff)
  then have base: "cm_good m ?m2" by (auto simp: cm_good_def cm_inv_def cm_info_def)
  show ?thesis
  proof (cases "map_get (cm_worker_pools m) i")
    case None
    then have "fst (drop_now i after m) = fst (drop_release i after ?m2)"
      by (simp add: drop_now_def Let_def split_def dispose_processor_def)
    with cm_good_trans [OF base drop_release_good] show ?thesis by simp
  next
    case (Some p)
    then have "fst (drop_now i after m) = cm_await (DropTerminate i after) (?m2\<lparr>cm_worker_pools := map_del i (cm_worker_pools m)\<rparr>)"
      by (simp add: drop_now_def Let_def split_def dispose_processor_def)
    moreover have "cm_good ?m2 (cm_await t (?m2\<lparr>cm_worker_pools := w\<rparr>))" for t w
      by (rule cm_good_same) simp_all
    ultimately show ?thesis using cm_good_trans [OF base] by simp
  qed
qed

lemma drop_consumer_good: "cm_good m (fst (drop_consumer i after m))"
  by (auto simp: drop_consumer_def drop_now_good intro!: cm_good_update_await)

lemma setup_failed_good: "cm_good m (fst (setup_failed by i e m))"
  by (auto simp: setup_failed_def sleep_then_retry_def drop_consumer_good split: setup_by.split)

lemma run_setup_good: "cm_good m (fst (run_setup by i m))"
proof -
  have base: "cm_good m (cm_update i (\<lambda>info. info\<lparr>ci_epoch := Suc (ci_epoch info)\<rparr>) m)"
    by (rule cm_good_update) simp
  show ?thesis
    using cm_good_trans [OF base setup_failed_good] cm_good_trans [OF base cm_good_await]
    by (simp add: run_setup_def Let_def split: option.split)
qed

lemma setup_consume_good: "cm_good m (fst (setup_consume by i ch m))"
  by (simp add: setup_consume_def)

lemma setup_channel_ready_good: "cm_good m (fst (setup_channel_ready by i ch m))"
proof -
  have base: "cm_good m (cm_update i (\<lambda>info. info\<lparr>ci_processor := True\<rparr>) m)"
    by (rule cm_good_update) simp
  note next_step = cm_good_trans [OF base cm_good_await] cm_good_trans [OF base setup_consume_good]
  show ?thesis
    using next_step
    by (auto simp: setup_channel_ready_def Let_def split_def setup_failed_good setup_consume_good split: option.split)
qed

lemma setup_consumed_good: "cm_good m (fst (setup_consumed by i ch tag m))"
proof (cases "i \<notin> set (cm_active m) \<or> ci_cancelled (cm_info m i)")
  case False
  define m1 where "m1 = cm_update i (\<lambda>info. info\<lparr>ci_channel := Some ch\<rparr>) m"
  define m2 where "m2 = track_consumer_tag i tag m1"
  have m1: "cm_good m m1" unfolding m1_def by (rule cm_good_update) simp
  have u: "cm_good m1 (cm_update i (\<lambda>info. info\<lparr>ci_tag := Some tag\<rparr>) m1)" by (rule cm_good_update) simp
  have "i \<in> set (cm_active m1)" using False by (simp add: m1_def)
  then have "cm_good (cm_update i (\<lambda>info. info\<lparr>ci_tag := Some tag\<rparr>) m1) m2"
    by (auto simp: m2_def track_consumer_tag_def cm_good_def cm_inv_def cm_info_def intro: map_all_set)
  with u have m2: "cm_good m1 m2" by (rule cm_good_trans)
  have "cm_good m2 (cm_update i (\<lambda>info. info\<lparr>ci_watched := Some ch\<rparr>) m2)" by (rule cm_good_update) simp
  moreover have "cm_good (cm_update i f m2) ((cm_update i f m2)\<lparr>cm_watchers := w\<rparr>)" for f w
    by (rule cm_good_same) simp_all
  ultimately have "cm_good m2 (watch_channel_loss i ch m2)"
    by (auto simp: watch_channel_loss_def intro: cm_good_trans)
  then show ?thesis
    using False cm_good_trans [OF m1 cm_good_trans [OF m2]]
    by (simp add: setup_consumed_def Let_def setup_succeeded_def m1_def m2_def)
qed (simp add: setup_consumed_def)

lemma handle_consumer_loss_good: "cm_good m (fst (handle_consumer_loss i m))"
  by (simp add: handle_consumer_loss_def sleep_then_retry_def)

lemma recovery_awake_good: "cm_good m (fst (recovery_awake i attempt known owned m))"
  by (simp add: recovery_awake_def run_setup_good)

lemma recreate_each_good: "cm_good m (fst (recreate_each is m))"
proof (induction "is" arbitrary: m)
  case (Cons i "is")
  show ?case using cm_good_trans [OF run_setup_good Cons.IH] by (simp add: split_def Let_def)
qed simp

lemma watcher_fires_good: "cm_good m (fst (watcher_fires ch i m))"
  by (auto simp: watcher_fires_def split_def Let_def handle_consumer_loss_good split: option.split)

lemma watchers_fire_good: "cm_good m (fst (watchers_fire ch is m))"
proof (induction "is" arbitrary: m)
  case (Cons i "is")
  show ?case using cm_good_trans [OF watcher_fires_good Cons.IH] by (simp add: split_def Let_def)
qed simp

lemma finish_drain_good: "cm_good m (fst (finish_drain t m))"
proof -
  have "cm_good m (m\<lparr>cm_tasks := ts\<rparr>)" for ts by (rule cm_good_same) simp_all
  from cm_good_trans [OF this drop_now_good] show ?thesis
    by (simp add: finish_drain_def split: option.split cm_task.split)
qed

lemma finish_drains_good: "cm_good m (fst (finish_drains ts m))"
proof (induction ts arbitrary: m)
  case (Cons t ts)
  show ?case using cm_good_trans [OF finish_drain_good Cons.IH] by (simp add: split_def Let_def)
qed simp

lemma delivery_finished_good: "cm_good m (fst (delivery_finished i m))"
proof -
  define m1 where "m1 = cm_update i (\<lambda>info. info\<lparr>ci_in_flight := ci_in_flight info - 1\<rparr>) m"
  have m1: "cm_good m m1" unfolding m1_def by (rule cm_good_update) simp
  have "cm_good m1 (cm_update i (\<lambda>info. info\<lparr>ci_drain_waiters := []\<rparr>) m1)" by (rule cm_good_update) simp
  from cm_good_trans [OF m1 cm_good_trans [OF this finish_drains_good]] m1 show ?thesis
    unfolding delivery_finished_def Let_def m1_def [symmetric] by simp
qed

lemma cancel_each_good: "cm_good m (cancel_each is m)"
proof (induction "is" arbitrary: m)
  case (Cons i "is")
  have "cm_good m (cm_update i (\<lambda>info. info\<lparr>ci_cancelled := True\<rparr>) m)" by (rule cm_good_update) simp
  from cm_good_trans [OF this Cons.IH] show ?case by simp
qed simp

lemma dispose_finish_good: "cm_good m (fst (dispose_finish m))"
proof -
  have "cm_good m' (m'\<lparr>cm_worker_pools := [], cm_active := [], cm_by_tag := []\<rparr>)" for m'
    by (auto simp: cm_good_def cm_inv_def cm_info_def)
  from cm_good_trans [OF cancel_each_good this] show ?thesis by (simp add: dispose_finish_def)
qed

lemmas resume_goods = setup_channel_ready_good setup_failed_good setup_consume_good setup_consumed_good
  recovery_awake_good drop_consumer_good drop_now_good drop_release_good dispose_finish_good

lemma resume_task_good: "cm_good m (fst (resume_task task r m))"
  by (cases task) (auto simp: resume_goods split: task_result.split)

lemma unsubscribe_good: "cm_good m (fst (unsubscribe_call tag m))"
proof -
  have "cm_good m (cm_update i (\<lambda>info. info\<lparr>ci_cancelled := True\<rparr>) m)" for i by (rule cm_good_update) simp
  from cm_good_trans [OF this drop_consumer_good] cm_good_trans [OF this cm_good_await] show ?thesis
    by (auto simp: unsubscribe_call_def Let_def split: option.split)
qed

lemma cm_step_good:
  assumes "\<nexists>q n sq. e = Subscribe q n sq" shows "cm_good m (fst (cm_step m e))"
proof (cases e)
  case (TaskDone t r)
  have "cm_good m (m\<lparr>cm_tasks := ts\<rparr>)" for ts by (rule cm_good_same) simp_all
  from cm_good_trans [OF this resume_task_good] show ?thesis using TaskDone by (simp split: option.split)
next
  case (DeliveryStarts i)
  then show ?thesis by (simp add: cm_good_update)
next
  case (ChannelCloses ch pool)
  have "cm_good m (m\<lparr>cm_watchers := w, cm_pool := pool\<rparr>)" for w by (rule cm_good_same) simp_all
  from cm_good_trans [OF this watchers_fire_good] show ?thesis using ChannelCloses by simp
next
  case (PoolChanges pool)
  then show ?thesis using cm_good_same [of "m\<lparr>cm_pool := pool\<rparr>" m] by simp
next
  case (AttachWorkers tag p)
  then show ?thesis using cm_good_same [of "m\<lparr>cm_worker_pools := w\<rparr>" m for w] by (simp split: option.split)
qed (use assms in \<open>simp_all add: unsubscribe_good delivery_finished_good handle_broker_cancel_def
       handle_consumer_loss_good recreate_all_def recreate_each_good dispose_all_def\<close>)

lemma consumer_id_inj: "consumer_id q n = consumer_id q' n' \<Longrightarrow> n = n'"
  using append_dash_inj [of q "nat_str n" q' "nat_str n'"] nat_str_no_dash by (auto simp: consumer_id_def)

lemma register_fresh:
  assumes "cm_inv m" shows "consumer_id q (Suc (cm_sequence m)) \<notin> key_set (cm_infos m)"
  using assms consumer_id_inj by (fastforce simp: cm_inv_def)

lemma register_inv:
  assumes "cm_inv m" shows "cm_inv (fst (register_consumer q na sq m))"
proof -
  have "map_all (\<lambda>i. i \<in> set (cm_active m @ [j])) (cm_by_tag m)" for j
    using assms by (auto simp: cm_inv_def map_all_def list_all_iff)
  moreover have "\<exists>q' n. i = consumer_id q' n \<and> n \<le> Suc (cm_sequence m)" if "i \<in> key_set (cm_infos m)" for i
    using assms that unfolding cm_inv_def by (meson le_SucI)
  ultimately show ?thesis
    using assms by (auto simp: cm_inv_def register_consumer_def Let_def)
qed

text \<open>No step revives a registered consumer or turns back its epoch.\<close>

definition cm_fwd :: "manager \<Rightarrow> manager \<Rightarrow> bool" where
  "cm_fwd m m' \<longleftrightarrow> (\<forall>i \<in> key_set (cm_infos m). i \<in> key_set (cm_infos m') \<and>
     (i \<notin> set (cm_active m) \<longrightarrow> i \<notin> set (cm_active m')) \<and> ci_epoch (cm_info m i) \<le> ci_epoch (cm_info m' i))"

lemma cm_good_fwd: "cm_good m m' \<Longrightarrow> cm_fwd m m'"
  by (auto simp: cm_good_def cm_fwd_def)

lemma cm_fwd_trans: "cm_fwd m m1 \<Longrightarrow> cm_fwd m1 m2 \<Longrightarrow> cm_fwd m m2"
  unfolding cm_fwd_def by (meson order_trans)

lemma register_fwd:
  assumes "cm_inv m" shows "cm_fwd m (fst (register_consumer q na sq m))"
  using register_fresh [OF assms, of q]
  by (auto simp: cm_fwd_def register_consumer_def Let_def cm_info_def map_simps)

lemma cm_step_inv_fwd:
  assumes "cm_inv m" shows "cm_inv (fst (cm_step m e)) \<and> cm_fwd m (fst (cm_step m e))"
proof (cases "\<exists>q n sq. e = Subscribe q n sq")
  case True
  then obtain q n sq where e: "e = Subscribe q n sq" by blast
  define r where "r = register_consumer q n sq m"
  have "fst (cm_step m e) = fst (run_setup BySubscribe (snd r) (fst r))"
    by (simp add: e subscribe_call_def r_def split_def Let_def)
  moreover have registered: "cm_inv (fst r)" "cm_fwd m (fst r)"
    unfolding r_def by (rule register_inv [OF assms], rule register_fwd [OF assms])
  note ran = run_setup_good [of "fst r" BySubscribe "snd r"]
  ultimately show ?thesis
    using cm_fwd_trans [OF registered(2) cm_good_fwd [OF ran]] ran registered by (simp add: cm_good_def)
next
  case False
  from cm_step_good [OF this, of m] show ?thesis using assms cm_good_fwd by (auto simp: cm_good_def)
qed

interpretation cm: event_machine cm_step "\<lambda>_. True" cm_inv
  by unfold_locales (simp add: cm_step_inv_fwd)

lemma cm_new_inv: "cm_inv (cm_new pool)"
  by (simp add: cm_inv_def cm_new_def)

lemma cm_reach_inv: "cm_inv m \<Longrightarrow> cm_inv (fst (run_machine cm_step m es))"
  by (rule cm.run_inv) (simp_all add: list_all_iff)

lemma cm_run_fwd: "cm_inv m \<Longrightarrow> cm_fwd m (fst (run_machine cm_step m es))"
proof (induction es arbitrary: m)
  case Nil
  then show ?case by (simp add: cm_fwd_def)
next
  case (Cons e es)
  have "cm_inv (fst (cm_step m e))" "cm_fwd m (fst (cm_step m e))" using cm_step_inv_fwd [OF Cons.prems] by auto
  with Cons.IH [of "fst (cm_step m e)"] cm_fwd_trans show ?case by (simp del: cm_step.simps)
qed

section \<open>Properties\<close>

lemma cm_not_crashed:
  assumes "cm_inv m" shows "Crashed \<notin> set (snd (cm_step m e))"
proof -
  have drop: "Crashed \<notin> set (snd (drop_release i after m'))" "Crashed \<notin> set (snd (drop_now i after m'))"
    "Crashed \<notin> set (snd (drop_consumer i after m'))" for i after m'
  proof -
    show r: "Crashed \<notin> set (snd (drop_release i after m'))" for i after m'
      by (auto simp: drop_release_def drop_finished_def split: option.split after_drop.split)
    show n: "Crashed \<notin> set (snd (drop_now i after m'))" for i after m'
      using r by (auto simp: drop_now_def dispose_processor_def Let_def split: option.split)
    show "Crashed \<notin> set (snd (drop_consumer i after m'))" using n by (simp add: drop_consumer_def)
  qed
  have failed: "Crashed \<notin> set (snd (setup_failed by i err m'))" for "by" i err m'
    using drop by (auto simp: setup_failed_def sleep_then_retry_def split: setup_by.split)
  have ran: "Crashed \<notin> set (snd (run_setup by i m'))" for "by" i m'
    using failed by (auto simp: run_setup_def Let_def split: option.split)
  have loss: "Crashed \<notin> set (snd (handle_consumer_loss i m'))" for i m'
    by (auto simp: handle_consumer_loss_def sleep_then_retry_def)
  have recreate: "Crashed \<notin> set (snd (recreate_each is m'))" for "is" m'
    using ran by (induction "is" arbitrary: m') (auto simp: split_def Let_def)
  have fires: "Crashed \<notin> set (snd (watchers_fire ch is m'))" for ch "is" m'
    using loss by (induction "is" arbitrary: m') (auto simp: split_def Let_def watcher_fires_def dispose_processor_def split: option.split)
  have drains: "Crashed \<notin> set (snd (finish_drains ts m'))" for ts m'
    using drop by (induction ts arbitrary: m') (auto simp: split_def Let_def finish_drain_def split: option.split cm_task.split)
  have resume: "Crashed \<notin> set (snd (resume_task task r m'))" for task r m'
    using drop failed ran
    by (cases task) (auto simp: setup_channel_ready_def setup_consume_def setup_consumed_def setup_succeeded_def
        recovery_awake_def drop_finished_def dispose_finish_def dispose_processor_def Let_def split_def
        split: task_result.split option.split setup_by.split after_drop.split)
  have owned: "i \<in> set (cm_active m)" if "find_consumer_id_by_tag tag m = Some i" for tag i
    using assms that map_all_get by (fastforce simp: cm_inv_def find_consumer_id_by_tag_def)
  show ?thesis
  proof (cases e)
    case (Unsubscribe tag)
    then show ?thesis using owned drop by (auto simp: unsubscribe_call_def Let_def split: option.split)
  next
    case (DeliveryEnds i)
    then show ?thesis using drains by (simp add: delivery_finished_def Let_def)
  qed (use resume ran loss recreate fires in \<open>auto simp: subscribe_call_def register_consumer_def Let_def
         handle_broker_cancel_def recreate_all_def dispose_all_def split: option.split\<close>)
qed

text \<open>
  C13: A tag always leads to a live consumer. After any sequence of subscriptions, recoveries,
  recreations, unsubscriptions, channel losses, drops and disposals, in any interleaving of
  their steps, every tag the registry knows belongs to an active consumer: looking up the queue
  of a tag never reads a property of an absent consumer, and neither does \<open>unsubscribe\<close>.
\<close>

theorem consumer_tags_owned:
  "(\<exists>r. find_queue_name_by_tag tag (fst (run_machine cm_step (cm_new pool) es)) = Inr r)
   \<and> Crashed \<notin> set (snd (run_machine cm_step (cm_new pool) es))"
proof -
  define m where "m = fst (run_machine cm_step (cm_new pool) es)"
  have inv: "cm_inv m" unfolding m_def by (rule cm_reach_inv [OF cm_new_inv])
  then have "i \<in> set (cm_active m)" if "find_consumer_id_by_tag t m = Some i" for t i
    using that map_all_get by (fastforce simp: cm_inv_def find_consumer_id_by_tag_def)
  then have "\<exists>r. find_queue_name_by_tag tag m = Inr r"
    by (auto simp: find_queue_name_by_tag_def split: option.split)
  moreover have "Crashed \<notin> set (snd (run_machine cm_step m' es))" if "cm_inv m'" for m'
    using that
  proof (induction es arbitrary: m')
    case (Cons e es)
    then show ?case using cm_not_crashed cm_step_inv_fwd [of m' e] by (simp del: cm_step.simps)
  qed simp
  ultimately show ?thesis using cm_new_inv by (simp add: m_def)
qed

text \<open>
  What is gone stays gone. Once a registered consumer has been removed (unsubscribed, given
  up on, or disposed), nothing that is still in flight for it, no setup, recovery or recreation,
  brings it back: in every later state it is not active and no tag leads to it.
\<close>

theorem dropped_consumer_stays_dropped:
  assumes "m = fst (run_machine cm_step (cm_new pool) es)"
    and "map_has (cm_infos m) i" "i \<notin> set (cm_active m)"
    and "m' = fst (run_machine cm_step m es')"
  shows "i \<notin> set (cm_active m') \<and> find_consumer_id_by_tag tag m' \<noteq> Some i"
proof -
  have inv: "cm_inv m" unfolding assms(1) by (rule cm_reach_inv [OF cm_new_inv])
  have "i \<notin> set (cm_active m')"
    using cm_run_fwd [OF inv, of es'] assms(2-4) by (auto simp: cm_fwd_def map_has_key)
  moreover have "cm_inv m'" unfolding assms(4) by (rule cm_reach_inv [OF inv])
  ultimately show ?thesis
    using map_all_get by (fastforce simp: cm_inv_def find_consumer_id_by_tag_def)
qed

text \<open>
  The fence behind the consume call. When the broker answers a consume for a consumer that
  has been removed or is being unsubscribed, the consumer just created is cancelled on its
  channel and no tag is tracked; otherwise the tag leads to the consumer from then on.
\<close>

theorem consume_fence:
  assumes "map_get (cm_tasks m) t = Some (SetupConsume by i ch)" "map_has (cm_infos m) i"
  shows "(if i \<in> set (cm_active m) \<and> \<not> ci_cancelled (cm_info m i)
          then find_consumer_id_by_tag tag (fst (cm_step m (TaskDone t (GotTag tag)))) = Some i
            \<and> ci_channel (cm_info (fst (cm_step m (TaskDone t (GotTag tag)))) i) = Some ch
          else snd (cm_step m (TaskDone t (GotTag tag))) = [CancelCall ch tag]
            \<and> cm_by_tag (fst (cm_step m (TaskDone t (GotTag tag)))) = cm_by_tag m)"
  using assms
  by (auto simp: setup_consumed_def find_consumer_id_by_tag_def Let_def track_consumer_tag_def
      watch_channel_loss_def setup_succeeded_def map_simps cm_info_update)

lemma run_setup_epoch:
  assumes "i \<in> key_set (cm_infos m)"
  shows "ci_epoch (cm_info m i) < ci_epoch (cm_info (fst (run_setup by i m)) i)"
proof -
  define m1 where "m1 = cm_update i (\<lambda>info. info\<lparr>ci_epoch := Suc (ci_epoch info)\<rparr>) m"
  have "ci_epoch (cm_info m i) < ci_epoch (cm_info m1 i)" using assms by (simp add: m1_def cm_info_update)
  moreover have "cm_good m1 (fst (run_setup by i m))"
    using setup_failed_good by (simp add: run_setup_def Let_def m1_def split: option.split)
  ultimately show ?thesis unfolding cm_good_def by (meson le_less_trans less_le_trans)
qed

lemma recreate_each_epoch:
  assumes "i \<in> set is" "set is \<subseteq> key_set (cm_infos m)"
  shows "ci_epoch (cm_info m i) < ci_epoch (cm_info (fst (recreate_each is m)) i)"
  using assms
proof (induction "is" arbitrary: m)
  case (Cons j "is")
  define m1 where "m1 = fst (run_setup ByRecreate j m)"
  have good: "cm_good m m1" unfolding m1_def by (rule run_setup_good)
  have rest: "cm_good m1 (fst (recreate_each is m1))" by (rule recreate_each_good)
  have le: "ci_epoch (cm_info m i) \<le> ci_epoch (cm_info m1 i)"
    "ci_epoch (cm_info m1 i) \<le> ci_epoch (cm_info (fst (recreate_each is m1)) i)"
    using good rest by (auto simp: cm_good_def)
  have "ci_epoch (cm_info m i) < ci_epoch (cm_info (fst (recreate_each is m1)) i)"
  proof (cases "i = j")
    case True
    then show ?thesis using run_setup_epoch [of j m ByRecreate] Cons.prems(2) le(2) by (simp add: m1_def)
  next
    case False
    then have "ci_epoch (cm_info m1 i) < ci_epoch (cm_info (fst (recreate_each is m1)) i)"
      using Cons.prems good by (intro Cons.IH) (auto simp: cm_good_def)
    with le(1) show ?thesis by simp
  qed
  then show ?case by (simp add: split_def Let_def m1_def)
qed simp

text \<open>
  A recovery yields to a recreation. A recovery that sleeps while \<open>recreateAll\<close> starts to
  recreate its consumer, at whatever point of the sleep, wakes up to nothing: it starts no
  setup, so the consumer is not consumed twice, and leaves the registry as it is.
\<close>

theorem recovery_yields_to_recreation:
  assumes "m = fst (run_machine cm_step (cm_new pool) es)" "i \<in> set (cm_active m)"
    and "map_get (cm_tasks m) t = Some (RecoverySleep i attempt known owned)" "known \<le> ci_epoch (cm_info m i)"
    and "m' = fst (run_machine cm_step m (RecreateAll # es'))"
    and "map_get (cm_tasks m') t = Some (RecoverySleep i attempt known owned)"
  shows "cm_step m' (TaskDone t r) = (m'\<lparr>cm_tasks := map_del t (cm_tasks m')\<rparr>, [])"
proof -
  have inv: "cm_inv m" unfolding assms(1) by (rule cm_reach_inv [OF cm_new_inv])
  then have "set (cm_active m) \<subseteq> key_set (cm_infos m)" by (simp add: cm_inv_def)
  with assms(2) have key: "i \<in> key_set (cm_infos m)"
    and "ci_epoch (cm_info m i) < ci_epoch (cm_info (fst (cm_step m RecreateAll)) i)"
    using recreate_each_epoch [of i "cm_active m" m] by (auto simp: recreate_all_def)
  moreover have "cm_inv (fst (cm_step m RecreateAll))" using cm_step_inv_fwd [OF inv] by blast
  from cm_run_fwd [OF this, of es'] have "cm_fwd (fst (cm_step m RecreateAll)) m'" by (simp add: assms(5))
  moreover have "i \<in> key_set (cm_infos (fst (cm_step m RecreateAll)))"
    using cm_step_inv_fwd [OF inv, of RecreateAll] key by (auto simp: cm_fwd_def)
  ultimately have "known < ci_epoch (cm_info m' i)"
    using assms(4) unfolding cm_fwd_def by (meson le_less_trans less_le_trans)
  with assms(6) show ?thesis by (simp add: recovery_awake_def)
qed

definition cm_sample_id :: string where
  "cm_sample_id = ''consumer-q-1''"

definition cm_sample :: "cm_event list" where
  "cm_sample = [Subscribe ''q'' True False, TaskDone 0 (GotChannel 5), TaskDone 1 (GotTag ''t''), BrokerCancels cm_sample_id]"

lemma cm_sample_consumer: "consumer_id ''q'' (Suc 0) = cm_sample_id"
  by (simp add: consumer_id_def nat_str.simps digit_char_def cm_sample_id_def)

definition cm_sample_info :: consumer_info where
  "cm_sample_info = \<lparr>ci_queue = ''q'', ci_no_ack = True, ci_sequential = False, ci_channel = Some 5, ci_tag = Some ''t'',
     ci_watched = Some 5, ci_cancelled = False, ci_processor = False, ci_epoch = 1, ci_in_flight = 0, ci_drain_waiters = []\<rparr>"

definition cm_sample_state :: manager where
  "cm_sample_state = \<lparr>cm_infos = [(cm_sample_id, cm_sample_info)], cm_active = [cm_sample_id],
     cm_by_tag = [(''t'', cm_sample_id)], cm_worker_pools = [], cm_sequence = 1, cm_watchers = [(cm_sample_id, 5)],
     cm_pool = Some (7, False), cm_tasks = [(2, RecoverySleep cm_sample_id 1 1 (Some 7))], cm_next_task = 3\<rparr>"

lemmas cm_eval = subscribe_call_def register_consumer_def run_setup_def setup_channel_ready_def setup_consume_def
  setup_consumed_def setup_succeeded_def setup_failed_def track_consumer_tag_def watch_channel_loss_def cm_update_def
  cm_await_def handle_broker_cancel_def handle_consumer_loss_def sleep_then_retry_def recreate_all_def
  unsubscribe_call_def find_consumer_id_by_tag_def drop_consumer_def drop_now_def drop_release_def drop_finished_def
  dispose_processor_def cm_info_def Let_def

lemma cm_sample_run: "fst (run_machine cm_step (cm_new (Some (7, False))) cm_sample) = cm_sample_state"
  by (simp add: cm_sample_def cm_new_def cm_sample_consumer cm_sample_state_def cm_sample_info_def cm_eval
      run_machine.simps(2) del: run_machine_simps)

theorem recovery_yields_to_recreation_witness:
  "let m' = fst (run_machine cm_step (fst (run_machine cm_step (cm_new (Some (7, False))) cm_sample)) [RecreateAll])
   in cm_step m' (TaskDone 2 Done) = (m'\<lparr>cm_tasks := map_del 2 (cm_tasks m')\<rparr>, [])"
  unfolding Let_def
  by (rule recovery_yields_to_recreation [where i = cm_sample_id and attempt = 1 and known = 1 and owned = "Some 7", OF refl _ _ _ refl])
     (simp_all add: cm_sample_run, simp_all add: cm_sample_state_def cm_sample_info_def cm_eval)

lemma cm_sample_append:
  "fst (run_machine cm_step (cm_new (Some (7, False))) (cm_sample @ es)) = fst (run_machine cm_step cm_sample_state es)"
  using cm_sample_run by (simp add: run_machine_append split_def Let_def)

lemma cm_sample_dropped:
  "map_has (cm_infos (fst (run_machine cm_step cm_sample_state [Unsubscribe ''t'', TaskDone 3 Done]))) cm_sample_id"
  "cm_sample_id \<notin> set (cm_active (fst (run_machine cm_step cm_sample_state [Unsubscribe ''t'', TaskDone 3 Done])))"
  by (simp_all add: cm_sample_state_def cm_sample_info_def cm_eval run_machine.simps(2) map_has_def del: run_machine_simps)

theorem dropped_consumer_stays_dropped_witness:
  "let m = fst (run_machine cm_step (cm_new (Some (7, False))) (cm_sample @ [Unsubscribe ''t'', TaskDone 3 Done]));
       m' = fst (run_machine cm_step m [TaskDone 2 Done, RecreateAll])
   in cm_sample_id \<notin> set (cm_active m') \<and> find_consumer_id_by_tag ''t'' m' \<noteq> Some cm_sample_id"
  unfolding Let_def
  by (rule dropped_consumer_stays_dropped [OF refl _ _ refl])
     (simp_all only: cm_sample_append cm_sample_dropped not_False_eq_True)

theorem consume_fence_witness:
  "snd (cm_step (cm_sample_state\<lparr>cm_active := [], cm_tasks := [(2, SetupConsume ByRecreate cm_sample_id 5)]\<rparr>)
     (TaskDone 2 (GotTag ''u''))) = [CancelCall 5 ''u'']"
  using consume_fence [of "cm_sample_state\<lparr>cm_active := [], cm_tasks := [(2, SetupConsume ByRecreate cm_sample_id 5)]\<rparr>"
      2 ByRecreate cm_sample_id 5 "''u''"]
  by (simp add: cm_sample_state_def map_has_def del: cm_step.simps)

text \<open>
  A subscription made while a restore is under way is consumed twice. The channel pool of a
  new connection is in place before \<open>recreateAll\<close> runs; a consumer subscribed in between is
  registered with its setup in flight, and \<open>recreateAll\<close> starts a second setup for it. Both
  consume calls succeed and nothing is cancelled; unsubscribing with the tag the caller got
  cancels only the other consumer.
\<close>

theorem subscribe_during_restore_duplicates:
  "snd (run_machine cm_step (cm_new (Some (7, False)))
     [Subscribe ''q'' True False, RecreateAll, TaskDone 0 (GotChannel 5), TaskDone 1 (GotChannel 6),
      TaskDone 2 (GotTag ''s''), TaskDone 3 (GotTag ''t''), Unsubscribe ''s''])
   = [OpenDedicated cm_sample_id, OpenDedicated cm_sample_id, ConsumeCall cm_sample_id 5,
      ConsumeCall cm_sample_id 6, Subscribed cm_sample_id ''s'', CancelCall 6 ''t'']"
  by (simp add: cm_new_def cm_sample_consumer cm_eval run_machine.simps(2) del: run_machine_simps)

end
