(* ===== verification/Parallel_Subscription.thy ===== *)
theory Parallel_Subscription
  imports Consumer_Lifecycle
begin

text \<open>
  The worker pools of \<open>subscribeParallel\<close> in \<open>src/consumers/consumer-manager.js\<close>: a call spawns a
  pool, subscribes, and registers the pool with the consumer or terminates it when the
  subscription fails. The machine wraps that of the consumers and routes the ends of
  subscriptions to the calls that await them. The threads are those of \<open>Worker_Pool\<close>.
\<close>

section \<open>State\<close>

text \<open>
  The pools of the calls that await their subscription, by consumer; those being terminated
  with the error that the call will reject with.
\<close>

record parallel =
  ps_manager :: manager
  ps_calls :: "(string, nat) jsmap"
  ps_failing :: "(nat, jsval) jsmap"
  ps_next :: nat

datatype ps_out =
    ManagerOut cm_out
  | SpawnPool nat
  | TerminateSpawned nat
  | ParallelSubscribed nat string
  | ParallelRejected nat jsval

definition parallel_new :: "manager \<Rightarrow> parallel" where
  "parallel_new m = \<lparr>ps_manager = m, ps_calls = [], ps_failing = [], ps_next = 0\<rparr>"

section \<open>Operations\<close>

text \<open>The catch: the pool is terminated, then the error rethrown.\<close>

definition subscription_failed :: "nat \<Rightarrow> jsval \<Rightarrow> parallel \<Rightarrow> parallel \<times> ps_out list" where
  "subscription_failed p e s = (s\<lparr>ps_failing := map_set p e (ps_failing s)\<rparr>, [TerminateSpawned p])"

definition spawned_terminated :: "nat \<Rightarrow> parallel \<Rightarrow> parallel \<times> ps_out list" where
  "spawned_terminated p s = (case map_get (ps_failing s) p of
      None \<Rightarrow> (s, []) | Some e \<Rightarrow> (s\<lparr>ps_failing := map_del p (ps_failing s)\<rparr>, [ParallelRejected p e]))"

text \<open>The subscription resolved: the pool is registered with the consumer of the tag, if there is one.\<close>

definition subscription_ready :: "nat \<Rightarrow> string \<Rightarrow> parallel \<Rightarrow> parallel \<times> ps_out list" where
  "subscription_ready p tag s =
     (s\<lparr>ps_manager := fst (cm_step (ps_manager s) (AttachWorkers tag p))\<rparr>, [ParallelSubscribed p tag])"

fun route_manager :: "cm_out \<Rightarrow> parallel \<Rightarrow> parallel \<times> ps_out list" where
  "route_manager (Subscribed i tag) s = (case map_get (ps_calls s) i of
      None \<Rightarrow> (s, [ManagerOut (Subscribed i tag)])
    | Some p \<Rightarrow> subscription_ready p tag (s\<lparr>ps_calls := map_del i (ps_calls s)\<rparr>))"
| "route_manager (SubscribeRejected i e) s = (case map_get (ps_calls s) i of
      None \<Rightarrow> (s, [ManagerOut (SubscribeRejected i e)])
    | Some p \<Rightarrow> subscription_failed p e (s\<lparr>ps_calls := map_del i (ps_calls s)\<rparr>))"
| "route_manager out s = (s, [ManagerOut out])"

fun route_all :: "cm_out list \<Rightarrow> parallel \<Rightarrow> parallel \<times> ps_out list" where
  "route_all [] s = (s, [])"
| "route_all (out # outs) s = chain (route_manager out s) (route_all outs)"

definition manager_event :: "cm_event \<Rightarrow> parallel \<Rightarrow> parallel \<times> ps_out list" where
  "manager_event e s = (case cm_step (ps_manager s) e of (m, outs) \<Rightarrow> route_all outs (s\<lparr>ps_manager := m\<rparr>))"

text \<open>The arguments are checked by \<open>subscribe\<close>, after the pool was spawned.\<close>

definition subscribe_parallel :: "string \<Rightarrow> bool \<Rightarrow> jsval option \<Rightarrow> parallel \<Rightarrow> parallel \<times> ps_out list" where
  "subscribe_parallel queue no_ack refused s =
     (let p = ps_next s; s1 = s\<lparr>ps_next := Suc p\<rparr>
      in chain (s1, [SpawnPool p])
           (case refused of
              Some e \<Rightarrow> subscription_failed p e
            | None \<Rightarrow> (\<lambda>q. manager_event (Subscribe queue no_ack False)
                (q\<lparr>ps_calls := map_set (consumer_id queue (Suc (cm_sequence (ps_manager q)))) p (ps_calls q)\<rparr>))))"

datatype ps_event =
    SubscribeParallel string bool "jsval option"
  | SpawnedTerminated nat
  | ManagerEvent cm_event

fun ps_step :: "parallel \<Rightarrow> ps_event \<Rightarrow> parallel \<times> ps_out list" where
  "ps_step s (SubscribeParallel queue no_ack refused) = subscribe_parallel queue no_ack refused s"
| "ps_step s (SpawnedTerminated p) = spawned_terminated p s"
| "ps_step s (ManagerEvent e) = manager_event e s"

section \<open>What the manager does with registered pools\<close>

fun cm_terminates :: "cm_out \<Rightarrow> nat multiset" where
  "cm_terminates (TerminatePool p) = {#p#}"
| "cm_terminates _ = {#}"

abbreviation cm_terminated :: "cm_out list \<Rightarrow> nat multiset" where
  "cm_terminated outs \<equiv> total_settled cm_terminates outs"

definition pools_ok :: "manager \<Rightarrow> bool" where
  "pools_ok m \<longleftrightarrow> wf_map (cm_worker_pools m) \<and> map_all (\<lambda>t. t \<noteq> DisposeTerminate) (cm_tasks m) \<and>
     key_set (cm_worker_pools m) \<subseteq> set (cm_active m)"

definition answers_subscription :: "cm_out \<Rightarrow> bool" where
  "answers_subscription out \<longleftrightarrow> (case out of Subscribed i tag \<Rightarrow> True | _ \<Rightarrow> False)"

text \<open>What every piece of the manager does: pools leave its map only by being terminated.\<close>

definition pools_flow :: "manager \<Rightarrow> manager \<times> cm_out list \<Rightarrow> bool" where
  "pools_flow m r \<longleftrightarrow> (pools_ok m \<longrightarrow> pools_ok (fst r) \<and> key_set (cm_worker_pools (fst r)) \<subseteq> key_set (cm_worker_pools m) \<and>
     vals_of (cm_worker_pools m) = vals_of (cm_worker_pools (fst r)) + cm_terminated (snd r))"

definition silent :: "cm_out list \<Rightarrow> bool" where
  "silent outs \<longleftrightarrow> list_all (\<lambda>out. \<not> answers_subscription out) outs"

lemma silent_simps [simp]: "silent []" "silent (xs @ ys) \<longleftrightarrow> silent xs \<and> silent ys"
  "silent (x # xs) \<longleftrightarrow> \<not> answers_subscription x \<and> silent xs"
  by (simp_all add: silent_def)

definition calm :: "manager \<Rightarrow> manager \<times> cm_out list \<Rightarrow> bool" where
  "calm m r \<longleftrightarrow> pools_flow m r \<and> silent (snd r)"

lemma calm_trans: "calm m r \<Longrightarrow> calm (fst r) r' \<Longrightarrow> calm m (fst r', snd r @ snd r')"
  by (auto simp: calm_def pools_flow_def)

lemma calm_start:
  assumes "calm m' r" "cm_worker_pools m' = cm_worker_pools m" "set (cm_active m) \<subseteq> set (cm_active m')"
    "map_all (\<lambda>t. t \<noteq> DisposeTerminate) (cm_tasks m) \<Longrightarrow> map_all (\<lambda>t. t \<noteq> DisposeTerminate) (cm_tasks m')"
  shows "calm m r"
  using assms by (auto simp: calm_def pools_flow_def pools_ok_def)

lemma calm_same: "cm_terminated out = {#} \<Longrightarrow> silent out \<Longrightarrow> calm m (m, out)"
  by (simp add: calm_def pools_flow_def)

lemma tasks_await: "t \<noteq> DisposeTerminate \<Longrightarrow> map_all (\<lambda>t. t \<noteq> DisposeTerminate) (cm_tasks m) \<Longrightarrow>
    map_all (\<lambda>t. t \<noteq> DisposeTerminate) (cm_tasks (cm_await t m))"
  by (simp add: cm_await_def map_all_set)

lemma calm_await: "t \<noteq> DisposeTerminate \<Longrightarrow> cm_terminated out = {#} \<Longrightarrow> silent out \<Longrightarrow> calm m (cm_await t m, out)"
  by (auto simp: calm_def pools_flow_def pools_ok_def tasks_await)

lemma calm_update: "calm (cm_update i f m) r \<Longrightarrow> calm m r"
  by (erule calm_start) simp_all

lemma calm_prefix: "calm m r \<Longrightarrow> cm_terminated out = {#} \<Longrightarrow> silent out \<Longrightarrow> calm m (apsnd (\<lambda>out'. out @ out') r)"
  by (cases r) (simp add: calm_def pools_flow_def)

lemma answers_subscription_simps [simp]:
  "answers_subscription (Subscribed i tag)" "\<not> answers_subscription (TerminatePool p)" "\<not> answers_subscription (OpenDedicated i)"
  "\<not> answers_subscription (PrefetchCall ch)" "\<not> answers_subscription (ConsumeCall i ch)" "\<not> answers_subscription (CancelCall ch tag)"
  "\<not> answers_subscription (SleepCall n)" "\<not> answers_subscription (ReleaseChannel i)" "\<not> answers_subscription (DisposeSequential i)"
  "\<not> answers_subscription (EmitCancelled q t)" "\<not> answers_subscription (EmitRecovered q t)" "\<not> answers_subscription (EmitLost q)"
  "\<not> answers_subscription (SubscribeRejected i e)" "\<not> answers_subscription (UnsubscribeResult b)" "\<not> answers_subscription Crashed"
  by (simp_all add: answers_subscription_def)

lemma calm_dispose_processor: "calm m (dispose_processor i m)"
  by (simp add: dispose_processor_def calm_same)

lemma calm_drop_finished: "calm m (drop_finished i after m)"
  by (cases after) (simp_all add: drop_finished_def calm_same)

lemma calm_drop_release: "calm m (drop_release i after m)"
  by (simp add: drop_release_def calm_drop_finished calm_await split: option.split)

lemma calm_drop_now: "calm m (drop_now i after m)"
proof -
  let ?tags = "filter (\<lambda>(tag, owner). owner \<noteq> i) (cm_by_tag m)"
  let ?m2 = "m\<lparr>cm_by_tag := ?tags, cm_active := removeAll i (cm_active m)\<rparr>"
  define out where "out = (if ci_processor (cm_info m i) then [DisposeSequential i] else [])"
  have out: "cm_terminated out = {#}" "silent out" by (simp_all add: out_def)
  show ?thesis
  proof (cases "map_get (cm_worker_pools m) i")
    case None
    then have run: "drop_now i after m = (fst (drop_release i after ?m2), out @ snd (drop_release i after ?m2))"
      by (simp add: drop_now_def Let_def dispose_processor_def out_def apsnd_def map_prod_def split_def)
    have absent: "i \<notin> key_set (cm_worker_pools m)" using None by (simp add: map_simps)
    have "pools_ok m \<Longrightarrow> pools_ok ?m2" using absent by (auto simp: pools_ok_def)
    then have "calm m (?m2, out)" using out by (simp add: calm_def pools_flow_def)
    from calm_trans [OF this, of "drop_release i after ?m2"] show ?thesis by (simp add: run calm_drop_release)
  next
    case (Some p)
    then have run: "drop_now i after m =
        (cm_await (DropTerminate i after) (?m2\<lparr>cm_worker_pools := map_del i (cm_worker_pools m)\<rparr>), out @ [TerminatePool p])"
      by (simp add: drop_now_def Let_def dispose_processor_def out_def)
    have "pools_ok m \<Longrightarrow> pools_ok (cm_await (DropTerminate i after) (?m2\<lparr>cm_worker_pools := map_del i (cm_worker_pools m)\<rparr>))"
      by (auto simp: pools_ok_def intro!: tasks_await)
    with Some out show ?thesis
      unfolding run by (auto simp: calm_def pools_flow_def pools_ok_def vals_del)
  qed
qed

lemma calm_drop_consumer: "calm m (drop_consumer i after m)"
  unfolding drop_consumer_def by (auto simp: calm_drop_now intro!: calm_update [OF calm_await])

lemma calm_setup_failed: "calm m (setup_failed by i e m)"
  by (auto simp: setup_failed_def sleep_then_retry_def calm_drop_consumer intro!: calm_await calm_same split: setup_by.split)

lemma calm_run_setup: "calm m (run_setup by i m)"
  by (auto simp: run_setup_def Let_def intro!: calm_update [OF calm_setup_failed] calm_update [OF calm_await] split: option.split)

lemma calm_setup_consume: "calm m (setup_consume by i ch m)"
  by (simp add: setup_consume_def calm_await)

lemma calm_setup_channel_ready: "calm m (setup_channel_ready by i ch m)"
proof -
  let ?f = "\<lambda>info. info\<lparr>ci_processor := True\<rparr>"
  have "calm m (cm_await (SetupPrefetch by i ch) (cm_update i ?f m), out)" "calm m (apsnd (\<lambda>out'. out @ out') (setup_consume by i ch (cm_update i ?f m)))"
    if "cm_terminated out = {#}" "silent out" for out
    using that by (auto intro!: calm_update [of i ?f m] calm_await calm_prefix calm_setup_consume)
  moreover have "cm_terminated (snd (dispose_processor i m)) = {#}" "silent (snd (dispose_processor i m))"
    by (simp_all add: dispose_processor_def)
  ultimately show ?thesis
    by (auto simp: setup_channel_ready_def Let_def split_def calm_setup_failed calm_await calm_setup_consume calm_prefix split: option.split)
qed

lemma calm_handle_consumer_loss: "calm m (handle_consumer_loss i m)"
  by (simp add: handle_consumer_loss_def sleep_then_retry_def calm_same calm_await)

lemma calm_recovery_awake: "calm m (recovery_awake i attempt known owned m)"
  by (simp add: recovery_awake_def calm_run_setup calm_same)

lemma calm_recreate_each: "calm m (recreate_each is m)"
proof (induction "is" arbitrary: m)
  case (Cons i "is")
  from calm_trans [OF calm_run_setup Cons.IH] show ?case by (simp add: split_def Let_def)
qed (simp add: calm_same)

lemma calm_watcher_fires: "calm m (watcher_fires ch i m)"
proof -
  have "cm_terminated (snd (dispose_processor i m)) = {#}" "silent (snd (dispose_processor i m))"
    by (simp_all add: dispose_processor_def)
  then show ?thesis
    by (auto simp: watcher_fires_def split_def Let_def calm_same calm_handle_consumer_loss calm_prefix split: option.split)
qed

lemma calm_watchers_fire: "calm m (watchers_fire ch is m)"
proof (induction "is" arbitrary: m)
  case (Cons i "is")
  from calm_trans [OF calm_watcher_fires Cons.IH] show ?case by (simp add: split_def Let_def)
qed (simp add: calm_same)

lemma calm_task_gone: "calm (m\<lparr>cm_tasks := map_del t (cm_tasks m)\<rparr>) r \<Longrightarrow> calm m r"
  by (erule calm_start) (simp_all add: map_all_del)

lemma calm_finish_drain: "calm m (finish_drain t m)"
  by (auto simp: finish_drain_def calm_same intro: calm_task_gone [OF calm_drop_now] split: option.split cm_task.split)

lemma calm_finish_drains: "calm m (finish_drains ts m)"
proof (induction ts arbitrary: m)
  case (Cons t ts)
  from calm_trans [OF calm_finish_drain Cons.IH] show ?case by (simp add: split_def Let_def)
qed (simp add: calm_same)

lemma calm_delivery_finished: "calm m (delivery_finished i m)"
proof -
  let ?m1 = "cm_update i (\<lambda>info. info\<lparr>ci_in_flight := ci_in_flight info - 1\<rparr>) m"
  have "calm ?m1 (finish_drains ts (cm_update i f ?m1))" for ts f by (rule calm_update [OF calm_finish_drains])
  moreover have "calm ?m1 (?m1, [])" by (simp add: calm_same)
  ultimately have "calm ?m1 (delivery_finished i m)" by (simp add: delivery_finished_def Let_def)
  then show ?thesis by (rule calm_update)
qed

lemma calm_unsubscribe: "calm m (unsubscribe_call tag m)"
  by (auto simp: unsubscribe_call_def Let_def calm_same intro!: calm_update [OF calm_drop_consumer] calm_update [OF calm_await]
      split: option.split)

text \<open>A setup that ends well answers its subscription, and its tag is then the consumer's.\<close>

lemma vals_of_same_pools [simp]: "cm_worker_pools (track_consumer_tag i tag m) = cm_worker_pools m"
  "cm_active (track_consumer_tag i tag m) = cm_active m" "cm_tasks (track_consumer_tag i tag m) = cm_tasks m"
  "map_get (cm_by_tag (track_consumer_tag i tag m)) tag = Some i"
  by (simp_all add: track_consumer_tag_def map_simps)

lemma watch_channel_loss_same [simp]: "cm_worker_pools (watch_channel_loss i ch m) = cm_worker_pools m"
  "cm_active (watch_channel_loss i ch m) = cm_active m" "cm_tasks (watch_channel_loss i ch m) = cm_tasks m"
  "cm_by_tag (watch_channel_loss i ch m) = cm_by_tag m"
  by (simp_all add: watch_channel_loss_def)

definition answers_well :: "manager \<Rightarrow> cm_out list \<Rightarrow> bool" where
  "answers_well m outs \<longleftrightarrow> (silent outs \<or> (\<exists>i tag. outs = [Subscribed i tag] \<and> map_get (cm_by_tag m) tag = Some i))"

definition sound :: "manager \<Rightarrow> manager \<times> cm_out list \<Rightarrow> bool" where
  "sound m r \<longleftrightarrow> pools_flow m r \<and> answers_well (fst r) (snd r)"

lemma calm_sound: "calm m r \<Longrightarrow> sound m r"
  by (simp add: calm_def sound_def answers_well_def)

lemma sound_setup_consumed: "sound m (setup_consumed by i ch tag m)"
proof (cases "i \<notin> set (cm_active m) \<or> ci_cancelled (cm_info m i)")
  case True
  then show ?thesis by (auto simp: setup_consumed_def intro!: calm_sound calm_await)
next
  case False
  let ?m = "watch_channel_loss i ch (track_consumer_tag i tag (cm_update i (\<lambda>info. info\<lparr>ci_channel := Some ch\<rparr>) m))"
  have run: "setup_consumed by i ch tag m = setup_succeeded by i tag ?m"
    using False by (simp add: setup_consumed_def Let_def)
  have "pools_ok m \<Longrightarrow> pools_ok ?m" by (simp add: pools_ok_def)
  then show ?thesis
    unfolding run by (cases "by") (simp_all add: setup_succeeded_def sound_def pools_flow_def answers_well_def)
qed

lemma sound_resume_task: "task \<noteq> DisposeTerminate \<Longrightarrow> sound m (resume_task task r m)"
  by (cases task) (auto intro!: calm_sound calm_same calm_drop_consumer calm_drop_now calm_drop_release calm_drop_finished
      calm_recovery_awake calm_setup_failed calm_setup_consume calm_setup_channel_ready sound_setup_consumed split: task_result.split)

text \<open>The events of a client that is not told to disconnect; pools are registered by the calls only.\<close>

fun before_disposal :: "cm_event \<Rightarrow> bool" where
  "before_disposal DisposeAll = False"
| "before_disposal (AttachWorkers tag p) = False"
| "before_disposal _ = True"

lemma sound_task_gone: "sound (m\<lparr>cm_tasks := map_del t (cm_tasks m)\<rparr>) r \<Longrightarrow> sound m r"
  by (auto simp: sound_def pools_flow_def pools_ok_def map_all_del)

lemma sound_step:
  assumes "before_disposal e" "pools_ok m"
  shows "sound m (cm_step m e)"
proof (cases e)
  case (Subscribe queue no_ack sequential)
  have "calm m (fst (register_consumer queue no_ack sequential m), [])"
    by (auto simp: calm_def pools_flow_def pools_ok_def register_consumer_def Let_def)
  from calm_trans [OF this, of "run_setup BySubscribe i (fst (register_consumer queue no_ack sequential m))" for i] show ?thesis
    using Subscribe by (auto simp: subscribe_call_def split_def Let_def calm_run_setup intro!: calm_sound)
next
  case (TaskDone t r)
  show ?thesis
  proof (cases "map_get (cm_tasks m) t")
    case (Some task)
    then have "task \<noteq> DisposeTerminate" using map_all_get [of "\<lambda>t. t \<noteq> DisposeTerminate", OF _ Some] assms(2) by (simp add: pools_ok_def)
    then have "sound m (resume_task task r (m\<lparr>cm_tasks := map_del t (cm_tasks m)\<rparr>))"
      by (rule sound_task_gone [OF sound_resume_task])
    with TaskDone Some show ?thesis by simp
  qed (use TaskDone in \<open>simp add: calm_sound calm_same\<close>)
next
  case (DeliveryStarts i)
  then show ?thesis by (auto intro!: calm_sound calm_update [OF calm_same])
next
  case (ChannelCloses ch pool)
  let ?m = "m\<lparr>cm_watchers := filter (\<lambda>w. snd w \<noteq> ch) (cm_watchers m), cm_pool := pool\<rparr>"
  have "calm ?m (watchers_fire ch is ?m)" for "is" by (rule calm_watchers_fire)
  then have "calm m (watchers_fire ch is ?m)" for "is" by (rule calm_start) simp_all
  then show ?thesis using ChannelCloses by (simp add: calm_sound)
next
  case (PoolChanges pool)
  have "calm (m\<lparr>cm_pool := pool\<rparr>) (m\<lparr>cm_pool := pool\<rparr>, [])" by (simp add: calm_same)
  then have "calm m (m\<lparr>cm_pool := pool\<rparr>, [])" by (rule calm_start) simp_all
  then show ?thesis using PoolChanges by (simp add: calm_sound)
qed (use assms(1) in \<open>auto simp: handle_broker_cancel_def recreate_all_def intro!: calm_sound calm_unsubscribe calm_same
       calm_delivery_finished calm_handle_consumer_loss calm_recreate_each\<close>)

section \<open>Every pool is owned or terminated\<close>

fun ps_settles :: "ps_out \<Rightarrow> nat multiset" where
  "ps_settles (ManagerOut out) = cm_terminates out"
| "ps_settles (TerminateSpawned p) = {#p#}"
| "ps_settles _ = {#}"

abbreviation ps_done :: "ps_out list \<Rightarrow> nat multiset" where
  "ps_done outs \<equiv> total_settled ps_settles outs"

definition ps_tracked :: "parallel \<Rightarrow> nat multiset" where
  "ps_tracked s = vals_of (ps_calls s) + vals_of (cm_worker_pools (ps_manager s))"

fun ps_entered :: "parallel \<Rightarrow> ps_event \<Rightarrow> nat multiset" where
  "ps_entered s (SubscribeParallel queue no_ack refused) = {#ps_next s#}"
| "ps_entered s _ = {#}"

definition ps_core :: "parallel \<Rightarrow> bool" where
  "ps_core s \<longleftrightarrow> pools_ok (ps_manager s) \<and> cm_inv (ps_manager s) \<and> wf_map (ps_calls s) \<and>
     key_set (ps_calls s) \<inter> key_set (cm_worker_pools (ps_manager s)) = {}"

definition ps_inv :: "parallel \<Rightarrow> bool" where
  "ps_inv s \<longleftrightarrow> ps_core s \<and> key_set (ps_calls s) \<subseteq> key_set (cm_infos (ps_manager s))"

text \<open>What routing does to the state: the calls awaited shrink, and the pools are conserved.\<close>

definition routed :: "parallel \<Rightarrow> nat multiset \<Rightarrow> parallel \<times> ps_out list \<Rightarrow> bool" where
  "routed s terminated r \<longleftrightarrow> ps_core (fst r) \<and> key_set (ps_calls (fst r)) \<subseteq> key_set (ps_calls s) \<and>
     key_set (cm_infos (ps_manager (fst r))) = key_set (cm_infos (ps_manager s)) \<and>
     ps_tracked s + terminated = ps_tracked (fst r) + ps_done (snd r)"

lemma call_answered:
  assumes "ps_core s" "map_get (ps_calls s) i = Some p"
  shows "ps_core (s\<lparr>ps_calls := map_del i (ps_calls s)\<rparr>)" "i \<notin> key_set (cm_worker_pools (ps_manager s))"
    "ps_tracked s = add_mset p (ps_tracked (s\<lparr>ps_calls := map_del i (ps_calls s)\<rparr>))"
  using assms map_get_key [OF assms(2)] vals_del [OF _ assms(2)] by (auto simp: ps_core_def ps_tracked_def)

lemma routed_failed:
  assumes "ps_core s" "map_get (ps_calls s) i = Some p"
  shows "routed s {#} (subscription_failed p e (s\<lparr>ps_calls := map_del i (ps_calls s)\<rparr>))"
  using call_answered [OF assms] by (auto simp: routed_def subscription_failed_def ps_core_def ps_tracked_def)

lemma routed_ready:
  assumes "ps_core s" "map_get (ps_calls s) i = Some p" "map_get (cm_by_tag (ps_manager s)) tag = Some i"
  shows "routed s {#} (subscription_ready p tag (s\<lparr>ps_calls := map_del i (ps_calls s)\<rparr>))"
proof -
  have "i \<in> set (cm_active (ps_manager s))"
    using assms(1,3) map_all_get by (fastforce simp: ps_core_def cm_inv_def)
  with call_answered [OF assms(1,2)] assms(1,3) show ?thesis
    by (auto simp: routed_def subscription_ready_def ps_core_def ps_tracked_def find_consumer_id_by_tag_def pools_ok_def cm_inv_def
        vals_set_new)
qed

lemma route_manager_routed:
  assumes "ps_core s" "\<not> answers_subscription out"
  shows "routed s (cm_terminates out) (route_manager out s)"
  using assms routed_failed [OF assms(1)]
  by (cases out) (auto simp: routed_def ps_core_def split: option.split)

lemma routed_chain:
  assumes "routed s t r" "routed (fst r) t' (f (fst r))"
  shows "routed s (t + t') (chain r f)"
proof -
  have "ps_tracked s + (t + t') = (ps_tracked s + t) + t'" by (simp add: add.assoc)
  also have "\<dots> = (ps_tracked (fst r) + t') + ps_done (snd r)" using assms(1) by (simp add: routed_def ac_simps)
  also have "\<dots> = ps_tracked (fst (chain r f)) + ps_done (snd (chain r f))" using assms(2) by (simp add: routed_def ac_simps)
  finally show ?thesis using assms by (auto simp: routed_def)
qed

lemma routed_nothing [simp]: "ps_core s \<Longrightarrow> routed s {#} (s, [])"
  by (simp add: routed_def)

lemma route_silent: "ps_core s \<Longrightarrow> silent outs \<Longrightarrow> routed s (cm_terminated outs) (route_all outs s)"
proof (induction outs arbitrary: s)
  case (Cons out outs)
  have head: "routed s (cm_terminates out) (route_manager out s)" using Cons.prems by (intro route_manager_routed) simp_all
  moreover have "ps_core (fst (route_manager out s))" using head by (simp add: routed_def)
  ultimately have "routed s (cm_terminates out + cm_terminated outs) (chain (route_manager out s) (route_all outs))"
    using Cons.IH Cons.prems(2) by (intro routed_chain) simp_all
  then show ?case by simp
qed simp

lemma route_all_routed:
  assumes "ps_core s" "answers_well (ps_manager s) outs"
  shows "routed s (cm_terminated outs) (route_all outs s)"
proof (cases "silent outs")
  case False
  then obtain i tag where outs: "outs = [Subscribed i tag]" and tag: "map_get (cm_by_tag (ps_manager s)) tag = Some i"
    using assms(2) by (auto simp: answers_well_def)
  have "routed s {#} (route_manager (Subscribed i tag) s)"
    using routed_ready [OF assms(1) _ tag] assms(1) by (cases "map_get (ps_calls s) i") (simp_all add: routed_def)
  moreover from this have "ps_core (fst (route_manager (Subscribed i tag) s))" by (simp add: routed_def)
  ultimately have "routed s ({#} + {#}) (chain (route_manager (Subscribed i tag) s) (route_all []))"
    by (intro routed_chain) simp_all
  then show ?thesis by (simp add: outs)
qed (simp add: route_silent assms(1))

lemma manager_event_routed:
  assumes "ps_core s" "before_disposal e"
  defines "s1 \<equiv> s\<lparr>ps_manager := fst (cm_step (ps_manager s) e)\<rparr>"
  shows "\<exists>t. routed s1 t (manager_event e s) \<and> ps_tracked s = ps_tracked s1 + t"
proof -
  let ?r = "cm_step (ps_manager s) e"
  have core: "pools_ok (ps_manager s)" "cm_inv (ps_manager s)" using assms(1) by (simp_all add: ps_core_def)
  have sound: "sound (ps_manager s) ?r" by (rule sound_step [OF assms(2) core(1)])
  then have flow: "pools_ok (fst ?r)" "key_set (cm_worker_pools (fst ?r)) \<subseteq> key_set (cm_worker_pools (ps_manager s))"
    "vals_of (cm_worker_pools (ps_manager s)) = vals_of (cm_worker_pools (fst ?r)) + cm_terminated (snd ?r)"
    using core(1) by (simp_all add: sound_def pools_flow_def)
  have "cm_inv (fst ?r)" using cm_step_inv_fwd [OF core(2)] by blast
  then have "ps_core s1" using assms(1) flow(1,2) by (auto simp: ps_core_def s1_def)
  then have "routed s1 (cm_terminated (snd ?r)) (route_all (snd ?r) s1)"
    using sound by (intro route_all_routed) (simp_all add: sound_def s1_def)
  moreover have "ps_tracked s = ps_tracked s1 + cm_terminated (snd ?r)"
    using flow(3) by (simp add: ps_tracked_def s1_def)
  ultimately show ?thesis by (auto simp: manager_event_def s1_def split_def)
qed

lemma manager_event_keeps:
  assumes "ps_core s" "before_disposal e" "key_set (ps_calls s) \<subseteq> key_set (cm_infos (fst (cm_step (ps_manager s) e)))"
  shows "ps_inv (fst (manager_event e s)) \<and> ps_tracked s = ps_tracked (fst (manager_event e s)) + ps_done (snd (manager_event e s))"
proof -
  let ?s1 = "s\<lparr>ps_manager := fst (cm_step (ps_manager s) e)\<rparr>"
  obtain t where t: "routed ?s1 t (manager_event e s)" "ps_tracked s = ps_tracked ?s1 + t"
    using manager_event_routed [OF assms(1,2)] by blast
  then show ?thesis using assms(3) by (auto simp: routed_def ps_inv_def)
qed

lemma subscribe_registers: "key_set (cm_infos (fst (cm_step m (Subscribe queue no_ack sequential)))) =
    insert (consumer_id queue (Suc (cm_sequence m))) (key_set (cm_infos m))"
proof -
  have "key_set (cm_infos (fst (run_setup BySubscribe i m'))) = key_set (cm_infos m')" for i m'
    using run_setup_good [of m' BySubscribe i] by (simp add: cm_good_def)
  then show ?thesis by (simp add: subscribe_call_def split_def Let_def register_consumer_def)
qed

lemma subscribe_parallel_keeps:
  assumes "ps_inv s"
  shows "ps_inv (fst (subscribe_parallel queue no_ack refused s)) \<and>
    add_mset (ps_next s) (ps_tracked s) =
      ps_tracked (fst (subscribe_parallel queue no_ack refused s)) + ps_done (snd (subscribe_parallel queue no_ack refused s))"
proof (cases refused)
  case (Some e)
  then show ?thesis
    using assms by (simp add: subscribe_parallel_def Let_def subscription_failed_def ps_inv_def ps_core_def ps_tracked_def)
next
  case None
  let ?i = "consumer_id queue (Suc (cm_sequence (ps_manager s)))"
  let ?s1 = "s\<lparr>ps_next := Suc (ps_next s), ps_calls := map_set ?i (ps_next s) (ps_calls s)\<rparr>"
  have core: "ps_core s" "cm_inv (ps_manager s)" using assms by (simp_all add: ps_inv_def ps_core_def)
  have "?i \<notin> key_set (cm_infos (ps_manager s))" by (rule register_fresh [OF core(2)])
  moreover have "key_set (cm_worker_pools (ps_manager s)) \<subseteq> key_set (cm_infos (ps_manager s))"
    using core by (auto simp: ps_core_def pools_ok_def cm_inv_def)
  ultimately have fresh: "?i \<notin> key_set (ps_calls s)" "?i \<notin> key_set (cm_worker_pools (ps_manager s))"
    using assms by (auto simp: ps_inv_def)
  then have "ps_core ?s1" using core(1) by (auto simp: ps_core_def)
  moreover have "key_set (ps_calls ?s1) \<subseteq> key_set (cm_infos (fst (cm_step (ps_manager ?s1) (Subscribe queue no_ack False))))"
    using assms unfolding subscribe_registers by (auto simp: ps_inv_def)
  ultimately have "ps_inv (fst (manager_event (Subscribe queue no_ack False) ?s1)) \<and>
      ps_tracked ?s1 = ps_tracked (fst (manager_event (Subscribe queue no_ack False) ?s1)) +
        ps_done (snd (manager_event (Subscribe queue no_ack False) ?s1))"
    by (intro manager_event_keeps) simp_all
  moreover have "ps_tracked ?s1 = add_mset (ps_next s) (ps_tracked s)"
    using vals_set_new [OF fresh(1)] by (simp add: ps_tracked_def)
  ultimately show ?thesis by (simp add: subscribe_parallel_def Let_def None)
qed

fun ps_ok :: "ps_event \<Rightarrow> bool" where
  "ps_ok (ManagerEvent e) = before_disposal e"
| "ps_ok _ = True"

lemma ps_step_keeps:
  assumes "ps_inv s" "ps_ok e"
  shows "ps_inv (fst (ps_step s e)) \<and> ps_tracked s + ps_entered s e = ps_tracked (fst (ps_step s e)) + ps_done (snd (ps_step s e))"
proof (cases e)
  case (ManagerEvent c)
  have "cm_fwd (ps_manager s) (fst (cm_step (ps_manager s) c))"
    using assms(1) cm_step_inv_fwd by (simp add: ps_inv_def ps_core_def)
  then have "key_set (ps_calls s) \<subseteq> key_set (cm_infos (fst (cm_step (ps_manager s) c)))"
    using assms(1) by (auto simp: ps_inv_def cm_fwd_def)
  with manager_event_keeps [of s c] assms ManagerEvent show ?thesis by (simp add: ps_inv_def)
next
  case (SubscribeParallel queue no_ack refused)
  then show ?thesis using subscribe_parallel_keeps [OF assms(1)] by simp
next
  case (SpawnedTerminated p)
  then show ?thesis
    using assms(1) by (auto simp: spawned_terminated_def ps_inv_def ps_core_def ps_tracked_def split: option.split)
qed

interpretation psl: ledger_machine ps_step ps_ok ps_inv ps_tracked ps_entered ps_settles
  by unfold_locales (use ps_step_keeps in blast)+

lemma parallel_new_inv: "ps_inv (parallel_new (cm_new pool))"
  using cm_new_inv by (simp add: ps_inv_def ps_core_def parallel_new_def pools_ok_def cm_new_def cm_inv_def)

text \<open>
  C12: No worker pool is lost while the client lives. Whatever happens to consumers (losses,
  recoveries, recreations, refusals, unsubscriptions, in any interleaving): every pool that a
  call of \<open>subscribeParallel\<close> spawned is terminated exactly once, or its call still awaits the
  subscription, or it is registered with an active consumer, whose removal terminates it.
\<close>

theorem worker_pools_owned:
  fixes es :: "ps_event list" and pool :: "(nat \<times> bool) option"
  assumes "list_all ps_ok es"
  defines "r \<equiv> run_machine ps_step (parallel_new (cm_new pool)) es"
  shows "total_entered ps_step ps_entered (parallel_new (cm_new pool)) es =
      vals_of (ps_calls (fst r)) + vals_of (cm_worker_pools (ps_manager (fst r))) + total_settled ps_settles (snd r) \<and>
    key_set (cm_worker_pools (ps_manager (fst r))) \<subseteq> set (cm_active (ps_manager (fst r)))"
proof -
  have none: "ps_tracked (parallel_new (cm_new pool)) = {#}" by (simp add: ps_tracked_def parallel_new_def cm_new_def)
  have "ps_tracked (parallel_new (cm_new pool)) + total_entered ps_step ps_entered (parallel_new (cm_new pool)) es =
      ps_tracked (fst r) + total_settled ps_settles (snd r)"
    unfolding r_def by (rule psl.run_conserves [OF parallel_new_inv assms(1)])
  moreover have "ps_inv (fst r)" unfolding r_def by (rule psl.run_inv [OF parallel_new_inv assms(1)])
  then have "key_set (cm_worker_pools (ps_manager (fst r))) \<subseteq> set (cm_active (ps_manager (fst r)))"
    by (simp add: ps_inv_def ps_core_def pools_ok_def)
  ultimately show ?thesis by (simp only: none add_0 ps_tracked_def [of "fst r"])
qed

definition parallel_sample :: "ps_event list" where
  "parallel_sample = [SubscribeParallel ''q'' False None, ManagerEvent (TaskDone 0 (GotChannel 5)), ManagerEvent (TaskDone 1 Done),
     ManagerEvent (TaskDone 2 (GotTag ''t'')), SubscribeParallel ''p'' False None, ManagerEvent (TaskDone 3 (GotChannel 6)),
     ManagerEvent (TaskDone 4 Done)]"

theorem worker_pools_owned_witness:
  "let r = run_machine ps_step (parallel_new (cm_new (Some (0, False))))
       (parallel_sample @ [ManagerEvent (TaskDone 5 (TaskFailed JNull)), ManagerEvent (TaskDone 6 Done)])
   in vals_of (cm_worker_pools (ps_manager (fst r))) = {#0#} \<and> {#0, 1#} = {#0#} + total_settled ps_settles (snd r)"
proof -
  define es where "es = parallel_sample @ [ManagerEvent (TaskDone 5 (TaskFailed JNull)), ManagerEvent (TaskDone 6 Done)]"
  define r where "r = run_machine ps_step (parallel_new (cm_new (Some (0, False)))) es"
  have "list_all ps_ok es" by (simp add: es_def parallel_sample_def)
  note main = worker_pools_owned [OF this, of "Some (0, False)", folded r_def]
  have "ps_calls (fst r) = []" "cm_worker_pools (ps_manager (fst r)) = [(''consumer-q-1'', 0)]"
    unfolding r_def es_def by code_simp+
  moreover have "total_entered ps_step ps_entered (parallel_new (cm_new (Some (0, False)))) es = {#0, 1#}"
    unfolding es_def parallel_sample_def by (simp add: subscribe_parallel_def parallel_new_def chain_def) code_simp
  ultimately show ?thesis using main unfolding Let_def es_def [symmetric] r_def [symmetric] by simp
qed

text \<open>
  At a shutdown a pool can be lost. While \<open>disposeAll\<close> awaits the termination of the registered
  pools, a subscription may resolve and register its pool, which is then removed with the
  others and never terminated: its threads live on, and nothing refers to them any more.
\<close>

theorem disposal_leaks_worker_pool:
  "let r = run_machine ps_step (parallel_new (cm_new (Some (0, False))))
       (parallel_sample @ [ManagerEvent DisposeAll, ManagerEvent (TaskDone 5 (GotTag ''u'')), ManagerEvent (TaskDone 6 Done)])
   in ParallelSubscribed 1 ''u'' \<in> set (snd r) \<and> ManagerOut (TerminatePool 1) \<notin> set (snd r) \<and>
     TerminateSpawned 1 \<notin> set (snd r) \<and> ps_calls (fst r) = [] \<and> cm_worker_pools (ps_manager (fst r)) = [] \<and>
     cm_tasks (ps_manager (fst r)) = []"
  by code_simp

end
