(* ===== verification/Consumer_Recovery.thy ===== *)
theory Consumer_Recovery
  imports Consumer_Lifecycle
begin

text \<open>
  What keeps a consumer from dying silently. The machine of \<open>Consumer_Lifecycle\<close> is observed by a
  watch that knows what the code cannot see: to which consumers the broker does not deliver,
  which channels are closed, whether the channel pool has changed since the consumers were
  recreated, and whose recreation was answered with an error. The watch changes nothing in the
  machine.
\<close>

section \<open>The watch\<close>

record watch =
  wt_manager :: manager
  wt_silent :: "string list"
  wt_missed :: "string list"
  wt_closed :: "nat list"
  wt_stale :: bool

definition pool_open :: "manager \<Rightarrow> bool" where
  "pool_open m \<longleftrightarrow> (case cm_pool m of Some (p, shut) \<Rightarrow> \<not> shut | None \<Rightarrow> False)"

definition wt_new :: "(nat \<times> bool) option \<Rightarrow> watch" where
  "wt_new pool = \<lparr>wt_manager = cm_new pool, wt_silent = [], wt_missed = [], wt_closed = [],
     wt_stale = (\<not> pool_open (cm_new pool))\<rparr>"

text \<open>The answers that what is awaited can have.\<close>

fun fits :: "cm_task \<Rightarrow> task_result \<Rightarrow> bool" where
  "fits (SetupChannel own i) r = (case r of GotChannel ch \<Rightarrow> True | TaskFailed e \<Rightarrow> True | _ \<Rightarrow> False)"
| "fits (SetupConsume own i ch) r = (case r of GotTag tag \<Rightarrow> True | TaskFailed e \<Rightarrow> True | _ \<Rightarrow> False)"
| "fits task r = True"

fun task_setup :: "cm_task \<Rightarrow> (setup_by \<times> string) option" where
  "task_setup (SetupChannel own i) = Some (own, i)"
| "task_setup (SetupPrefetch own i ch) = Some (own, i)"
| "task_setup (SetupConsume own i ch) = Some (own, i)"
| "task_setup _ = None"

text \<open>
  An answered task: a consume that is taken over makes the broker deliver, unless its channel
  has been closed meanwhile; the failed setup of a recreation is missed.
\<close>

definition wt_answered :: "cm_task \<Rightarrow> task_result \<Rightarrow> watch \<Rightarrow> watch" where
  "wt_answered task r w = (case r of
      TaskFailed e \<Rightarrow> (case task_setup task of
          Some (ByRecreate, i) \<Rightarrow> w\<lparr>wt_missed := i # wt_missed w\<rparr>
        | _ \<Rightarrow> w)
    | GotTag tag \<Rightarrow> (case task of
          SetupConsume own i ch \<Rightarrow>
            if i \<notin> set (cm_active (wt_manager w)) \<or> ci_cancelled (cm_info (wt_manager w) i) then w
            else if ch \<in> set (wt_closed w) then w\<lparr>wt_silent := i # wt_silent w, wt_missed := i # wt_missed w\<rparr>
            else w\<lparr>wt_silent := removeAll i (wt_silent w), wt_missed := removeAll i (wt_missed w)\<rparr>
        | _ \<Rightarrow> w)
    | _ \<Rightarrow> w)"

fun wt_note :: "watch \<Rightarrow> cm_event \<Rightarrow> watch" where
  "wt_note w (Subscribe queue no_ack sequential) =
     w\<lparr>wt_silent := consumer_id queue (Suc (cm_sequence (wt_manager w))) # wt_silent w\<rparr>"
| "wt_note w (TaskDone t r) = (case map_get (cm_tasks (wt_manager w)) t of
      None \<Rightarrow> w | Some task \<Rightarrow> wt_answered task r w)"
| "wt_note w (BrokerCancels i) = w\<lparr>wt_silent := i # wt_silent w\<rparr>"
| "wt_note w (ChannelCloses ch pool) =
     w\<lparr>wt_silent := filter (\<lambda>i. ci_channel (cm_info (wt_manager w) i) = Some ch) (cm_active (wt_manager w)) @ wt_silent w,
       wt_closed := ch # wt_closed w, wt_stale := (wt_stale w \<or> pool \<noteq> cm_pool (wt_manager w))\<rparr>"
| "wt_note w (PoolChanges pool) = w\<lparr>wt_stale := (wt_stale w \<or> pool \<noteq> cm_pool (wt_manager w))\<rparr>"
| "wt_note w RecreateAll = (if pool_open (wt_manager w) then w\<lparr>wt_missed := [], wt_stale := False\<rparr> else w)"
| "wt_note w _ = w"

definition wt_possible :: "watch \<Rightarrow> cm_event \<Rightarrow> bool" where
  "wt_possible w e \<longleftrightarrow> (case e of
      TaskDone t r \<Rightarrow> (case map_get (cm_tasks (wt_manager w)) t of None \<Rightarrow> True | Some task \<Rightarrow> fits task r)
    | _ \<Rightarrow> True)"

definition wt_step :: "watch \<Rightarrow> cm_event \<Rightarrow> watch \<times> cm_out list" where
  "wt_step w e =
     (if wt_possible w e
      then case cm_step (wt_manager w) e of (m, out) \<Rightarrow> ((wt_note w e)\<lparr>wt_manager := m\<rparr>, out)
      else (w, []))"


section \<open>What advances a consumer\<close>

text \<open>
  Tasks that will end with the consumer delivered to, or removed, or trying again: a setup that
  its owner follows up, a recovery that will not yield, a removal that waits for handlers.
\<close>

definition setup_holds :: "manager \<Rightarrow> string \<Rightarrow> setup_by \<Rightarrow> bool" where
  "setup_holds m i own \<longleftrightarrow> (case own of
      ByRecovery attempt known owned \<Rightarrow> known = ci_epoch (cm_info m i) \<and> owned = map_option fst (cm_pool m)
    | _ \<Rightarrow> True)"

fun advances :: "manager \<Rightarrow> string \<Rightarrow> cm_task \<Rightarrow> bool" where
  "advances m i (SetupChannel own j) = (j = i \<and> setup_holds m i own)"
| "advances m i (SetupPrefetch own j ch) = (j = i \<and> setup_holds m i own)"
| "advances m i (SetupConsume own j ch) = (j = i \<and> setup_holds m i own)"
| "advances m i (RecoverySleep j attempt known owned) = (j = i \<and> setup_holds m i (ByRecovery attempt known owned))"
| "advances m i (DropDrain j after) = (j = i)"
| "advances m i _ = False"

definition progress :: "manager \<Rightarrow> string \<Rightarrow> bool" where
  "progress m i \<longleftrightarrow> list_ex (\<lambda>(t, task). advances m i task) (cm_tasks m)"

definition tasks_ok :: "manager \<Rightarrow> bool" where
  "tasks_ok m \<longleftrightarrow> wf_map (cm_tasks m) \<and> (\<forall>t \<in> key_set (cm_tasks m). t < cm_next_task m)"

definition watched :: "nat set \<Rightarrow> manager \<Rightarrow> bool" where
  "watched C m \<longleftrightarrow> (\<forall>i \<in> key_set (cm_infos m). \<forall>ch. ci_watched (cm_info m i) = Some ch \<and> ch \<notin> C \<longrightarrow> (i, ch) \<in> set (cm_watchers m))"

definition delivered :: "nat set \<Rightarrow> manager \<Rightarrow> string \<Rightarrow> bool" where
  "delivered C m i \<longleftrightarrow> (\<exists>ch. ci_channel (cm_info m i) = Some ch \<and> ch \<notin> C \<and> (i, ch) \<in> set (cm_watchers m))"

text \<open>A consumer that nobody has to care for, or that somebody cares for.\<close>

definition served :: "manager \<Rightarrow> string \<Rightarrow> bool" where
  "served m i \<longleftrightarrow> i \<notin> set (cm_active m) \<or> ci_cancelled (cm_info m i) \<or> progress m i"

text \<open>
  The invariant, with the consumers \<open>S\<close> the broker does not deliver to, the closed channels
  \<open>C\<close>, and the consumers \<open>X\<close> that nobody need care for.
\<close>

definition minded :: "string set \<Rightarrow> string set \<Rightarrow> nat set \<Rightarrow> bool \<Rightarrow> manager \<Rightarrow> bool" where
  "minded X S C stale m \<longleftrightarrow> cm_inv m \<and> tasks_ok m \<and> watched C m \<and>
     (\<forall>i \<in> set (cm_active m). \<not> ci_cancelled (cm_info m i) \<and> i \<notin> S \<longrightarrow> delivered C m i) \<and>
     (\<not> stale \<longrightarrow> pool_open m \<and> (\<forall>i \<in> S - X. served m i))"

definition wt_inv :: "watch \<Rightarrow> bool" where
  "wt_inv w \<longleftrightarrow> minded (set (wt_missed w)) (set (wt_silent w)) (set (wt_closed w)) (wt_stale w) (wt_manager w)"


section \<open>Handlers that only add tasks\<close>

definition frame :: "manager \<Rightarrow> manager \<Rightarrow> bool" where
  "frame m m' \<longleftrightarrow> cm_good m m' \<and> cm_watchers m' = cm_watchers m \<and> cm_pool m' = cm_pool m \<and>
     (tasks_ok m \<longrightarrow> tasks_ok m' \<and> set (cm_tasks m) \<subseteq> set (cm_tasks m')) \<and>
     (\<forall>i. ci_watched (cm_info m' i) = ci_watched (cm_info m i) \<and> ci_channel (cm_info m' i) = ci_channel (cm_info m i) \<and>
        (ci_cancelled (cm_info m i) \<longrightarrow> ci_cancelled (cm_info m' i)))"

definition steady :: "manager \<Rightarrow> manager \<Rightarrow> bool" where
  "steady m m' \<longleftrightarrow> frame m m' \<and> (\<forall>i. ci_epoch (cm_info m' i) = ci_epoch (cm_info m i))"

lemma frame_refl [simp]: "frame m m" by (simp add: frame_def)

lemma steady_refl [simp]: "steady m m" by (simp add: steady_def)

lemma frame_trans: "frame m m1 \<Longrightarrow> frame m1 m2 \<Longrightarrow> frame m m2"
  unfolding frame_def using cm_good_trans by (simp, blast)

lemma steady_trans: "steady m m1 \<Longrightarrow> steady m1 m2 \<Longrightarrow> steady m m2"
  unfolding steady_def using frame_trans by auto

lemma steady_frame: "steady m m' \<Longrightarrow> frame m m'" by (simp add: steady_def)

lemma map_set_new: "k \<notin> key_set m \<Longrightarrow> map_set k v m = m @ [(k, v)]"
  by (induction m) auto

lemma await_tasks:
  assumes "tasks_ok m"
  shows "tasks_ok (cm_await task m)" "set (cm_tasks (cm_await task m)) = insert (cm_next_task m, task) (set (cm_tasks m))"
proof -
  have "cm_next_task m \<notin> key_set (cm_tasks m)" using assms by (auto simp: tasks_ok_def)
  then have "map_set (cm_next_task m) task (cm_tasks m) = cm_tasks m @ [(cm_next_task m, task)]"
    by (rule map_set_new)
  with assms show "tasks_ok (cm_await task m)" "set (cm_tasks (cm_await task m)) = insert (cm_next_task m, task) (set (cm_tasks m))"
    by (auto simp: tasks_ok_def cm_await_def key_set_def)
qed

lemma await_watchers [simp]: "cm_watchers (cm_await task m) = cm_watchers m"
  by (simp add: cm_await_def)

lemma steady_await: "steady m (cm_await task m)"
  by (auto simp: steady_def frame_def await_tasks)

lemma frame_update:
  assumes "\<And>info. ci_epoch info \<le> ci_epoch (f info) \<and> ci_watched (f info) = ci_watched info \<and> ci_channel (f info) = ci_channel info \<and>
    (ci_cancelled info \<longrightarrow> ci_cancelled (f info))"
  shows "frame m (cm_update i f m)"
  using assms cm_good_update [of f m i] by (simp add: frame_def cm_info_update tasks_ok_def)

lemma steady_update:
  assumes "\<And>info. ci_epoch (f info) = ci_epoch info \<and> ci_watched (f info) = ci_watched info \<and> ci_channel (f info) = ci_channel info \<and>
    (ci_cancelled info \<longrightarrow> ci_cancelled (f info))"
  shows "steady m (cm_update i f m)"
  using assms frame_update [of f m i] by (simp add: steady_def cm_info_update)

lemma steady_same:
  assumes "cm_good m m'" "cm_watchers m' = cm_watchers m" "cm_pool m' = cm_pool m" "cm_tasks m' = cm_tasks m"
    "cm_next_task m' = cm_next_task m" "cm_infos m' = cm_infos m"
  shows "steady m m'"
  using assms by (simp add: steady_def frame_def tasks_ok_def cm_info_def)

lemma drop_release_steady: "steady m (fst (drop_release i after m))"
  by (simp add: drop_release_def steady_await split: option.split)

lemma drop_now_steady: "steady m (fst (drop_now i after m))"
proof -
  define m2 where "m2 = m\<lparr>cm_by_tag := filter (\<lambda>(tag, owner). owner \<noteq> i) (cm_by_tag m), cm_active := removeAll i (cm_active m)\<rparr>"
  have "map_all (\<lambda>j. j \<in> set (cm_active m) \<and> j \<noteq> i) (filter (\<lambda>(tag, owner). owner \<noteq> i) (cm_by_tag m))"
    if "map_all (\<lambda>j. j \<in> set (cm_active m)) (cm_by_tag m)"
    using that by (auto simp: map_all_def list_all_iff)
  then have "cm_good m m2" by (auto simp: m2_def cm_good_def cm_inv_def cm_info_def)
  then have base: "steady m m2" by (rule steady_same) (simp_all add: m2_def)
  have pools: "steady m2 (m2\<lparr>cm_worker_pools := w\<rparr>)" for w
    by (rule steady_same) (simp_all add: cm_good_same)
  show ?thesis
  proof (cases "map_get (cm_worker_pools m) i")
    case None
    then have "fst (drop_now i after m) = fst (drop_release i after m2)"
      by (simp add: drop_now_def m2_def Let_def split_def dispose_processor_def)
    with steady_trans [OF base drop_release_steady] show ?thesis by simp
  next
    case (Some p)
    then have "fst (drop_now i after m) = cm_await (DropTerminate i after) (m2\<lparr>cm_worker_pools := map_del i (cm_worker_pools m)\<rparr>)"
      by (simp add: drop_now_def m2_def Let_def split_def dispose_processor_def)
    with steady_trans [OF base steady_trans [OF pools steady_await]] show ?thesis by simp
  qed
qed

lemma drop_now_gone: "i \<notin> set (cm_active (fst (drop_now i after m)))"
  by (auto simp: drop_now_def drop_release_def drop_finished_def dispose_processor_def Let_def split: option.split)

lemma drop_consumer_steady: "steady m (fst (drop_consumer i after m))"
proof -
  have "steady m (cm_update i (\<lambda>info. info\<lparr>ci_drain_waiters := w info\<rparr>) m)" for w
    by (rule steady_update) simp
  from steady_trans [OF this steady_await] drop_now_steady show ?thesis by (simp add: drop_consumer_def)
qed

lemma setup_failed_steady: "steady m (fst (setup_failed own i e m))"
  by (simp add: setup_failed_def sleep_then_retry_def steady_await drop_consumer_steady split: setup_by.split)

lemma setup_consume_steady: "steady m (fst (setup_consume own i ch m))"
  by (simp add: setup_consume_def steady_await)

lemma setup_channel_ready_steady: "steady m (fst (setup_channel_ready own i ch m))"
proof -
  have base: "steady m (cm_update i (\<lambda>info. info\<lparr>ci_processor := True\<rparr>) m)" by (rule steady_update) simp
  note next_step = steady_trans [OF base steady_await] steady_trans [OF base setup_consume_steady]
  show ?thesis
    using next_step
    by (auto simp: setup_channel_ready_def Let_def split_def setup_failed_steady setup_consume_steady steady_await split: option.split)
qed

lemma handle_consumer_loss_steady: "steady m (fst (handle_consumer_loss i m))"
  by (simp add: handle_consumer_loss_def sleep_then_retry_def steady_await)

lemma watcher_fires_steady: "steady m (fst (watcher_fires ch i m))"
  by (auto simp: watcher_fires_def split_def Let_def handle_consumer_loss_steady split: option.split)

lemma watchers_fire_steady: "steady m (fst (watchers_fire ch is m))"
proof (induction "is" arbitrary: m)
  case (Cons i "is")
  show ?case using steady_trans [OF watcher_fires_steady Cons.IH] by (simp add: split_def Let_def)
qed simp

lemma unsubscribe_steady: "steady m (fst (unsubscribe_call tag m))"
proof -
  have "steady m (cm_update i (\<lambda>info. info\<lparr>ci_cancelled := True\<rparr>) m)" for i by (rule steady_update) simp
  from steady_trans [OF this drop_consumer_steady] steady_trans [OF this steady_await] show ?thesis
    by (auto simp: unsubscribe_call_def Let_def split: option.split)
qed

lemma cancel_each_steady: "steady m (cancel_each is m)"
proof (induction "is" arbitrary: m)
  case (Cons i "is")
  have "steady m (cm_update i (\<lambda>info. info\<lparr>ci_cancelled := True\<rparr>) m)" by (rule steady_update) simp
  from steady_trans [OF this Cons.IH] show ?case by simp
qed simp

lemma dispose_finish_steady: "steady m (fst (dispose_finish m))"
proof -
  have "steady m' (m'\<lparr>cm_worker_pools := [], cm_active := [], cm_by_tag := []\<rparr>)" for m'
    by (rule steady_same) (auto simp: cm_good_def cm_inv_def cm_info_def)
  from steady_trans [OF cancel_each_steady this] show ?thesis by (simp add: dispose_finish_def)
qed

lemma run_setup_frame: "frame m (fst (run_setup own i m))"
proof -
  have base: "frame m (cm_update i (\<lambda>info. info\<lparr>ci_epoch := Suc (ci_epoch info)\<rparr>) m)" by (rule frame_update) simp
  show ?thesis
    using frame_trans [OF base steady_frame [OF setup_failed_steady]] frame_trans [OF base steady_frame [OF steady_await]]
    by (simp add: run_setup_def Let_def split: option.split)
qed


section \<open>The invariant is kept\<close>

lemma setup_holds_steady: "steady m m' \<Longrightarrow> setup_holds m' i own = setup_holds m i own"
  by (auto simp: steady_def frame_def setup_holds_def split: setup_by.split)

lemma advances_steady: "steady m m' \<Longrightarrow> advances m' i task = advances m i task"
  by (cases task) (simp_all add: setup_holds_steady)

lemma served_steady:
  assumes "steady m m'" "tasks_ok m" "served m i" shows "served m' i"
proof -
  have "set (cm_tasks m) \<subseteq> set (cm_tasks m')" "set (cm_active m') \<subseteq> set (cm_active m)"
    "ci_cancelled (cm_info m i) \<longrightarrow> ci_cancelled (cm_info m' i)"
    using assms(1,2) by (auto simp: steady_def frame_def cm_good_def)
  then show ?thesis
    using assms(3) advances_steady [OF assms(1)] by (fastforce simp: served_def progress_def list_ex_iff)
qed

lemma frame_basics:
  assumes "frame m m'" "minded X S C stale m"
  shows "cm_inv m' \<and> tasks_ok m' \<and> watched C m' \<and>
    (\<forall>i \<in> set (cm_active m'). \<not> ci_cancelled (cm_info m' i) \<and> i \<notin> S \<longrightarrow> delivered C m' i) \<and> pool_open m' = pool_open m"
  using assms by (auto simp: frame_def minded_def cm_good_def watched_def delivered_def pool_open_def)

lemma minded_frame: "frame m m' \<Longrightarrow> minded X S C True m \<Longrightarrow> minded X S C True m'"
  using frame_basics [of m m' X S C True] unfolding minded_def by blast

lemma minded_steady:
  assumes "steady m m'" "minded X S C stale m" shows "minded X S C stale m'"
  using frame_basics [OF steady_frame [OF assms(1)] assms(2)] served_steady [OF assms(1)] assms(2)
  by (simp add: minded_def)

lemma minded_served: "minded X S C stale m \<Longrightarrow> served m i \<Longrightarrow> minded (X - {i}) S C stale m"
  by (auto simp: minded_def)

lemma minded_weaken: "minded X S C stale m \<Longrightarrow> X \<subseteq> Y \<Longrightarrow> minded Y S C stale m"
  by (auto simp: minded_def)

lemma minded_tasks: "minded X S C stale m \<Longrightarrow> tasks_ok m"
  by (simp add: minded_def)

lemma served_await:
  assumes "tasks_ok m" "advances m i task" shows "served (cm_await task m) i"
proof -
  have "advances (cm_await task m) i task" using advances_steady [OF steady_await] assms(2) by simp
  then show ?thesis by (simp add: served_def progress_def list_ex_iff await_tasks [OF assms(1)])
qed

lemma minded_await:
  assumes "minded X S C stale m" "advances m i task" shows "minded (X - {i}) S C stale (cm_await task m)"
  using minded_served [OF minded_steady [OF steady_await assms(1)] served_await [OF minded_tasks [OF assms(1)] assms(2)]] .

text \<open>The pieces that take care of their consumer.\<close>

lemma served_gone: "i \<notin> set (cm_active m) \<Longrightarrow> served m i"
  by (simp add: served_def)

lemma drop_consumer_served: "tasks_ok m \<Longrightarrow> served (fst (drop_consumer i after m)) i"
proof -
  assume ok: "tasks_ok m"
  have "steady m (cm_update i (\<lambda>info. info\<lparr>ci_drain_waiters := w info\<rparr>) m)" for w
    by (rule steady_update) simp
  then have "tasks_ok (cm_update i (\<lambda>info. info\<lparr>ci_drain_waiters := w info\<rparr>) m)" for w
    using ok by (simp add: steady_def frame_def)
  then show ?thesis
    using drop_now_gone by (auto simp: drop_consumer_def intro: served_await served_gone)
qed

lemma setup_failed_served:
  assumes "tasks_ok m" "setup_holds m i own" "own \<noteq> ByRecreate"
  shows "served (fst (setup_failed own i e m)) i"
proof (cases own)
  case (ByRecovery attempt known owned)
  have "served m i" if "\<not> still_ours i owned m"
    using that assms(2) by (auto simp: still_ours_def served_def setup_holds_def ByRecovery)
  then show ?thesis
    using drop_consumer_served [OF assms(1)] assms(2)
    by (auto simp: setup_failed_def ByRecovery sleep_then_retry_def setup_holds_def intro: served_await [OF assms(1)])
qed (use assms drop_consumer_served in \<open>simp_all add: setup_failed_def\<close>)

lemma setup_consume_served: "tasks_ok m \<Longrightarrow> setup_holds m i own \<Longrightarrow> served (fst (setup_consume own i ch m)) i"
  by (simp add: setup_consume_def served_await)

lemma setup_channel_ready_served:
  assumes "tasks_ok m" "setup_holds m i own" shows "served (fst (setup_channel_ready own i ch m)) i"
proof (cases "i \<notin> set (cm_active m) \<or> ci_cancelled (cm_info m i)")
  case True
  then have "served m i" by (auto simp: served_def)
  then show ?thesis using served_steady [OF setup_channel_ready_steady assms(1)] by simp
next
  case False
  define m1 where "m1 = (if ci_sequential (cm_info m i) then cm_update i (\<lambda>info. info\<lparr>ci_processor := True\<rparr>) m else m)"
  have "steady m (cm_update i (\<lambda>info. info\<lparr>ci_processor := True\<rparr>) m)" by (rule steady_update) simp
  then have m1: "steady m m1" by (simp add: m1_def)
  then have "tasks_ok m1" "setup_holds m1 i own"
    using assms setup_holds_steady [OF m1] by (auto simp: steady_def frame_def)
  moreover have "fst (setup_channel_ready own i ch m) =
      (if \<not> ci_no_ack (cm_info m1 i) then cm_await (SetupPrefetch own i ch) m1 else fst (setup_consume own i ch m1))"
    using False by (auto simp: setup_channel_ready_def m1_def Let_def split_def dispose_processor_def)
  ultimately show ?thesis by (simp add: setup_consume_served served_await)
qed

lemma handle_consumer_loss_served:
  assumes "tasks_ok m" shows "served (fst (handle_consumer_loss i m)) i"
proof (cases "i \<notin> set (cm_active m) \<or> ci_cancelled (cm_info m i)")
  case True
  then show ?thesis by (auto simp: handle_consumer_loss_def served_def)
next
  case False
  then show ?thesis
    using served_await [OF assms] by (simp add: handle_consumer_loss_def sleep_then_retry_def setup_holds_def)
qed


text \<open>A setup starts: the epoch moves on, so recoveries with an older one do not count any more.\<close>

lemma run_setup_minded:
  assumes m: "minded X S C stale m"
    and own: "\<And>attempt known owned. own = ByRecovery attempt known owned \<Longrightarrow> owned = map_option fst (cm_pool m)"
  shows "minded (X - {i}) S C stale (fst (run_setup own i m))"
proof (cases stale)
  case True
  then show ?thesis
    using minded_frame [OF run_setup_frame] m by (simp add: minded_def)
next
  case False
  define m1 where "m1 = cm_update i (\<lambda>info. info\<lparr>ci_epoch := Suc (ci_epoch info)\<rparr>) m"
  define own1 where "own1 = (case own of ByRecovery attempt _ owned \<Rightarrow> ByRecovery attempt (ci_epoch (cm_info m1 i)) owned | _ \<Rightarrow> own)"
  have fr: "frame m m1" unfolding m1_def by (rule frame_update) simp
  have pool: "pool_open m" "cm_pool m1 = cm_pool m" using m False by (simp_all add: minded_def m1_def)
  then obtain p where p: "cm_pool m1 = Some p" by (auto simp: pool_open_def split: option.splits)
  have out: "fst (run_setup own i m) = cm_await (SetupChannel own1 i) m1"
    by (simp add: run_setup_def Let_def m1_def [symmetric] own1_def p)
  have ok: "tasks_ok m" "tasks_ok m1" using m by (simp_all add: minded_def m1_def tasks_ok_def)
  have "setup_holds m1 i own1" using own by (auto simp: own1_def setup_holds_def pool(2) split: setup_by.split)
  then have "served (fst (run_setup own i m)) i" unfolding out by (intro served_await ok(2)) simp
  moreover have "served (fst (run_setup own i m)) j" if "served m j" "j \<noteq> i" for j
  proof -
    have "cm_info m1 j = cm_info m j" using that(2) by (simp add: m1_def cm_info_update)
    then have "advances m1 j task = advances m j task" for task
      by (cases task) (auto simp: setup_holds_def pool(2) split: setup_by.split)
    then have "served m1 j" using that \<open>cm_info m1 j = cm_info m j\<close> by (simp add: served_def progress_def m1_def)
    then show ?thesis unfolding out by (rule served_steady [OF steady_await ok(2)])
  qed
  ultimately have "\<forall>j \<in> S - (X - {i}). served (fst (run_setup own i m)) j"
    using m False unfolding minded_def by blast
  then show ?thesis
    using frame_basics [OF run_setup_frame m] False pool(1) by (simp add: minded_def)
qed

lemma recreate_each_minded: "minded X S C stale m \<Longrightarrow> minded (X - set is) S C stale (fst (recreate_each is m))"
proof (induction "is" arbitrary: X m)
  case (Cons i "is")
  have "minded (X - {i}) S C stale (fst (run_setup ByRecreate i m))" by (rule run_setup_minded [OF Cons.prems]) simp
  moreover have "X - set (i # is) = X - {i} - set is" by auto
  ultimately show ?case using Cons.IH by (simp add: split_def Let_def)
qed simp

text \<open>A task that is taken out may have been the one its consumer relied on.\<close>

lemma advances_same:
  assumes "cm_infos m' = cm_infos m" "cm_pool m' = cm_pool m" shows "advances m' i task = advances m i task"
proof -
  have "setup_holds m' i own = setup_holds m i own" for own
    using assms by (simp add: setup_holds_def cm_info_def split: setup_by.split)
  then show ?thesis by (cases task) simp_all
qed

lemma map_del_members: "(k', v) \<in> set (map_del k m) \<longleftrightarrow> (k', v) \<in> set m \<and> k' \<noteq> k"
  by (induction m) auto

lemma map_get_unique: "wf_map m \<Longrightarrow> map_get m k = Some v \<Longrightarrow> (k, v') \<in> set m \<Longrightarrow> v' = v"
  by (simp add: map_get_def)

lemma minded_del:
  assumes m: "minded X S C stale m" and t: "map_get (cm_tasks m) t = Some task"
  shows "minded (X \<union> {i. advances m i task}) S C stale (m\<lparr>cm_tasks := map_del t (cm_tasks m)\<rparr>)"
proof -
  define m0 where "m0 = m\<lparr>cm_tasks := map_del t (cm_tasks m)\<rparr>"
  have ok: "tasks_ok m" using m by (simp add: minded_def)
  have "served m0 j" if "served m j" "\<not> advances m j task" for j
  proof -
    have "progress m0 j" if "progress m j"
    proof -
      obtain t' task' where other: "(t', task') \<in> set (cm_tasks m)" "advances m j task'"
        using \<open>progress m j\<close> by (auto simp: progress_def list_ex_iff)
      then have "t' \<noteq> t" using t ok \<open>\<not> advances m j task\<close> by (metis map_get_unique tasks_ok_def)
      then show ?thesis
        using other advances_same [of m0 m]
        by (auto simp: progress_def list_ex_iff m0_def map_del_members intro!: bexI [of _ "(t', task')"])
    qed
    then show ?thesis using that by (auto simp: served_def m0_def)
  qed
  moreover have "cm_inv m0" "tasks_ok m0" "watched C m0" "pool_open m0 = pool_open m" "\<And>i. delivered C m0 i = delivered C m i"
    using m by (auto simp: minded_def m0_def cm_inv_def tasks_ok_def watched_def delivered_def pool_open_def)
  ultimately show ?thesis
    using m unfolding m0_def [symmetric] by (auto simp: minded_def m0_def)
qed

lemma minded_one: "minded (X \<union> {i. advances m i task}) S C stale m0 \<Longrightarrow> (\<And>j. advances m j task \<Longrightarrow> j = i) \<Longrightarrow>
    minded (insert i X) S C stale m0"
  by (auto simp: minded_def)

lemma minded_drop:
  "minded (insert i X) S C stale m \<Longrightarrow> steady m m' \<Longrightarrow> served m' i \<Longrightarrow> minded X S C stale m'"
  by (rule minded_weaken [OF minded_served [OF minded_steady]]) auto

lemma finish_drain_minded:
  assumes m: "minded X S C stale m" shows "minded X S C stale (fst (finish_drain t m))"
proof (cases "\<exists>i after. map_get (cm_tasks m) t = Some (DropDrain i after)")
  case True
  then obtain i after where t: "map_get (cm_tasks m) t = Some (DropDrain i after)" by blast
  have "minded (insert i X) S C stale (m\<lparr>cm_tasks := map_del t (cm_tasks m)\<rparr>)"
    by (rule minded_one [OF minded_del [OF m t]]) simp
  from minded_drop [OF this drop_now_steady served_gone [OF drop_now_gone]] show ?thesis
    by (simp add: finish_drain_def t)
next
  case False
  then have "fst (finish_drain t m) = m"
    by (auto simp: finish_drain_def split: option.split cm_task.split)
  with m show ?thesis by simp
qed

lemma finish_drains_minded: "minded X S C stale m \<Longrightarrow> minded X S C stale (fst (finish_drains ts m))"
proof (induction ts arbitrary: m)
  case (Cons t ts)
  show ?case using Cons.IH [OF finish_drain_minded [OF Cons.prems]] by (simp add: split_def Let_def)
qed simp

lemma delivery_finished_minded:
  assumes "minded X S C stale m" shows "minded X S C stale (fst (delivery_finished i m))"
proof -
  define m1 where "m1 = cm_update i (\<lambda>info. info\<lparr>ci_in_flight := ci_in_flight info - 1\<rparr>) m"
  have "steady m m1" unfolding m1_def by (rule steady_update) simp
  then have m1: "minded X S C stale m1" using assms by (rule minded_steady)
  have "steady m1 (cm_update i (\<lambda>info. info\<lparr>ci_drain_waiters := []\<rparr>) m1)" by (rule steady_update) simp
  from finish_drains_minded [OF minded_steady [OF this m1]] m1 show ?thesis
    unfolding delivery_finished_def Let_def m1_def [symmetric] by simp
qed

text \<open>A consume that is taken over.\<close>

lemma setup_consumed_installs:
  fixes own :: setup_by and ch :: nat and tag :: string
  assumes "i \<in> set (cm_active m)" "\<not> ci_cancelled (cm_info m i)" "i \<in> key_set (cm_infos m)"
  defines "m' \<equiv> fst (setup_consumed own i ch tag m)"
  shows "ci_channel (cm_info m' i) = Some ch" "ci_watched (cm_info m' i) = Some ch"
    "\<And>j. j \<noteq> i \<Longrightarrow> cm_info m' j = cm_info m j" "\<And>j. ci_cancelled (cm_info m' j) = ci_cancelled (cm_info m j)"
    "\<And>j. ci_epoch (cm_info m' j) = ci_epoch (cm_info m j)"
    "set (cm_watchers m') = set (cm_watchers m) \<union> (if ci_watched (cm_info m i) = Some ch then {} else {(i, ch)})"
    "cm_tasks m' = cm_tasks m" "cm_next_task m' = cm_next_task m" "cm_pool m' = cm_pool m" "cm_active m' = cm_active m"
    "key_set (cm_infos m') = key_set (cm_infos m)"
  using assms(1-3) unfolding m'_def
  by (auto simp: setup_consumed_def setup_succeeded_def Let_def watch_channel_loss_def track_consumer_tag_def cm_info_update insert_absorb)

lemma setup_consumed_inactive:
  assumes "i \<notin> set (cm_active m) \<or> ci_cancelled (cm_info m i)"
  shows "steady m (fst (setup_consumed own i ch tag m))" "served (fst (setup_consumed own i ch tag m)) i"
proof -
  show steady: "steady m (fst (setup_consumed own i ch tag m))" using assms by (simp add: setup_consumed_def steady_await)
  then show "served (fst (setup_consumed own i ch tag m)) i"
    using assms by (auto simp: served_def steady_def frame_def cm_good_def)
qed

lemma setup_consumed_minded:
  assumes m: "minded X S C stale m" and i: "i \<in> set (cm_active m)" "\<not> ci_cancelled (cm_info m i)"
  shows "ch \<notin> C \<Longrightarrow> minded (X - {i}) (S - {i}) C stale (fst (setup_consumed own i ch tag m))"
    and "ch \<in> C \<Longrightarrow> minded (insert i X) (insert i S) C stale (fst (setup_consumed own i ch tag m))"
proof -
  define m' where "m' = fst (setup_consumed own i ch tag m)"
  have "i \<in> key_set (cm_infos m)" using m i(1) by (auto simp: minded_def cm_inv_def)
  note installed = setup_consumed_installs [OF i this, where own = own and ch = ch and tag = tag, folded m'_def]
  have inv: "cm_inv m'" using m setup_consumed_good [of m own i ch tag] by (simp add: minded_def cm_good_def m'_def)
  have ok: "tasks_ok m'" using m installed by (simp add: minded_def tasks_ok_def)
  have "watched C m" using m by (simp add: minded_def)
  have seen: "(j, c) \<in> set (cm_watchers m')"
    if "j \<in> key_set (cm_infos m)" "ci_watched (cm_info m' j) = Some c" "c \<notin> C" for j c
  proof (cases "j = i \<and> ci_watched (cm_info m i) \<noteq> Some ch")
    case True
    then show ?thesis using that(2) installed(2,6) by simp
  next
    case False
    then have "ci_watched (cm_info m j) = Some c" using that(2) installed(2,3) by (cases "j = i") auto
    then show ?thesis using \<open>watched C m\<close> that(1,3) installed(6) by (auto simp: watched_def)
  qed
  then have watched: "watched C m'" using installed(11) by (simp add: watched_def)
  have others: "delivered C m' j" if "delivered C m j" "j \<noteq> i" for j
    using that installed(3,6) by (auto simp: delivered_def)
  have this_one: "delivered C m' i" if "ch \<notin> C"
    using that installed(1,2) seen \<open>i \<in> key_set (cm_infos m)\<close> by (simp add: delivered_def)
  have "setup_holds m' j own = setup_holds m j own" for j own
    using installed(5,9) by (simp add: setup_holds_def split: setup_by.split)
  then have "advances m' j task = advances m j task" for j task by (cases task) simp_all
  then have served: "served m' j = served m j" for j
    using installed by (simp add: served_def progress_def)
  have pool: "pool_open m' = pool_open m" using installed by (simp add: pool_open_def)
  note all = inv ok watched served pool installed(4,10)
  show "minded (X - {i}) (S - {i}) C stale m'" if "ch \<notin> C"
    using m others this_one [OF that] by (auto simp: minded_def all)
  show "minded (insert i X) (insert i S) C stale m'" if "ch \<in> C"
    using m others by (auto simp: minded_def all)
qed

text \<open>The loss of a channel: the watchers of its consumers start their recoveries.\<close>

lemma watchers_fire_minded:
  assumes "minded X S C stale m" "\<And>j. j \<in> Y \<Longrightarrow> j \<in> set is \<and> ci_channel (cm_info m j) = Some ch" "\<not> stale"
  shows "minded (X - Y) S C stale (fst (watchers_fire ch is m))"
  using assms
proof (induction "is" arbitrary: X Y m)
  case (Cons i "is")
  define m1 where "m1 = fst (watcher_fires ch i m)"
  have st: "steady m m1" unfolding m1_def by (rule watcher_fires_steady)
  then have m1: "minded X S C stale m1" using Cons.prems(1) by (rule minded_steady)
  have "served m1 i" if "i \<in> Y"
  proof -
    have "ci_channel (cm_info m i) = Some ch" using Cons.prems(2) [OF that] by simp
    moreover have "\<exists>p. cm_pool m = Some (p, False)"
      using Cons.prems(1,3) by (auto simp: minded_def pool_open_def split: option.splits)
    ultimately show ?thesis
      using handle_consumer_loss_served [OF minded_tasks [OF Cons.prems(1)]]
      by (auto simp: m1_def watcher_fires_def dispose_processor_def served_def [of m])
  qed
  then have "minded (X - (Y \<inter> {i})) S C stale m1"
    using m1 minded_served [OF m1, of i] by (cases "i \<in> Y") simp_all
  moreover have "j \<in> set is \<and> ci_channel (cm_info m1 j) = Some ch" if "j \<in> Y - {i}" for j
    using Cons.prems(2) [of j] that st by (auto simp: steady_def frame_def)
  ultimately have "minded (X - (Y \<inter> {i}) - (Y - {i})) S C stale (fst (watchers_fire ch is m1))"
    using Cons.prems(3) by (rule Cons.IH)
  moreover have "X - (Y \<inter> {i}) - (Y - {i}) = X - Y" by auto
  ultimately show ?case by (simp add: split_def Let_def m1_def)
qed (auto simp: minded_def)


section \<open>Every event keeps the invariant\<close>

lemma minded_same:
  assumes "minded X S C stale m" "cm_inv m'" "cm_tasks m' = cm_tasks m" "cm_next_task m' = cm_next_task m" "cm_infos m' = cm_infos m"
    "cm_watchers m' = cm_watchers m" "cm_pool m' = cm_pool m" "cm_active m' = cm_active m"
  shows "minded X S C stale m'"
proof -
  have "cm_info m' = cm_info m" using assms(5) by (simp add: cm_info_def [abs_def])
  moreover have "served m' i = served m i" for i
    using assms advances_same [OF assms(5,7)] \<open>cm_info m' = cm_info m\<close> by (simp add: served_def progress_def)
  ultimately show ?thesis
    using assms by (simp add: minded_def tasks_ok_def watched_def delivered_def pool_open_def)
qed

lemma resumed_minded:
  assumes m: "minded X S C stale m" and t: "map_get (cm_tasks m) t = Some task"
    and only: "\<And>j. advances m j task \<Longrightarrow> j = i"
    and m0: "m0 = m\<lparr>cm_tasks := map_del t (cm_tasks m)\<rparr>"
    and step: "steady m0 m'" "advances m0 i task \<Longrightarrow> served m' i"
  shows "minded X S C stale m'"
proof (cases "advances m i task")
  case True
  then have "served m' i" using step(2) advances_same [of m0 m] by (simp add: m0)
  moreover have "minded (insert i X) S C stale m0"
    unfolding m0 by (rule minded_one [OF minded_del [OF m t] only])
  ultimately show ?thesis using step(1) by (blast intro: minded_drop)
next
  case False
  then have "X \<union> {j. advances m j task} = X" using only by auto
  with minded_del [OF m t] step(1) show ?thesis by (auto simp: m0 intro: minded_steady)
qed

lemma subscribe_minded:
  assumes m: "minded X S C stale m"
  shows "minded X (insert (consumer_id queue (Suc (cm_sequence m))) S) C stale (fst (subscribe_call queue no_ack sequential m))"
proof -
  define i where "i = consumer_id queue (Suc (cm_sequence m))"
  define m1 where "m1 = fst (register_consumer queue no_ack sequential m)"
  have inv: "cm_inv m" and fresh: "i \<notin> key_set (cm_infos m)"
    using m register_fresh [of m queue] by (simp_all add: minded_def i_def)
  have m1: "cm_active m1 = cm_active m @ [i]" "key_set (cm_infos m1) = insert i (key_set (cm_infos m))"
    "\<And>j. j \<noteq> i \<Longrightarrow> cm_info m1 j = cm_info m j" "ci_watched (cm_info m1 i) = None" "cm_tasks m1 = cm_tasks m"
    "cm_next_task m1 = cm_next_task m" "cm_pool m1 = cm_pool m" "cm_watchers m1 = cm_watchers m"
    by (simp_all add: m1_def i_def register_consumer_def Let_def cm_info_def map_simps)
  have "advances m1 j task = advances m j task" if "j \<noteq> i" for j task
    by (cases task) (simp_all add: setup_holds_def m1(3) [OF that] m1(7) split: setup_by.split)
  then have served: "served m1 j" if "served m j" "j \<noteq> i" for j
    using that m1 by (auto simp: served_def progress_def)
  have "cm_info m1 j = cm_info m j" if "j \<in> key_set (cm_infos m)" for j
    using m1(3) [of j] that fresh by auto
  then have "watched C m1" using m m1(2,4,8) by (auto simp: minded_def watched_def)
  then have "minded (insert i X) (insert i S) C stale m1"
    using m inv register_inv [OF inv, of queue no_ack sequential, folded m1_def] served m1 fresh
    by (auto simp: minded_def delivered_def tasks_ok_def pool_open_def)
  then have "minded (insert i X - {i}) (insert i S) C stale (fst (run_setup BySubscribe i m1))"
    by (rule run_setup_minded) simp
  then show ?thesis
    by (auto simp: subscribe_call_def register_consumer_def Let_def m1_def i_def intro: minded_weaken)
qed

lemma closed_minded:
  fixes ch :: nat
  assumes m: "minded X S C stale m"
  defines "Y \<equiv> {i \<in> set (cm_active m). ci_channel (cm_info m i) = Some ch}"
  shows "minded X (S \<union> Y) (insert ch C) (stale \<or> pool \<noteq> cm_pool m) (fst (cm_step m (ChannelCloses ch pool)))"
proof -
  define m1 where "m1 = m\<lparr>cm_watchers := filter (\<lambda>w. snd w \<noteq> ch) (cm_watchers m), cm_pool := pool\<rparr>"
  define fired where "fired = map fst (filter (\<lambda>w. snd w = ch) (cm_watchers m))"
  have out: "fst (cm_step m (ChannelCloses ch pool)) = fst (watchers_fire ch fired m1)"
    by (simp add: m1_def fired_def)
  have info: "cm_info m1 = cm_info m" by (simp add: m1_def cm_info_def [abs_def])
  have basic: "cm_inv m1" "tasks_ok m1" "watched (insert ch C) m1"
    "\<forall>i \<in> set (cm_active m1). \<not> ci_cancelled (cm_info m1 i) \<and> i \<notin> S \<union> Y \<longrightarrow> delivered (insert ch C) m1 i"
    using m by (auto simp: minded_def m1_def Y_def cm_inv_def tasks_ok_def watched_def delivered_def info [unfolded m1_def])
  show ?thesis
  proof (cases "stale \<or> pool \<noteq> cm_pool m")
    case True
    then have "minded X (S \<union> Y) (insert ch C) (stale \<or> pool \<noteq> cm_pool m) m1" using basic by (simp add: minded_def)
    then show ?thesis unfolding out by (rule minded_steady [OF watchers_fire_steady])
  next
    case False
    define Y' where "Y' = {i \<in> Y. i \<notin> S \<and> \<not> ci_cancelled (cm_info m i)}"
    have pool: "cm_pool m1 = cm_pool m" using False by (simp add: m1_def)
    have "advances m1 i task = advances m i task" for i task
      by (rule advances_same) (simp_all add: m1_def pool [unfolded m1_def])
    moreover have "cm_active m1 = cm_active m" "cm_tasks m1 = cm_tasks m" by (simp_all add: m1_def)
    ultimately have served: "served m1 i = served m i" for i by (simp add: served_def progress_def info)
    have "served m i" if "i \<in> S \<union> Y - (X \<union> Y')" for i
      using that m False by (auto simp: minded_def Y'_def served_def [of m])
    then have "minded (X \<union> Y') (S \<union> Y) (insert ch C) False m1"
      using m False basic served by (simp add: minded_def pool_open_def pool)
    moreover have "i \<in> set fired \<and> ci_channel (cm_info m1 i) = Some ch" if "i \<in> Y'" for i
    proof -
      have "delivered C m i" using that m by (auto simp: Y'_def Y_def minded_def)
      then show ?thesis using that by (force simp: Y'_def Y_def delivered_def info fired_def)
    qed
    ultimately have "minded (X \<union> Y' - Y') (S \<union> Y) (insert ch C) False (fst (watchers_fire ch fired m1))"
      by (rule watchers_fire_minded) (use False in auto)
    then show ?thesis unfolding out using False by (auto intro: minded_weaken)
  qed
qed

lemma recreated_minded:
  assumes m: "minded X S C stale m" "pool_open m" shows "minded {} S C False (fst (recreate_all m))"
proof -
  have "minded UNIV S C False m" using m by (simp add: minded_def)
  then have all: "minded (UNIV - set (cm_active m)) S C False (fst (recreate_all m))"
    unfolding recreate_all_def by (rule recreate_each_minded)
  have "set (cm_active (fst (recreate_all m))) \<subseteq> set (cm_active m)"
    using recreate_each_good [of m "cm_active m"] by (simp add: recreate_all_def cm_good_def)
  then have "served (fst (recreate_all m)) i" if "i \<notin> set (cm_active m)" for i
    using that by (auto intro: served_gone)
  then show ?thesis using all by (auto simp: minded_def)
qed

text \<open>The answer to a task, by the kind of task.\<close>

lemma awake_minded:
  assumes m: "minded X S C stale m" and t: "map_get (cm_tasks m) t = Some (RecoverySleep i attempt known owned)"
    and m0: "m0 = m\<lparr>cm_tasks := map_del t (cm_tasks m)\<rparr>"
  shows "minded X S C stale (fst (recovery_awake i attempt known owned m0))"
proof (cases "still_ours i owned m0 \<and> ci_epoch (cm_info m0 i) = known")
  case True
  have "minded (insert i X) S C stale m0" unfolding m0 by (rule minded_one [OF minded_del [OF m t]]) simp
  moreover have "owned = map_option fst (cm_pool m0)" using True by (simp add: still_ours_def)
  ultimately have "minded (insert i X - {i}) S C stale (fst (run_setup (ByRecovery attempt known owned) i m0))"
    by (intro run_setup_minded) auto
  moreover have "fst (recovery_awake i attempt known owned m0) = fst (run_setup (ByRecovery attempt known owned) i m0)"
    using True by (simp add: recovery_awake_def)
  ultimately show ?thesis by (auto intro: minded_weaken)
next
  case False
  then have out: "fst (recovery_awake i attempt known owned m0) = m0" by (auto simp: recovery_awake_def)
  show ?thesis
    unfolding out
  proof (rule resumed_minded [OF m t _ m0])
    assume "advances m0 i (RecoverySleep i attempt known owned)"
    then show "served m0 i" using False by (auto simp: served_def still_ours_def setup_holds_def)
  qed simp_all
qed

lemma failed_minded:
  assumes m: "minded X S C stale m" and t: "map_get (cm_tasks m) t = Some task" and i: "task_setup task = Some (own, i)"
    and m0: "m0 = m\<lparr>cm_tasks := map_del t (cm_tasks m)\<rparr>"
  shows "minded (if own = ByRecreate then insert i X else X) S C stale (fst (setup_failed own i e m0))"
proof -
  have only: "\<And>j. advances m j task \<Longrightarrow> j = i" using i by (cases task) auto
  show ?thesis
  proof (cases "own = ByRecreate")
    case True
    have "minded (insert i X) S C stale m0" unfolding m0 by (rule minded_one [OF minded_del [OF m t] only])
    then show ?thesis using True by (auto intro: minded_steady [OF setup_failed_steady])
  next
    case False
    have ok: "tasks_ok m0" using minded_tasks [OF minded_del [OF m t]] by (simp add: m0)
    have "advances m0 i task \<Longrightarrow> setup_holds m0 i own" using i by (cases task) auto
    then have "minded X S C stale (fst (setup_failed own i e m0))"
      using False ok by (intro resumed_minded [OF m t only m0 setup_failed_steady] setup_failed_served)
    then show ?thesis using False by simp
  qed
qed

lemma consumed_minded:
  fixes tag :: string
  assumes m: "minded X S C stale m" and t: "map_get (cm_tasks m) t = Some (SetupConsume own i ch)"
    and m0: "m0 = m\<lparr>cm_tasks := map_del t (cm_tasks m)\<rparr>"
  defines "m' \<equiv> fst (setup_consumed own i ch tag m0)"
  shows "i \<notin> set (cm_active m) \<or> ci_cancelled (cm_info m i) \<Longrightarrow> minded X S C stale m'"
    and "i \<in> set (cm_active m) \<Longrightarrow> \<not> ci_cancelled (cm_info m i) \<Longrightarrow> ch \<notin> C \<Longrightarrow> minded (X - {i}) (S - {i}) C stale m'"
    and "i \<in> set (cm_active m) \<Longrightarrow> \<not> ci_cancelled (cm_info m i) \<Longrightarrow> ch \<in> C \<Longrightarrow> minded (insert i X) (insert i S) C stale m'"
proof -
  have one: "minded (insert i X) S C stale m0" unfolding m0 by (rule minded_one [OF minded_del [OF m t]]) simp
  show "minded X S C stale m'" if "i \<notin> set (cm_active m) \<or> ci_cancelled (cm_info m i)"
  proof -
    have "i \<notin> set (cm_active m0) \<or> ci_cancelled (cm_info m0 i)" using that by (simp add: m0)
    from setup_consumed_inactive [OF this] show ?thesis unfolding m'_def by (intro minded_drop [OF one])
  qed
  assume i: "i \<in> set (cm_active m)" "\<not> ci_cancelled (cm_info m i)"
  then have i0: "i \<in> set (cm_active m0)" "\<not> ci_cancelled (cm_info m0 i)" by (simp_all add: m0)
  note cases = setup_consumed_minded [OF one i0, of ch own tag, folded m'_def]
  show "minded (X - {i}) (S - {i}) C stale m'" if "ch \<notin> C" using cases(1) [OF that] by (simp add: insert_Diff_if)
  show "minded (insert i X) (insert i S) C stale m'" if "ch \<in> C" using cases(2) [OF that] by simp
qed

lemma answered_inv:
  assumes w: "wt_inv w" and t: "map_get (cm_tasks (wt_manager w)) t = Some task" and fit: "fits task r"
  shows "wt_inv ((wt_answered task r w)\<lparr>wt_manager := fst (cm_step (wt_manager w) (TaskDone t r))\<rparr>)"
proof -
  define m where "m = wt_manager w"
  define m0 where "m0 = m\<lparr>cm_tasks := map_del t (cm_tasks m)\<rparr>"
  define m' where "m' = fst (resume_task task r m0)"
  have out: "fst (cm_step (wt_manager w) (TaskDone t r)) = m'" using t by (simp add: m_def [symmetric] m0_def m'_def)
  have m: "minded (set (wt_missed w)) (set (wt_silent w)) (set (wt_closed w)) (wt_stale w) m"
    using w by (simp add: wt_inv_def m_def)
  note t' = t [folded m_def]
  note quiet = resumed_minded [OF m t' _ m0_def]
  have ok: "tasks_ok m0" using minded_tasks [OF minded_del [OF m t']] by (simp add: m0_def)
  have rest: ?thesis if "\<And>j. \<not> advances m j task" "steady m0 m'" "wt_answered task r w = w"
    unfolding out using quiet [OF _ that(2)] that(1,3) advances_same [of m0 m] by (simp add: wt_inv_def m0_def)
  show ?thesis
  proof (cases "\<exists>own i e. task_setup task = Some (own, i) \<and> r = TaskFailed e")
    case True
    then obtain own i e where i: "task_setup task = Some (own, i)" "r = TaskFailed e" by blast
    then have "m' = fst (setup_failed own i e m0)" unfolding m'_def by (cases task) auto
    with failed_minded [OF m t' i(1) m0_def] show ?thesis
      unfolding out by (auto simp: wt_inv_def wt_answered_def i split: setup_by.split if_splits)
  next
    case other: False
    show ?thesis
    proof (cases task)
      case (SetupChannel own i)
      then obtain ch where r: "r = GotChannel ch" using fit other by (auto split: task_result.splits)
      have "minded (set (wt_missed w)) (set (wt_silent w)) (set (wt_closed w)) (wt_stale w) m'"
      proof (rule quiet)
        show "advances m j task \<Longrightarrow> j = i" for j by (simp add: SetupChannel)
      qed (simp_all add: m'_def SetupChannel r setup_channel_ready_steady setup_channel_ready_served ok)
      then show ?thesis unfolding out by (simp add: wt_inv_def wt_answered_def r)
    next
      case (SetupPrefetch own i ch)
      then have r: "\<And>e. r \<noteq> TaskFailed e" using other by auto
      have "minded (set (wt_missed w)) (set (wt_silent w)) (set (wt_closed w)) (wt_stale w) m'"
      proof (rule quiet)
        show "advances m j task \<Longrightarrow> j = i" for j by (simp add: SetupPrefetch)
      qed (use r in \<open>simp_all add: m'_def SetupPrefetch setup_consume_steady setup_consume_served ok split: task_result.split\<close>)
      then show ?thesis unfolding out using r by (auto simp: wt_inv_def wt_answered_def SetupPrefetch split: task_result.split)
    next
      case (SetupConsume own i ch)
      then obtain tag where r: "r = GotTag tag" using fit other by (auto split: task_result.splits)
      have m': "m' = fst (setup_consumed own i ch tag m0)" by (simp add: m'_def SetupConsume r)
      note cases = consumed_minded [OF m t' [unfolded SetupConsume] m0_def, where tag = tag, folded m']
      show ?thesis
        unfolding out using cases by (auto simp: wt_inv_def wt_answered_def SetupConsume r m_def [symmetric])
    next
      case (RecoverySleep i attempt known owned)
      have "m' = fst (recovery_awake i attempt known owned m0)" by (simp add: m'_def RecoverySleep)
      with awake_minded [OF m t' [unfolded RecoverySleep] m0_def] show ?thesis
        unfolding out by (simp add: wt_inv_def wt_answered_def RecoverySleep split: task_result.split)
    next
      case (DropDrain i after)
      have "minded (set (wt_missed w)) (set (wt_silent w)) (set (wt_closed w)) (wt_stale w) m'"
      proof (rule quiet)
        show "advances m j task \<Longrightarrow> j = i" for j by (simp add: DropDrain)
      qed (simp_all add: m'_def DropDrain drop_now_steady served_gone drop_now_gone)
      then show ?thesis unfolding out by (simp add: wt_inv_def wt_answered_def DropDrain split: task_result.split)
    qed (use rest in \<open>simp_all add: m'_def setup_failed_steady drop_consumer_steady drop_release_steady dispose_finish_steady
          wt_answered_def split: task_result.splits\<close>)
  qed
qed

lemma wt_step_inv:
  assumes w: "wt_inv w" shows "wt_inv (fst (wt_step w e))"
proof (cases "wt_possible w e")
  case True
  define m where "m = wt_manager w"
  have out: "fst (wt_step w e) = (wt_note w e)\<lparr>wt_manager := fst (cm_step m e)\<rparr>"
    using True by (simp add: wt_step_def split_def m_def)
  have m: "minded (set (wt_missed w)) (set (wt_silent w)) (set (wt_closed w)) (wt_stale w) m"
    using w by (simp add: wt_inv_def m_def)
  note kept = minded_steady [OF _ m]
  show ?thesis
  proof (cases e)
    case (Subscribe queue no_ack sequential)
    then show ?thesis using subscribe_minded [OF m] unfolding out by (simp add: wt_inv_def m_def)
  next
    case (TaskDone t r)
    show ?thesis
    proof (cases "map_get (cm_tasks m) t")
      case None
      then show ?thesis using w unfolding out by (simp add: TaskDone m_def)
    next
      case (Some task)
      then have "fits task r" using True by (simp add: wt_possible_def TaskDone m_def)
      with answered_inv [OF w Some [unfolded m_def]] show ?thesis
        unfolding out using Some by (simp add: TaskDone m_def del: cm_step.simps)
    qed
  next
    case (BrokerCancels i)
    have "minded (insert i (set (wt_missed w))) (insert i (set (wt_silent w))) (set (wt_closed w)) (wt_stale w) m"
      using m by (auto simp: minded_def)
    moreover have "steady m (fst (handle_broker_cancel i m))" "served (fst (handle_broker_cancel i m)) i"
      using handle_consumer_loss_served [OF minded_tasks [OF m]]
      by (auto simp: handle_broker_cancel_def handle_consumer_loss_steady intro: served_gone)
    ultimately show ?thesis unfolding out by (auto simp: wt_inv_def BrokerCancels intro: minded_drop)
  next
    case (ChannelCloses ch pool)
    show ?thesis using closed_minded [OF m, of ch pool] unfolding out
      by (simp add: wt_inv_def ChannelCloses m_def Un_commute del: cm_step.simps)
  next
    case (PoolChanges pool)
    show ?thesis
    proof (cases "wt_stale w \<or> pool \<noteq> cm_pool m")
      case True
      have "cm_inv (m\<lparr>cm_pool := pool\<rparr>)" using m by (simp add: minded_def cm_inv_def)
      moreover have "cm_info (m\<lparr>cm_pool := pool\<rparr>) = cm_info m" by (simp add: cm_info_def [abs_def])
      ultimately have "minded (set (wt_missed w)) (set (wt_silent w)) (set (wt_closed w)) True (m\<lparr>cm_pool := pool\<rparr>)"
        using m by (auto simp: minded_def tasks_ok_def watched_def delivered_def)
      then show ?thesis unfolding out using True by (auto simp: wt_inv_def PoolChanges m_def)
    next
      case False
      then show ?thesis unfolding out using m by (simp add: wt_inv_def PoolChanges m_def)
    qed
  next
    case RecreateAll
    show ?thesis
    proof (cases "pool_open m")
      case True
      with recreated_minded [OF m] show ?thesis unfolding out by (simp add: wt_inv_def RecreateAll m_def)
    next
      case False
      from minded_weaken [OF recreate_each_minded [OF m]] show ?thesis
        unfolding out using False by (simp add: wt_inv_def RecreateAll m_def recreate_all_def)
    qed
  next
    case (Unsubscribe tag)
    then show ?thesis unfolding out by (simp add: wt_inv_def kept unsubscribe_steady)
  next
    case (DeliveryStarts i)
    have "steady m (cm_update i (\<lambda>info. info\<lparr>ci_in_flight := Suc (ci_in_flight info)\<rparr>) m)" by (rule steady_update) simp
    then show ?thesis unfolding out by (simp add: wt_inv_def DeliveryStarts kept)
  next
    case (DeliveryEnds i)
    then show ?thesis unfolding out using m by (simp add: wt_inv_def delivery_finished_minded)
  next
    case (AttachWorkers tag p)
    have "steady m (m\<lparr>cm_worker_pools := w\<rparr>)" for w by (rule steady_same) (simp_all add: cm_good_same)
    then show ?thesis unfolding out using m by (simp add: wt_inv_def AttachWorkers kept split: option.split)
  next
    case DisposeAll
    then show ?thesis unfolding out by (simp add: wt_inv_def dispose_all_def kept steady_await)
  qed
qed (use w in \<open>simp add: wt_step_def\<close>)

interpretation wt: event_machine wt_step "\<lambda>_. True" wt_inv
  by unfold_locales (simp add: wt_step_inv)

lemma wt_new_inv: "wt_inv (wt_new pool)"
  using cm_new_inv [of pool] by (simp add: wt_inv_def wt_new_def minded_def tasks_ok_def watched_def cm_new_def)


section \<open>Properties\<close>

lemma advancing_sleep_acts:
  assumes "map_get (cm_tasks m) t = Some (RecoverySleep i attempt known owned)"
    and "advances m i (RecoverySleep i attempt known owned)" "pool_open m"
    and "i \<in> set (cm_active m)" "\<not> ci_cancelled (cm_info m i)"
  shows "snd (cm_step m (TaskDone t r)) = [OpenDedicated i]"
  using assms by (auto simp: recovery_awake_def still_ours_def setup_holds_def run_setup_def pool_open_def Let_def split: option.splits)

text \<open>
  C8: Consumers never die silently. In every run, with any interleaving of losses of channels,
  cancellations by the broker, reconnections, recreations and calls: every registered consumer
  that is not being unsubscribed is delivered to by the broker, on an open channel whose loss it
  hears of; or a setup, a recovery or a removal of it is under way that will not yield to
  another; or the consumers wait to be recreated on a new channel pool; or its last recreation
  was answered with an error or a consume arrived on a channel already closed. A recovery that
  is relied on does act when it wakes up: it opens a channel for the consumer.
\<close>

theorem consumers_do_not_die_silently:
  fixes es :: "cm_event list" and pool :: "(nat \<times> bool) option"
  defines "w \<equiv> fst (run_machine wt_step (wt_new pool) es)"
  assumes "i \<in> set (cm_active (wt_manager w))" "\<not> ci_cancelled (cm_info (wt_manager w) i)"
  shows "(i \<notin> set (wt_silent w) \<and> delivered (set (wt_closed w)) (wt_manager w) i \<or> progress (wt_manager w) i \<or>
      wt_stale w \<or> i \<in> set (wt_missed w)) \<and>
    (map_get (cm_tasks (wt_manager w)) t = Some (RecoverySleep i attempt known owned) \<and>
       advances (wt_manager w) i (RecoverySleep i attempt known owned) \<and> \<not> wt_stale w \<longrightarrow>
       snd (cm_step (wt_manager w) (TaskDone t Done)) = [OpenDedicated i])"
proof -
  have "wt_inv w" unfolding w_def by (rule wt.run_inv [OF wt_new_inv]) (simp add: list_all_iff)
  then have all: "minded (set (wt_missed w)) (set (wt_silent w)) (set (wt_closed w)) (wt_stale w) (wt_manager w)"
    by (simp add: wt_inv_def)
  then have "i \<notin> set (wt_silent w) \<and> delivered (set (wt_closed w)) (wt_manager w) i \<or> progress (wt_manager w) i \<or>
      wt_stale w \<or> i \<in> set (wt_missed w)"
    using assms(2,3) by (auto simp: minded_def served_def)
  moreover have "\<not> wt_stale w \<longrightarrow> pool_open (wt_manager w)" using all by (simp add: minded_def)
  ultimately show ?thesis using advancing_sleep_acts assms(2,3) by blast
qed

theorem consumers_do_not_die_silently_witness:
  "let w = fst (run_machine wt_step (wt_new (Some (7, False))) cm_sample)
   in progress (wt_manager w) cm_sample_id \<and> snd (cm_step (wt_manager w) (TaskDone 2 Done)) = [OpenDedicated cm_sample_id]"
proof -
  define w where "w = fst (run_machine wt_step (wt_new (Some (7, False))) cm_sample)"
  have w: "wt_manager w = cm_sample_state" "wt_stale w = False" "wt_missed w = []" "wt_silent w = [cm_sample_id]"
    unfolding w_def by code_simp+
  have "cm_sample_id \<in> set (cm_active (wt_manager w))" "\<not> ci_cancelled (cm_info (wt_manager w) cm_sample_id)"
    unfolding w by code_simp+
  note main = consumers_do_not_die_silently [OF this [unfolded w_def], of 2 1 1 "Some 7", folded w_def]
  have "map_get (cm_tasks (wt_manager w)) 2 = Some (RecoverySleep cm_sample_id 1 1 (Some 7))"
    "advances (wt_manager w) cm_sample_id (RecoverySleep cm_sample_id 1 1 (Some 7))"
    unfolding w by code_simp+
  with main show ?thesis unfolding Let_def w_def [symmetric] by (simp add: w(2-4))
qed

text \<open>
  Two ways to die silently remain. A recreation that fails after a reconnection is only logged:
  the consumer stays registered, without a channel, a task or an event, until the next
  reconnection. And a channel that closes between the answer to \<open>consume\<close> and the continuation
  that attaches the listener is never heard of: the call resolves, on a dead channel.
\<close>

definition quiet :: "manager \<Rightarrow> cm_out list \<Rightarrow> bool" where
  "quiet m outs \<longleftrightarrow> cm_active m = [cm_sample_id] \<and> cm_tasks m = [] \<and> cm_watchers m = [] \<and>
     list_all (\<lambda>out. case out of EmitCancelled q t \<Rightarrow> False | EmitLost q \<Rightarrow> False | SubscribeRejected i e \<Rightarrow> False | _ \<Rightarrow> True) outs"

theorem failed_recreation_is_silent:
  "(let (m, outs) = run_machine cm_step (cm_new (Some (7, False)))
       [Subscribe ''q'' True False, TaskDone 0 (GotChannel 5), TaskDone 1 (GotTag ''t''), ChannelCloses 5 None,
        PoolChanges (Some (8, False)), RecreateAll, TaskDone 2 (TaskFailed JNull)] in quiet m outs) \<and>
   (let (m, outs) = run_machine cm_step (cm_new (Some (7, False)))
       [Subscribe ''q'' True False, TaskDone 0 (GotChannel 5), ChannelCloses 5 (Some (7, False)), TaskDone 1 (GotTag ''t'')]
    in cm_active m = [cm_sample_id] \<and> cm_tasks m = [] \<and> last outs = Subscribed cm_sample_id ''t'')"
  by (intro conjI) code_simp+

end
