(* ===== verification/Message_Codec.thy ===== *)
theory Message_Codec
  imports Utils
begin

text \<open>
  \<open>src/messaging/message-codec.js\<close>: serialization of a message to a buffer and back, and
  compression above a threshold. The serializer and deserializer are the application's (or
  \<open>JSON\<close>), \<open>gzip\<close>, \<open>gunzip\<close> and the UTF-8 conversions are the platform's: they are
  parameters, the latter four gathered in the record \<open>platform\<close>.
\<close>

section \<open>State and operations\<close>

type_synonym bytes = "nat list"

record platform =
  utf8 :: "string \<Rightarrow> bytes"
  of_utf8 :: "bytes \<Rightarrow> string"
  gzip :: "bytes \<Rightarrow> jsval + bytes"
  gunzip :: "bytes \<Rightarrow> jsval + bytes"

text \<open>A message is a buffer or a value; a serializer answers a string, a buffer or neither.\<close>

datatype message = MBuffer bytes | MValue jsval

datatype serialized = SerString string | SerBuffer bytes | SerOther

record codec =
  serializer :: "jsval \<Rightarrow> jsval + serialized"
  deserializer :: "string \<Rightarrow> jsval + jsval"
  use_compression :: bool
  compression_threshold :: jsnum

definition codec_new ::
  "(jsval \<Rightarrow> jsval + serialized) \<Rightarrow> (string \<Rightarrow> jsval + jsval) \<Rightarrow> bool \<Rightarrow> jsval \<Rightarrow> jsval + codec" where
  "codec_new ser des compress threshold =
     (case non_negative_number threshold ''compressionThreshold'' (Fin 1000) of
        Inl e \<Rightarrow> Inl e
      | Inr n \<Rightarrow> Inr \<lparr>serializer = ser, deserializer = des, use_compression = compress,
                      compression_threshold = n\<rparr>)"

definition to_buffer :: "platform \<Rightarrow> codec \<Rightarrow> message \<Rightarrow> jsval + bytes" where
  "to_buffer pf c message = (case message of
      MBuffer b \<Rightarrow> Inr b
    | MValue (JStr s) \<Rightarrow> Inr (utf8 pf s)
    | MValue JUndef \<Rightarrow> Inl (error_object ''Message must not be undefined.'')
    | MValue v \<Rightarrow> (case serializer c v of
        Inl e \<Rightarrow> Inl e
      | Inr (SerString s) \<Rightarrow> Inr (utf8 pf s)
      | Inr (SerBuffer b) \<Rightarrow> Inr b
      | Inr SerOther \<Rightarrow> Inl type_error))"

definition from_buffer :: "platform \<Rightarrow> codec \<Rightarrow> message \<Rightarrow> jsval + jsval" where
  "from_buffer pf c buffer = (case buffer of
      MValue _ \<Rightarrow> Inl (error_object ''Input must be a Buffer.'')
    | MBuffer b \<Rightarrow>
        (let str = of_utf8 pf b
         in case deserializer c str of Inr v \<Rightarrow> Inr v | Inl _ \<Rightarrow> Inr (JStr str)))"

definition compress_if_needed :: "platform \<Rightarrow> codec \<Rightarrow> bytes \<Rightarrow> bytes \<times> bool" where
  "compress_if_needed pf c buffer =
     (if \<not> use_compression c \<or> num_le (Fin (of_nat (length buffer))) (compression_threshold c)
      then (buffer, False)
      else case gzip pf buffer of Inr z \<Rightarrow> (z, True) | Inl _ \<Rightarrow> (buffer, False))"

definition decompress :: "platform \<Rightarrow> bytes \<Rightarrow> jsval + bytes" where
  "decompress pf buffer = gunzip pf buffer"

definition encode :: "platform \<Rightarrow> codec \<Rightarrow> message \<Rightarrow> jsval + (bytes \<times> bool)" where
  "encode pf c message = (case to_buffer pf c message of
      Inl e \<Rightarrow> Inl e | Inr buffer \<Rightarrow> Inr (compress_if_needed pf c buffer))"

definition decode :: "platform \<Rightarrow> codec \<Rightarrow> bytes \<Rightarrow> bool \<Rightarrow> jsval + jsval" where
  "decode pf c content is_compressed =
     (if \<not> is_compressed then from_buffer pf c (MBuffer content)
      else case decompress pf content of
             Inl e \<Rightarrow> Inl e | Inr buffer \<Rightarrow> from_buffer pf c (MBuffer buffer))"

section \<open>Setters of the facade\<close>

text \<open>\<open>setCompression\<close>, \<open>setCompressionThreshold\<close> and the (de)serializer setters of \<open>src/index.js\<close>.\<close>

definition set_compression :: "bool \<Rightarrow> codec \<Rightarrow> codec" where
  "set_compression b c = c\<lparr>use_compression := b\<rparr>"

definition set_compression_threshold :: "jsval \<Rightarrow> codec \<Rightarrow> jsval + codec" where
  "set_compression_threshold threshold c = (case threshold of
      JNum n \<Rightarrow> if num_lt n (Fin 0)
                then Inl (error_object ''Compression threshold must be a non-negative number'')
                else Inr (c\<lparr>compression_threshold := n\<rparr>)
    | _ \<Rightarrow> Inl (error_object ''Compression threshold must be a non-negative number''))"

definition set_serializer :: "(jsval \<Rightarrow> jsval + serialized) option \<Rightarrow> codec \<Rightarrow> jsval + codec" where
  "set_serializer f c = (case f of
      None \<Rightarrow> Inl (error_object ''Serializer must be a function'')
    | Some g \<Rightarrow> Inr (c\<lparr>serializer := g\<rparr>))"

definition set_deserializer :: "(string \<Rightarrow> jsval + jsval) option \<Rightarrow> codec \<Rightarrow> jsval + codec" where
  "set_deserializer f c = (case f of
      None \<Rightarrow> Inl (error_object ''Deserializer must be a function'')
    | Some g \<Rightarrow> Inr (c\<lparr>deserializer := g\<rparr>))"

section \<open>What encoding and decoding guarantee\<close>

text \<open>
  The documented behaviour of the platform that the codec relies on: inflating a deflated
  buffer gives it back, and so does decoding an encoded string.
\<close>

definition platform_ok :: "platform \<Rightarrow> bool" where
  "platform_ok pf \<longleftrightarrow>
     (\<forall>b z. gzip pf b = Inr z \<longrightarrow> gunzip pf z = Inr b) \<and> (\<forall>s. of_utf8 pf (utf8 pf s) = s)"

lemma decode_compressed:
  assumes "platform_ok pf" "compress_if_needed pf c b = (content, compressed)"
  shows "decode pf c content compressed = from_buffer pf c (MBuffer b)"
  using assms
  by (auto simp: compress_if_needed_def decode_def decompress_def platform_ok_def
      split: if_splits sum.splits)

lemma from_buffer_total: "\<exists>v. from_buffer pf c (MBuffer b) = Inr v"
  by (auto simp: from_buffer_def Let_def split: sum.split)

text \<open>What a consumer of the same codec gets for a message: the value itself, or for a string
  whatever the deserializer reads in it, and the string when it reads nothing.\<close>

definition received_value :: "codec \<Rightarrow> jsval \<Rightarrow> jsval" where
  "received_value c v = (case v of
      JStr s \<Rightarrow> (case deserializer c s of Inr w \<Rightarrow> w | Inl _ \<Rightarrow> JStr s)
    | _ \<Rightarrow> v)"

lemma decode_encode_value:
  assumes "platform_ok pf"
    and "\<forall>s. serializer c v = Inr (SerString s) \<longrightarrow> deserializer c s = Inr v"
    and "\<forall>b. serializer c v \<noteq> Inr (SerBuffer b)"
    and "encode pf c (MValue v) = Inr (content, compressed)"
  shows "decode pf c content compressed = Inr (received_value c v)"
proof -
  obtain b where b: "to_buffer pf c (MValue v) = Inr b" "compress_if_needed pf c b = (content, compressed)"
    using assms(4) by (auto simp: encode_def split: sum.splits)
  have "from_buffer pf c (MBuffer b) = Inr (received_value c v)"
    using b(1) assms(1-3)
    by (auto simp: to_buffer_def from_buffer_def Let_def platform_ok_def received_value_def
        split: jsval.splits sum.splits serialized.splits)
  then show ?thesis using decode_compressed [OF assms(1) b(2)] by simp
qed

text \<open>
  C20: Round trip of the codec. For a value whose serialized string, if it has one, the deserializer
  reads back and a platform that inflates what it deflates, a value that encodes at all decodes,
  with the flag that the encoder set, under any compression setting and whether or not
  compression was possible: a value that is not a string to itself; a string, which is sent as
  it is, to what the deserializer reads in it (\<open>'42'\<close> to the number, under JSON), and to itself
  if the deserializer rejects it.
\<close>

theorem codec_round_trip:
  assumes "platform_ok pf"
    and "\<forall>s. serializer c v = Inr (SerString s) \<longrightarrow> deserializer c s = Inr v"
    and "\<forall>b. serializer c v \<noteq> Inr (SerBuffer b)"
    and "encode pf c (MValue v) = Inr (content, compressed)"
  shows "decode pf c content compressed = Inr (case v of
      JStr s \<Rightarrow> (case deserializer c s of Inr w \<Rightarrow> w | Inl _ \<Rightarrow> JStr s)
    | _ \<Rightarrow> v)"
  using decode_encode_value [OF assms] by (simp only: received_value_def)

definition sample_platform :: platform where
  "sample_platform = \<lparr>utf8 = map of_char, of_utf8 = map char_of,
     gzip = (\<lambda>b. if b = [] then Inl JNull else Inr (31 # b)),
     gunzip = (\<lambda>b. case b of [] \<Rightarrow> Inl JNull | x # xs \<Rightarrow> if x = 31 then Inr xs else Inl JNull)\<rparr>"

definition sample_codec :: codec where
  "sample_codec = \<lparr>
     serializer = (\<lambda>v. case v of JBool True \<Rightarrow> Inr (SerString ''true'') | _ \<Rightarrow> Inl JNull),
     deserializer = (\<lambda>s. if s = ''true'' then Inr (JBool True) else Inl (error_object s)),
     use_compression = True, compression_threshold = Fin 3\<rparr>"

lemma sample_platform_ok: "platform_ok sample_platform"
  by (auto simp: platform_ok_def sample_platform_def o_def split: if_splits)

lemma sample_codec_serializer:
  "serializer sample_codec v = (if v = JBool True then Inr (SerString ''true'') else Inl JNull)"
  by (cases v) (auto simp: sample_codec_def)

theorem codec_round_trip_witness:
  "decode sample_platform sample_codec (31 # map of_char ''true'') True = Inr (JBool True) \<and>
   decode sample_platform sample_codec (31 # map of_char ''true'') True = Inr (case deserializer sample_codec ''true'' of Inr w \<Rightarrow> w | Inl _ \<Rightarrow> JStr ''true'')"
proof
  have "encode sample_platform sample_codec (MValue (JBool True)) = Inr (31 # map of_char ''true'', True)"
    "encode sample_platform sample_codec (MValue (JStr ''true'')) = Inr (31 # map of_char ''true'', True)"
    by (simp_all add: encode_def to_buffer_def sample_codec_serializer compress_if_needed_def)
       (simp_all add: sample_codec_def sample_platform_def)
  note encoded = this
  show "decode sample_platform sample_codec (31 # map of_char ''true'') True = Inr (JBool True)"
    using codec_round_trip [OF sample_platform_ok _ _ encoded(1)] by (simp add: sample_codec_serializer) (simp add: sample_codec_def)
  show "decode sample_platform sample_codec (31 # map of_char ''true'') True =
      Inr (case deserializer sample_codec ''true'' of Inr w \<Rightarrow> w | Inl _ \<Rightarrow> JStr ''true'')"
    using codec_round_trip [OF sample_platform_ok _ _ encoded(2)] by (simp add: sample_codec_serializer)
qed

text \<open>
  Decoding of uncompressed content never fails, and compression never loses a message: the
  encoder falls back to the plain buffer when deflating fails, and what it hands out always
  decodes to what the plain buffer would decode to.
\<close>

theorem compression_transparent:
  assumes "platform_ok pf"
  shows "(\<exists>v. decode pf c b False = Inr v)
    \<and> decode pf c (fst (compress_if_needed pf c b)) (snd (compress_if_needed pf c b)) = decode pf c b False"
  using decode_compressed [OF assms, of c b "fst (compress_if_needed pf c b)" "snd (compress_if_needed pf c b)"]
    from_buffer_total [of pf c b]
  by (simp add: decode_def)

theorem compression_transparent_witness:
  "(\<exists>v. decode sample_platform sample_codec [1, 2, 3, 4] False = Inr v)
    \<and> decode sample_platform sample_codec (fst (compress_if_needed sample_platform sample_codec [1, 2, 3, 4]))
        (snd (compress_if_needed sample_platform sample_codec [1, 2, 3, 4]))
      = decode sample_platform sample_codec [1, 2, 3, 4] False"
  by (rule compression_transparent [OF sample_platform_ok])

text \<open>
  \<open>NaN\<close> as a compression threshold is refused by the constructor but accepted by
  \<open>setCompressionThreshold\<close>, after which every message is over the threshold and, with
  compression on, every buffer that can be deflated is.
\<close>

theorem nan_threshold_setter:
  "(\<exists>e. codec_new ser des compress (JNum NaN) = Inl e)
   \<and> set_compression_threshold (JNum NaN) c = Inr (c\<lparr>compression_threshold := NaN\<rparr>)
   \<and> (gzip pf b = Inr z \<longrightarrow>
        compress_if_needed pf (c\<lparr>use_compression := True, compression_threshold := NaN\<rparr>) b = (z, True))"
  by (auto simp: codec_new_def non_negative_number_def set_compression_threshold_def compress_if_needed_def)

theorem nan_threshold_setter_witness:
  "gzip sample_platform [7] = Inr [31, 7] \<and>
   compress_if_needed sample_platform (sample_codec\<lparr>use_compression := True, compression_threshold := NaN\<rparr>) [7]
     = ([31, 7], True)"
  using nan_threshold_setter [where pf = sample_platform and b = "[7]" and z = "[31, 7]" and c = sample_codec]
  by (simp add: sample_platform_def)

end
