(* ===== verification/Delivery.thy ===== *)
theory Delivery
  imports Message_Codec
begin

text \<open>
  A message as the broker delivers it to a consumer: the fields and properties the library
  reads. \<open>dl_tag\<close> is the delivery tag, unique per delivery of a channel; \<open>dl_headers\<close> is
  \<open>properties.headers\<close>, a table or \<open>undefined\<close>.
\<close>

record delivery =
  dl_tag :: nat
  dl_redelivered :: bool
  dl_message_id :: "string option"
  dl_correlation_id :: "string option"
  dl_reply_to :: "string option"
  dl_headers :: jsval
  dl_content :: bytes

definition dl_header :: "delivery \<Rightarrow> string \<Rightarrow> jsval" where
  "dl_header d name = opt_prop (dl_headers d) name"

text \<open>An identifier counts as given when it is a non-empty string.\<close>

fun given :: "string option \<Rightarrow> string option" where
  "given None = None"
| "given (Some s) = (if s = [] then None else Some s)"

lemma given_Some [simp]: "given v = Some s \<longleftrightarrow> v = Some s \<and> s \<noteq> []"
  by (cases v) auto

text \<open>\<open>Number(v)\<close>; of strings only the decimal naturals and the empty string are read.\<close>

fun js_Number :: "jsval \<Rightarrow> jsnum" where
  "js_Number JNull = Fin 0"
| "js_Number (JBool b) = Fin (if b then 1 else 0)"
| "js_Number (JNum n) = n"
| "js_Number (JStr s) = (if list_all (\<lambda>c. 48 \<le> (of_char c :: nat) \<and> of_char c \<le> (57 :: nat)) s then Fin (of_nat (str_nat s)) else NaN)"
| "js_Number _ = NaN"

definition plain_delivery :: "nat \<Rightarrow> delivery" where
  "plain_delivery tag = \<lparr>dl_tag = tag, dl_redelivered = False, dl_message_id = None,
     dl_correlation_id = None, dl_reply_to = None, dl_headers = JUndef, dl_content = []\<rparr>"

end
