(* ===== verification/Settlement.thy ===== *)
theory Settlement
  imports Delivery
begin

text \<open>
  The retry policy and the acknowledgement controls of \<open>src/consumers/consumer-manager.js\<close>:
  validation of a policy, the one decision whether a failed delivery goes back to the queue,
  and the three ways a delivery is settled (\<open>settleAck\<close> by the library, \<open>ackMessage\<close> and
  \<open>nackMessage\<close> by the application). A delivery carries the channel it came from and a flag
  that it has been settled; a call on a channel can throw.
\<close>

section \<open>Retry policies\<close>

datatype retry_policy = PolicyNone | PolicyOnce | PolicyAttempts nat

definition positive_integer :: "jsval \<Rightarrow> nat option" where
  "positive_integer v = (case v of
      JNum (Fin q) \<Rightarrow> if q > 0 \<and> of_int \<lfloor>q\<rfloor> = q then Some (nat \<lfloor>q\<rfloor>) else None
    | _ \<Rightarrow> None)"

text \<open>\<open>json\<close> renders an object in the error message (\<open>JSON.stringify\<close>).\<close>

definition resolve_retry_policy ::
  "(jsval \<Rightarrow> string) \<Rightarrow> jsval \<Rightarrow> jsval \<Rightarrow> jsval + retry_policy" where
  "resolve_retry_policy json retry_policy default_policy =
     (let policy = js_coalesce retry_policy default_policy
      in if policy = JStr ''none'' then Inr PolicyNone
         else if policy = JStr ''once'' then Inr PolicyOnce
         else case positive_integer (opt_prop policy ''attempts'') of
           Some n \<Rightarrow> Inr (PolicyAttempts n)
         | None \<Rightarrow>
             (let shown = (case policy of JObj _ _ \<Rightarrow> json policy | _ \<Rightarrow> the (js_String policy))
              in Inl (error_object (''Invalid retryPolicy '' @ [CHR 0x27] @ shown @ [CHR 0x27] @ '': expected '' @
                   [CHR 0x27] @ ''none'' @ [CHR 0x27] @ '', '' @ [CHR 0x27] @ ''once'' @ [CHR 0x27] @
                   '' or { attempts: <positive integer> }''))))"

definition should_requeue :: "delivery \<Rightarrow> jsval \<Rightarrow> retry_policy \<Rightarrow> bool" where
  "should_requeue message error policy =
     (if policy = PolicyNone then False
      else if opt_prop error ''retryable'' = JBool False then False
      else case policy of
        PolicyAttempts attempts \<Rightarrow>
          (case js_Number (dl_header message ''x-delivery-count'') of
             Fin delivery_count \<Rightarrow> delivery_count + 1 < of_nat attempts
           | _ \<Rightarrow> if \<not> dl_redelivered message then attempts > 1 else False)
      | _ \<Rightarrow> \<not> dl_redelivered message)"

text \<open>
  The deliveries of one message whose handler fails each time, the \<open>n\<close>-th time with \<open>err n\<close>:
  the broker delivers it again as long as the failure is answered with a requeue. \<open>None\<close> when
  the fuel does not suffice.
\<close>

fun deliveries_made :: "nat \<Rightarrow> retry_policy \<Rightarrow> (nat \<Rightarrow> delivery) \<Rightarrow> (nat \<Rightarrow> jsval) \<Rightarrow> nat \<Rightarrow> nat option" where
  "deliveries_made 0 policy deliver err n = None"
| "deliveries_made (Suc fuel) policy deliver err n =
     (if should_requeue (deliver n) (err n) policy
      then deliveries_made fuel policy deliver err (Suc n) else Some (Suc n))"

text \<open>
  What the broker documents: a quorum queue counts the deliveries before this one in
  \<open>x-delivery-count\<close> and omits it on the first; a classic queue has no counter. Both mark a
  delivery after the first as redelivered.
\<close>

definition quorum_deliveries :: "(nat \<Rightarrow> delivery) \<Rightarrow> bool" where
  "quorum_deliveries deliver \<longleftrightarrow> (\<forall>n. dl_redelivered (deliver n) = (0 < n) \<and>
     dl_header (deliver n) ''x-delivery-count'' = (if n = 0 then JUndef else JNum (Fin (of_nat n))))"

definition classic_deliveries :: "(nat \<Rightarrow> delivery) \<Rightarrow> bool" where
  "classic_deliveries deliver \<longleftrightarrow> (\<forall>n. dl_redelivered (deliver n) = (0 < n) \<and>
     dl_header (deliver n) ''x-delivery-count'' = JUndef)"

lemma count_less: "of_nat n + 1 < (of_nat a :: rat) \<longleftrightarrow> Suc n < a"
  by (metis of_nat_Suc of_nat_less_iff add.commute)

lemma requeue_quorum:
  assumes "quorum_deliveries deliver"
  shows "should_requeue (deliver n) e (PolicyAttempts a) \<longleftrightarrow>
     opt_prop e ''retryable'' \<noteq> JBool False \<and> Suc n < a"
proof -
  have "dl_redelivered (deliver n) = (0 < n)"
    "dl_header (deliver n) ''x-delivery-count'' = (if n = 0 then JUndef else JNum (Fin (of_nat n)))"
    using assms by (auto simp: quorum_deliveries_def)
  then show ?thesis by (cases "n = 0") (simp_all add: should_requeue_def count_less)
qed

lemma requeue_classic:
  assumes "classic_deliveries deliver"
  shows "should_requeue (deliver n) e (PolicyAttempts a) \<longleftrightarrow>
     opt_prop e ''retryable'' \<noteq> JBool False \<and> n = 0 \<and> 1 < a"
proof -
  have "dl_redelivered (deliver n) = (0 < n)" "dl_header (deliver n) ''x-delivery-count'' = JUndef"
    using assms by (auto simp: classic_deliveries_def)
  then show ?thesis by (simp add: should_requeue_def)
qed

text \<open>The number of deliveries is found by the first failure that is not requeued.\<close>

lemma deliveries_until:
  "n \<le> k \<Longrightarrow> k - n < fuel \<Longrightarrow> \<forall>m. n \<le> m \<and> m < k \<longrightarrow> should_requeue (deliver m) (err m) policy \<Longrightarrow>
   \<not> should_requeue (deliver k) (err k) policy \<Longrightarrow> deliveries_made fuel policy deliver err n = Some (Suc k)"
proof (induction fuel arbitrary: n)
  case (Suc fuel)
  show ?case
  proof (cases "n = k")
    case True
    with Suc.prems show ?thesis by simp
  next
    case False
    with Suc.prems have "deliveries_made fuel policy deliver err (Suc n) = Some (Suc k)"
      by (intro Suc.IH) auto
    moreover have "should_requeue (deliver n) (err n) policy" using Suc.prems False by simp
    ultimately show ?thesis by simp
  qed
qed simp

lemma first_refusal:
  fixes P :: "nat \<Rightarrow> bool"
  assumes "\<not> P k" shows "\<exists>j. j \<le> k \<and> \<not> P j \<and> (\<forall>m < j. P m)"
proof -
  have "\<not> P (LEAST j. \<not> P j)" using assms by (rule LeastI)
  moreover have "(LEAST j. \<not> P j) \<le> k" using assms by (rule Least_le)
  moreover have "\<forall>m < (LEAST j. \<not> P j). P m" using not_less_Least by blast
  ultimately show ?thesis by blast
qed

text \<open>
  C31: The retry budget is kept. A message whose handler fails forever is delivered finitely
  often: once under \<open>none\<close>; at most twice under \<open>once\<close>; at most \<open>N\<close> times under
  \<open>{ attempts: N }\<close> on a quorum queue, and exactly \<open>N\<close> times when no failure opts out of the
  retry; and at most \<open>min N 2\<close> times under that policy on a classic queue.
\<close>

theorem retry_budget:
  fixes deliver classic :: "nat \<Rightarrow> delivery" and attempts :: nat
  assumes q: "quorum_deliveries deliver" and c: "classic_deliveries classic" and pos: "0 < attempts"
    and fuel: "attempts < fuel" "2 < fuel"
  shows "deliveries_made fuel PolicyNone deliver err 0 = Some 1
    \<and> (\<exists>k \<le> 2. deliveries_made fuel PolicyOnce deliver err 0 = Some k)
    \<and> (\<exists>k \<le> attempts. deliveries_made fuel (PolicyAttempts attempts) deliver err 0 = Some k)
    \<and> ((\<forall>n. opt_prop (err n) ''retryable'' \<noteq> JBool False) \<longrightarrow>
         deliveries_made fuel (PolicyAttempts attempts) deliver err 0 = Some attempts)
    \<and> (\<exists>k \<le> min attempts 2. deliveries_made fuel (PolicyAttempts attempts) classic err 0 = Some k)"
proof (intro conjI)
  let ?a = "PolicyAttempts attempts"
  have bounded: "\<exists>k \<le> Suc b. deliveries_made fuel policy dlv err 0 = Some k"
    if "\<not> should_requeue (dlv b) (err b) policy" "Suc b < fuel" for b policy dlv
  proof -
    from first_refusal [where P = "\<lambda>j. should_requeue (dlv j) (err j) policy" and k = b, OF that(1)]
    obtain j where "j \<le> b" "\<not> should_requeue (dlv j) (err j) policy" "\<forall>m < j. should_requeue (dlv m) (err m) policy"
      by (elim exE conjE)
    then have "deliveries_made fuel policy dlv err 0 = Some (Suc j)"
      using that(2) deliveries_until [of 0 j fuel dlv err policy] by (simp add: less_imp_le_nat)
    with \<open>j \<le> b\<close> show ?thesis by auto
  qed
  show "deliveries_made fuel PolicyNone deliver err 0 = Some 1"
    using fuel by (cases fuel) (auto simp: should_requeue_def)
  have "\<not> should_requeue (deliver 1) (err 1) PolicyOnce"
    using q by (simp add: should_requeue_def quorum_deliveries_def)
  from bounded [where dlv = deliver and b = 1, OF this] fuel show "\<exists>k \<le> 2. deliveries_made fuel PolicyOnce deliver err 0 = Some k"
    by (simp add: numeral_2_eq_2)
  have last: "\<not> should_requeue (deliver (attempts - 1)) (err (attempts - 1)) ?a"
    using pos by (simp add: requeue_quorum [OF q])
  from bounded [where dlv = deliver and b = "attempts - 1", OF this] pos fuel show "\<exists>k \<le> attempts. deliveries_made fuel ?a deliver err 0 = Some k"
    by simp
  show "(\<forall>n. opt_prop (err n) ''retryable'' \<noteq> JBool False) \<longrightarrow> deliveries_made fuel ?a deliver err 0 = Some attempts"
  proof
    assume retryable: "\<forall>n. opt_prop (err n) ''retryable'' \<noteq> JBool False"
    have "\<forall>m. 0 \<le> m \<and> m < attempts - 1 \<longrightarrow> should_requeue (deliver m) (err m) ?a"
      using retryable by (auto simp: requeue_quorum [OF q])
    then show "deliveries_made fuel ?a deliver err 0 = Some attempts"
      using deliveries_until [of 0 "attempts - 1" fuel deliver err ?a] pos fuel(1) last by simp
  qed
  have "\<not> should_requeue (classic (min attempts 2 - 1)) (err (min attempts 2 - 1)) ?a"
    using pos by (auto simp: requeue_classic [OF c] min_def)
  from bounded [where dlv = classic and b = "min attempts 2 - 1", OF this] pos fuel show "\<exists>k \<le> min attempts 2. deliveries_made fuel ?a classic err 0 = Some k"
    by simp
qed

definition sample_delivery :: "bool \<Rightarrow> nat \<Rightarrow> delivery" where
  "sample_delivery quorum n = (plain_delivery n)\<lparr>dl_redelivered := 0 < n,
     dl_headers := (if quorum \<and> 0 < n then JObj True [(''x-delivery-count'', JNum (Fin (of_nat n)))] else JUndef)\<rparr>"

theorem retry_budget_witness:
  "deliveries_made 5 (PolicyAttempts 3) (sample_delivery True) (\<lambda>n. JNull) 0 = Some 3
   \<and> (\<exists>k \<le> min 3 2. deliveries_made 5 (PolicyAttempts 3) (sample_delivery False) (\<lambda>n. JNull) 0 = Some k)"
proof -
  have "quorum_deliveries (sample_delivery True)" "classic_deliveries (sample_delivery False)"
    by (simp_all add: quorum_deliveries_def classic_deliveries_def sample_delivery_def dl_header_def)
  from retry_budget [OF this, of 3 5 "\<lambda>n. JNull"] show ?thesis by simp
qed

section \<open>Settling a delivery\<close>

text \<open>
  The properties \<open>__channel\<close> and \<open>__ackSettled\<close> of a message object. A call on a channel
  returns or throws; what it does is an input (\<open>throws\<close>). A call that returns has reached the
  broker.
\<close>

record msg_state =
  ms_channel :: "nat option"
  ms_settled :: bool

datatype broker_call = BrokerAck nat delivery | BrokerNack nat delivery bool

definition attach_ack_controls :: "nat \<Rightarrow> msg_state" where
  "attach_ack_controls ch = \<lparr>ms_channel = Some ch, ms_settled = False\<rparr>"

text \<open>\<open>settleAck\<close>: the channel is the one of the subscription; a failure is logged.\<close>

definition settle_ack :: "delivery \<Rightarrow> nat \<Rightarrow> bool \<Rightarrow> bool \<Rightarrow> jsval option \<Rightarrow> msg_state \<Rightarrow> msg_state \<times> broker_call list" where
  "settle_ack d ch ack requeue throws m =
     (if ms_settled m then (m, [])
      else case throws of
        None \<Rightarrow> (m\<lparr>ms_settled := True\<rparr>, [if ack then BrokerAck ch d else BrokerNack ch d requeue])
      | Some e \<Rightarrow> (m, []))"

definition settlement_channel :: "msg_state \<Rightarrow> jsval + nat" where
  "settlement_channel m = (case ms_channel m of
      None \<Rightarrow> Inl (error_object ''Cannot settle a message that was not delivered by this consumer: its channel is unknown'')
    | Some ch \<Rightarrow> Inr ch)"

definition app_settle :: "(nat \<Rightarrow> broker_call) \<Rightarrow> jsval option \<Rightarrow> msg_state \<Rightarrow> msg_state \<times> broker_call list \<times> jsval option" where
  "app_settle call throws m =
     (if ms_settled m then (m, [], None)
      else case settlement_channel m of
        Inl e \<Rightarrow> (m, [], Some e)
      | Inr ch \<Rightarrow> (case throws of
          Some e \<Rightarrow> (m, [], Some e)
        | None \<Rightarrow> (m\<lparr>ms_settled := True\<rparr>, [call ch], None)))"

definition ack_message :: "delivery \<Rightarrow> jsval option \<Rightarrow> msg_state \<Rightarrow> msg_state \<times> broker_call list \<times> jsval option" where
  "ack_message d throws m = app_settle (\<lambda>ch. BrokerAck ch d) throws m"

definition nack_message :: "delivery \<Rightarrow> bool \<Rightarrow> jsval option \<Rightarrow> msg_state \<Rightarrow> msg_state \<times> broker_call list \<times> jsval option" where
  "nack_message d requeue throws m = app_settle (\<lambda>ch. BrokerNack ch d requeue) throws m"

datatype settle_op =
    SettleAck nat bool bool "jsval option"
  | AckMessage "jsval option"
  | NackMessage bool "jsval option"

fun settle_step :: "delivery \<Rightarrow> msg_state \<Rightarrow> settle_op \<Rightarrow> msg_state \<times> broker_call list" where
  "settle_step d m (SettleAck ch ack requeue throws) = settle_ack d ch ack requeue throws m"
| "settle_step d m (AckMessage throws) = (case ack_message d throws m of (m', calls, err) \<Rightarrow> (m', calls))"
| "settle_step d m (NackMessage requeue throws) =
     (case nack_message d requeue throws m of (m', calls, err) \<Rightarrow> (m', calls))"

text \<open>A delivery is tracked until it is settled; any call that reaches the broker settles it.\<close>

definition ms_tracked :: "delivery \<Rightarrow> msg_state \<Rightarrow> delivery multiset" where
  "ms_tracked d m = (if ms_settled m then {#} else {#d#})"

definition ms_settles :: "broker_call \<Rightarrow> delivery multiset" where
  "ms_settles c = (case c of BrokerAck ch d \<Rightarrow> {#d#} | BrokerNack ch d r \<Rightarrow> {#d#})"

interpretation settle: ledger_machine "settle_step d" "\<lambda>_. True" "\<lambda>_. True" "ms_tracked d" "\<lambda>_ _. {#}" ms_settles for d
proof
  fix m op
  show "ms_tracked d m + {#} = ms_tracked d (fst (settle_step d m op)) + total_settled ms_settles (snd (settle_step d m op))"
    by (cases op) (auto simp: settle_ack_def ack_message_def nack_message_def app_settle_def settlement_channel_def
        ms_tracked_def ms_settles_def split: option.split sum.split)
qed simp

lemma settle_run:
  "length (snd (run_machine (settle_step d) m ops)) + (if ms_settled (fst (run_machine (settle_step d) m ops)) then 0 else 1)
     = (if ms_settled m then 0 else 1)"
proof -
  have entered: "total_entered (settle_step d) (\<lambda>_ _. {#} :: delivery multiset) m ops = {#}"
    by (induction ops arbitrary: m) auto
  have counts: "size (total_settled ms_settles out) = length out" for out
    by (induction out) (auto simp: ms_settles_def split: broker_call.split)
  have "ms_tracked d m = ms_tracked d (fst (run_machine (settle_step d) m ops))
      + total_settled ms_settles (snd (run_machine (settle_step d) m ops))"
    using settle.run_conserves [where s = m and es = ops and d = d] entered by (simp add: list_all_iff)
  from arg_cong [where f = size, OF this] show ?thesis
    by (simp add: counts ms_tracked_def split: if_splits)
qed

fun op_returns :: "settle_op \<Rightarrow> bool" where
  "op_returns (SettleAck ch ack requeue throws) = (throws = None)"
| "op_returns (AckMessage throws) = (throws = None)"
| "op_returns (NackMessage requeue throws) = (throws = None)"

lemma settle_step_channel: "ms_channel (fst (settle_step d m op)) = ms_channel m"
  by (cases op) (auto simp: settle_ack_def ack_message_def nack_message_def app_settle_def settlement_channel_def
      split: option.split sum.split)

lemma settle_step_mono: "ms_settled m \<Longrightarrow> ms_settled (fst (settle_step d m op))"
  by (cases op) (auto simp: settle_ack_def ack_message_def nack_message_def app_settle_def)

lemma settle_run_mono: "ms_settled m \<Longrightarrow> ms_settled (fst (run_machine (settle_step d) m ops))"
  by (induction ops arbitrary: m) (simp_all add: settle_step_mono)

lemma settle_step_returns:
  "ms_channel m \<noteq> None \<Longrightarrow> op_returns op \<Longrightarrow> ms_settled (fst (settle_step d m op))"
  by (cases op) (auto simp: settle_ack_def ack_message_def nack_message_def app_settle_def settlement_channel_def)

lemma settle_run_returns:
  "ms_channel m \<noteq> None \<Longrightarrow> \<exists>op \<in> set ops. op_returns op \<Longrightarrow> ms_settled (fst (run_machine (settle_step d) m ops))"
proof (induction ops arbitrary: m)
  case (Cons op ops)
  show ?case
  proof (cases "op_returns op")
    case True
    then show ?thesis using Cons.prems(1) by (simp add: settle_step_returns settle_run_mono)
  next
    case False
    then show ?thesis using Cons.prems Cons.IH [of "fst (settle_step d m op)"] by (simp add: settle_step_channel)
  qed
qed simp

text \<open>
  A delivery is settled with the broker at most once, and exactly once when any of the
  attempts gets through. Whatever mixture of \<open>settleAck\<close>, \<open>ackMessage\<close> and \<open>nackMessage\<close>
  is applied to a delivery, in any order and with the channel throwing at any of them, the
  calls that reach the broker are one if the delivery is marked settled and none otherwise, and
  one attempt whose call returns is enough. A message that came through no channel cannot be
  settled by the application.
\<close>

theorem settled_at_most_once:
  "let r = run_machine (settle_step d) (attach_ack_controls ch) ops
   in length (snd r) = (if ms_settled (fst r) then 1 else 0)
    \<and> ((\<exists>op \<in> set ops. op_returns op) \<longrightarrow> length (snd r) = 1)
    \<and> (\<exists>e. ack_message d throws \<lparr>ms_channel = None, ms_settled = False\<rparr> = (\<lparr>ms_channel = None, ms_settled = False\<rparr>, [], Some e))"
proof -
  let ?r = "run_machine (settle_step d) (attach_ack_controls ch) ops"
  have count: "length (snd ?r) = (if ms_settled (fst ?r) then 1 else 0)"
    using settle_run [of d "attach_ack_controls ch" ops] by (simp add: attach_ack_controls_def split: if_splits)
  moreover have "(\<exists>op \<in> set ops. op_returns op) \<longrightarrow> ms_settled (fst ?r)"
    using settle_run_returns [of "attach_ack_controls ch" ops d] by (simp add: attach_ack_controls_def)
  ultimately show ?thesis
    by (simp add: ack_message_def app_settle_def settlement_channel_def)
qed

theorem settled_at_most_once_witness:
  "length (snd (run_machine (settle_step (plain_delivery 1)) (attach_ack_controls 0)
     [SettleAck 0 True False (Some JNull), NackMessage True None, SettleAck 0 True False None])) = 1"
  using settled_at_most_once [of "plain_delivery 1" 0
    "[SettleAck 0 True False (Some JNull), NackMessage True None, SettleAck 0 True False None]" None]
  by (simp add: Let_def del: run_machine_simps)

end
