(* ===== verification/Sequential_Processor.thy ===== *)
theory Sequential_Processor
  imports Delivery
begin

text \<open>
  \<open>src/consumers/sequential-processor.js\<close>: deliveries that depend on a message still being
  processed or parked are parked; a success releases the dependents one after the other; a
  sweep expires what waited too long. A job is one call of \<open>handle\<close> together with the
  dependents it releases: the delivery whose callback runs now and the stack of the
  \<open>processDependents\<close> loops below it. Events are the calls of \<open>handle\<close> and \<open>cleanup\<close> and
  the settlement of the callback of a job. \<open>shouldRequeue\<close> is supplied by the consumer manager
  and is a parameter; \<open>onSuccess\<close> and \<open>onFailure\<close> are the outputs.
\<close>

section \<open>State\<close>

record sp_parked =
  pk_content :: jsval
  pk_message :: delivery
  pk_depends_on :: string
  pk_queued_at :: rat

text \<open>
  A running callback and the loops to continue when it is done: for each, the delivery that was
  processed, the start of its processing and the dependents left.
\<close>

type_synonym sp_frame = "delivery \<times> rat \<times> string list"

record sp_job =
  job_message :: delivery
  job_start :: rat
  job_stack :: "sp_frame list"

record sequential =
  sp_stale_timeout :: rat
  sp_processing :: "(string, rat) jsmap"
  sp_pending :: "(string, sp_parked) jsmap"
  sp_by_dependency :: "(string, string list) jsmap"
  sp_interval :: "rat option"
  sp_jobs :: "(nat, sp_job) jsmap"

datatype sp_out =
    Invoke nat delivery jsval
  | OnSuccess delivery bool "rat option"
  | OnFailure delivery jsval bool "rat option"
  | HandleRejected nat delivery jsval

type_synonym requeue_policy = "delivery \<Rightarrow> jsval \<Rightarrow> bool"

definition sp_new :: "rat option \<Rightarrow> sequential" where
  "sp_new stale_timeout =
     (let t = (case stale_timeout of None \<Rightarrow> 30000 | Some t \<Rightarrow> if t = 0 then 30000 else t)
      in \<lparr>sp_stale_timeout = t, sp_processing = [], sp_pending = [], sp_by_dependency = [],
          sp_interval = Some (min t 60000), sp_jobs = []\<rparr>)"

section \<open>Operations\<close>

definition sp_depends_on :: "delivery \<Rightarrow> string option" where
  "sp_depends_on d = (case dl_header d ''depends-on'' of JStr s \<Rightarrow> given (Some s) | _ \<Rightarrow> None)"

text \<open>The dependency a delivery has to wait for, if it can be parked.\<close>

definition sp_unresolved :: "delivery \<Rightarrow> sequential \<Rightarrow> (string \<times> string) option" where
  "sp_unresolved d s = (case (given (dl_message_id d), sp_depends_on d) of
      (Some i, Some x) \<Rightarrow> if map_has (sp_processing s) x \<or> map_has (sp_pending s) x then Some (i, x) else None
    | _ \<Rightarrow> None)"

definition sp_dependents :: "string \<Rightarrow> sequential \<Rightarrow> string list" where
  "sp_dependents x s = (case map_get (sp_by_dependency s) x of Some ds \<Rightarrow> ds | None \<Rightarrow> [])"

definition sp_index_pending :: "string \<Rightarrow> string \<Rightarrow> sequential \<Rightarrow> sequential" where
  "sp_index_pending i x s =
     s\<lparr>sp_by_dependency := map_set x (set_add i (sp_dependents x s)) (sp_by_dependency s)\<rparr>"

definition sp_remove_pending :: "string \<Rightarrow> string \<Rightarrow> sequential \<Rightarrow> sequential" where
  "sp_remove_pending i x s =
     (let s1 = s\<lparr>sp_pending := map_del i (sp_pending s)\<rparr>
      in case map_get (sp_by_dependency s) x of
           None \<Rightarrow> s1
         | Some ds \<Rightarrow>
             (let rest = removeAll i ds
              in s1\<lparr>sp_by_dependency :=
                     (if rest = [] then map_del x (sp_by_dependency s) else map_set x rest (sp_by_dependency s))\<rparr>))"

text \<open>The start of \<open>process\<close>, up to the call of the callback.\<close>

definition sp_process :: "nat \<Rightarrow> rat \<Rightarrow> jsval \<Rightarrow> delivery \<Rightarrow> sp_frame list \<Rightarrow>
    sequential \<Rightarrow> sequential \<times> sp_out list" where
  "sp_process j now content d stack s =
     (s\<lparr>sp_processing := (case given (dl_message_id d) of Some i \<Rightarrow> map_set i now (sp_processing s) | None \<Rightarrow> sp_processing s),
        sp_jobs := map_set j \<lparr>job_message = d, job_start = now, job_stack = stack\<rparr> (sp_jobs s)\<rparr>,
      [Invoke j d content])"

text \<open>The parking branch of \<open>handle\<close>.\<close>

definition sp_park :: "rat \<Rightarrow> jsval \<Rightarrow> delivery \<Rightarrow> string \<Rightarrow> string \<Rightarrow> sequential \<Rightarrow> sequential \<times> sp_out list" where
  "sp_park now content d i x s =
     (if map_has (sp_pending s) i then (s, [OnSuccess d True None])
      else (sp_index_pending i x
              (s\<lparr>sp_pending := map_set i \<lparr>pk_content = content, pk_message = d, pk_depends_on = x,
                   pk_queued_at = now\<rparr> (sp_pending s)\<rparr>), []))"

text \<open>
  \<open>handle\<close> inside job \<open>j\<close>, with the loops \<open>stack\<close> to return to, and the continuation of
  those loops once a call of \<open>handle\<close> in them is done.
\<close>

fun sp_stack_size :: "sp_frame list \<Rightarrow> nat" where
  "sp_stack_size [] = 0"
| "sp_stack_size ((d, t, todo) # stack) = Suc (length todo) + sp_stack_size stack"

function sp_resume :: "nat \<Rightarrow> rat \<Rightarrow> sp_frame list \<Rightarrow> sequential \<Rightarrow> sequential \<times> sp_out list" where
  "sp_resume j now [] s = (s\<lparr>sp_jobs := map_del j (sp_jobs s)\<rparr>, [])"
| "sp_resume j now ((p, t, []) # stack) s = sp_resume j now stack s"
| "sp_resume j now ((p, t, i # todo) # stack) s =
     (case map_get (sp_pending s) i of
        None \<Rightarrow> sp_resume j now ((p, t, todo) # stack) s
      | Some pk \<Rightarrow>
          (let s1 = s\<lparr>sp_pending := map_del i (sp_pending s)\<rparr>
           in case sp_unresolved (pk_message pk) s1 of
                Some (i', x) \<Rightarrow>
                  (case sp_park now (pk_content pk) (pk_message pk) i' x s1 of (s2, out) \<Rightarrow>
                     apsnd (\<lambda>out'. out @ out') (sp_resume j now ((p, t, todo) # stack) s2))
              | None \<Rightarrow> sp_process j now (pk_content pk) (pk_message pk) ((p, t, todo) # stack) s1))"
  by pat_completeness auto
termination
  by (relation "measure (\<lambda>(j, now, stack, s). sp_stack_size stack)") auto

definition sp_handle :: "nat \<Rightarrow> rat \<Rightarrow> jsval \<Rightarrow> delivery \<Rightarrow> sequential \<Rightarrow> sequential \<times> sp_out list" where
  "sp_handle j now content d s = (case sp_unresolved d s of
      Some (i, x) \<Rightarrow> sp_park now content d i x s
    | None \<Rightarrow> sp_process j now content d [] s)"

text \<open>The rest of \<open>process\<close> after the callback fulfilled.\<close>

definition sp_completed :: "delivery \<Rightarrow> sequential \<Rightarrow> sequential" where
  "sp_completed d s = (case given (dl_message_id d) of
      Some i \<Rightarrow> s\<lparr>sp_processing := map_del i (sp_processing s)\<rparr> | None \<Rightarrow> s)"

definition sp_success :: "nat \<Rightarrow> rat \<Rightarrow> sequential \<Rightarrow> sequential \<times> sp_out list" where
  "sp_success j now s = (case map_get (sp_jobs s) j of
      None \<Rightarrow> (s, [])
    | Some job \<Rightarrow>
        (let d = job_message job;
             s1 = sp_completed d s;
             report = OnSuccess d False (Some (now - job_start job))
         in case Option.bind (dl_message_id d) (map_get (sp_by_dependency s1)) of
              None \<Rightarrow> apsnd (\<lambda>out. report # out) (sp_resume j now (job_stack job) s1)
            | Some dependents \<Rightarrow>
                apsnd (\<lambda>out. report # out)
                  (sp_resume j now ((d, job_start job, dependents) # job_stack job)
                     (s1\<lparr>sp_by_dependency := map_del (the (dl_message_id d)) (sp_by_dependency s1)\<rparr>))))"

text \<open>
  The catch of \<open>process\<close>. When the error cannot be described the catch itself throws: the
  exception leaves \<open>handle\<close> and lands in the catch of the process whose loop called it, with
  an error that can be described, or leaves the job when there is none.
\<close>

definition sp_forget :: "delivery \<Rightarrow> sequential \<Rightarrow> sequential" where
  "sp_forget d s = (case dl_message_id d of
      Some i \<Rightarrow> s\<lparr>sp_processing := map_del i (sp_processing s)\<rparr> | None \<Rightarrow> s)"

definition sp_failure :: "requeue_policy \<Rightarrow> nat \<Rightarrow> rat \<Rightarrow> jsval \<Rightarrow> sequential \<Rightarrow> sequential \<times> sp_out list" where
  "sp_failure should_requeue j now error s = (case map_get (sp_jobs s) j of
      None \<Rightarrow> (s, [])
    | Some job \<Rightarrow>
        (let d = job_message job; s1 = sp_forget d s
         in if describable error
            then apsnd (\<lambda>out. OnFailure d error (should_requeue d error) (Some (now - job_start job)) # out)
                   (sp_resume j now (job_stack job) s1)
            else case job_stack job of
                   [] \<Rightarrow> (s1\<lparr>sp_jobs := map_del j (sp_jobs s1)\<rparr>, [HandleRejected j d type_error])
                 | (p, t, todo) # stack \<Rightarrow>
                     apsnd (\<lambda>out. OnFailure p type_error (should_requeue p type_error) (Some (now - t)) # out)
                       (sp_resume j now stack (sp_forget p s1))))"

fun sp_expire :: "requeue_policy \<Rightarrow> rat \<Rightarrow> (string, sp_parked) jsmap \<Rightarrow> sequential \<Rightarrow> sequential \<times> sp_out list" where
  "sp_expire should_requeue now [] s = (s, [])"
| "sp_expire should_requeue now ((i, pk) # entries) s =
     (if now - pk_queued_at pk > sp_stale_timeout s
      then let error = error_object (''Dependency '' @ pk_depends_on pk @ '' was never resolved'');
               out = OnFailure (pk_message pk) error (should_requeue (pk_message pk) error) None
           in apsnd (\<lambda>out'. out # out')
                (sp_expire should_requeue now entries (sp_remove_pending i (pk_depends_on pk) s))
      else sp_expire should_requeue now entries s)"

definition sp_cleanup :: "requeue_policy \<Rightarrow> rat \<Rightarrow> sequential \<Rightarrow> sequential \<times> sp_out list" where
  "sp_cleanup should_requeue now s =
     (let s1 = s\<lparr>sp_processing := filter (\<lambda>(i, start). \<not> now - start > sp_stale_timeout s) (sp_processing s)\<rparr>
      in sp_expire should_requeue now (sp_pending s1) s1)"

definition sp_dispose :: "sequential \<Rightarrow> sequential" where
  "sp_dispose s = s\<lparr>sp_interval := None, sp_processing := [], sp_pending := [], sp_by_dependency := []\<rparr>"

section \<open>Steps\<close>

datatype sp_event =
    Handle nat rat jsval delivery
  | CallbackDone nat rat
  | CallbackFailed nat rat jsval
  | CleanupTick rat
  | DisposeProcessor

text \<open>A call of \<open>handle\<close> is given a number that is not in use.\<close>

fun sp_step :: "requeue_policy \<Rightarrow> sequential \<Rightarrow> sp_event \<Rightarrow> sequential \<times> sp_out list" where
  "sp_step rq s (Handle j now content d) =
     (if map_has (sp_jobs s) j then (s, []) else sp_handle j now content d s)"
| "sp_step rq s (CallbackDone j now) = sp_success j now s"
| "sp_step rq s (CallbackFailed j now error) = sp_failure rq j now error s"
| "sp_step rq s (CleanupTick now) = (if sp_interval s = None then (s, []) else sp_cleanup rq now s)"
| "sp_step rq s DisposeProcessor = (sp_dispose s, [])"

section \<open>The ledger of deliveries\<close>

definition sp_inv :: "sequential \<Rightarrow> bool" where
  "sp_inv s \<longleftrightarrow> wf_map (sp_pending s) \<and> wf_map (sp_jobs s)"

definition sp_parked_messages :: "sequential \<Rightarrow> delivery multiset" where
  "sp_parked_messages s = image_mset pk_message (vals_of (sp_pending s))"

definition sp_running_messages :: "sequential \<Rightarrow> delivery multiset" where
  "sp_running_messages s = image_mset job_message (vals_of (sp_jobs s))"

definition sp_tracked :: "sequential \<Rightarrow> delivery multiset" where
  "sp_tracked s = sp_parked_messages s + sp_running_messages s"

fun sp_entered :: "sequential \<Rightarrow> sp_event \<Rightarrow> delivery multiset" where
  "sp_entered s (Handle j now content d) = (if map_has (sp_jobs s) j then {#} else {#d#})"
| "sp_entered s _ = {#}"

fun sp_settles :: "sp_out \<Rightarrow> delivery multiset" where
  "sp_settles (Invoke j d content) = {#}"
| "sp_settles (OnSuccess d duplicate duration) = {#d#}"
| "sp_settles (OnFailure d error requeue duration) = {#d#}"
| "sp_settles (HandleRejected j d error) = {#d#}"

abbreviation sp_settled :: "sp_out list \<Rightarrow> delivery multiset" where
  "sp_settled out \<equiv> total_settled sp_settles out"

text \<open>The events of a live processor whose callbacks throw only what can be described.\<close>

fun sp_ok :: "sp_event \<Rightarrow> bool" where
  "sp_ok (CallbackFailed j now error) = describable error"
| "sp_ok DisposeProcessor = False"
| "sp_ok _ = True"

lemma sp_index_fields [simp]:
  "sp_pending (sp_index_pending i x s) = sp_pending s" "sp_jobs (sp_index_pending i x s) = sp_jobs s"
  "sp_processing (sp_index_pending i x s) = sp_processing s"
  by (simp_all add: sp_index_pending_def)

lemma sp_remove_fields [simp]:
  "sp_pending (sp_remove_pending i x s) = map_del i (sp_pending s)" "sp_jobs (sp_remove_pending i x s) = sp_jobs s"
  "sp_processing (sp_remove_pending i x s) = sp_processing s"
  "sp_stale_timeout (sp_remove_pending i x s) = sp_stale_timeout s"
  by (simp_all add: sp_remove_pending_def Let_def split: option.split)

lemma sp_completed_fields [simp]:
  "sp_pending (sp_completed d s) = sp_pending s" "sp_jobs (sp_completed d s) = sp_jobs s"
  "sp_by_dependency (sp_completed d s) = sp_by_dependency s"
  by (simp_all add: sp_completed_def split: option.split)

lemma sp_forget_fields [simp]:
  "sp_pending (sp_forget d s) = sp_pending s" "sp_jobs (sp_forget d s) = sp_jobs s"
  "sp_by_dependency (sp_forget d s) = sp_by_dependency s"
  by (simp_all add: sp_forget_def split: option.split)

lemma sp_park_ledger:
  assumes "sp_inv s"
  shows "sp_inv (fst (sp_park now c d i x s))"
    and "add_mset d (sp_tracked s) = sp_tracked (fst (sp_park now c d i x s)) + sp_settled (snd (sp_park now c d i x s))"
    and "sp_jobs (fst (sp_park now c d i x s)) = sp_jobs s"
  using assms
  by (auto simp: sp_park_def sp_inv_def sp_tracked_def sp_parked_messages_def sp_running_messages_def
      map_simps vals_set_new)

lemma sp_process_ledger:
  assumes "sp_inv s"
  shows "sp_inv (fst (sp_process j now c d stack s))"
    and "add_mset d (sp_parked_messages s + image_mset job_message (vals_of (map_del j (sp_jobs s))))
      = sp_tracked (fst (sp_process j now c d stack s)) + sp_settled (snd (sp_process j now c d stack s))"
  using assms
  by (simp_all add: sp_process_def sp_inv_def sp_tracked_def sp_parked_messages_def sp_running_messages_def vals_set)

lemma sp_resume_ledger:
  "sp_inv s \<Longrightarrow> sp_inv (fst (sp_resume j now stack s))
     \<and> sp_parked_messages s + image_mset job_message (vals_of (map_del j (sp_jobs s)))
         = sp_tracked (fst (sp_resume j now stack s)) + sp_settled (snd (sp_resume j now stack s))"
proof (induction j now stack s rule: sp_resume.induct)
  case (1 j now s)
  then show ?case by (simp add: sp_inv_def sp_tracked_def sp_parked_messages_def sp_running_messages_def)
next
  case (2 j now p t stack s)
  then show ?case by simp
next
  case (3 j now p t i todo stack s)
  show ?case
  proof (cases "map_get (sp_pending s) i")
    case None
    with 3 show ?thesis by simp
  next
    case (Some pk)
    define s1 where "s1 = s\<lparr>sp_pending := map_del i (sp_pending s)\<rparr>"
    have inv1: "sp_inv s1" and jobs1: "sp_jobs s1 = sp_jobs s" using "3.prems" by (simp_all add: s1_def sp_inv_def)
    have parked: "sp_parked_messages s = add_mset (pk_message pk) (sp_parked_messages s1)"
      using "3.prems" Some by (simp add: sp_parked_messages_def s1_def sp_inv_def vals_del)
    show ?thesis
    proof (cases "sp_unresolved (pk_message pk) s1")
      case None
      with Some parked sp_process_ledger [OF inv1] show ?thesis by (simp add: s1_def)
    next
      case unresolved: (Some ix)
      obtain i' x where ix: "ix = (i', x)" by (cases ix)
      define r where "r = sp_park now (pk_content pk) (pk_message pk) i' x s1"
      have "sp_inv (fst r)" "sp_jobs (fst r) = sp_jobs s" using sp_park_ledger [OF inv1] by (simp_all add: r_def jobs1)
      moreover have "sp_tracked (fst r) + sp_settled (snd r) = add_mset (pk_message pk) (sp_tracked s1)"
        using sp_park_ledger(2) [OF inv1] by (simp add: r_def)
      then have "(sp_parked_messages (fst r) + sp_settled (snd r)) + sp_running_messages s
          = sp_parked_messages s + sp_running_messages s"
        by (simp add: parked sp_tracked_def sp_running_messages_def calculation(2) jobs1 add_ac)
      then have parks: "sp_parked_messages (fst r) + sp_settled (snd r) = sp_parked_messages s" by simp
      have res: "sp_resume j now ((p, t, i # todo) # stack) s =
          apsnd (\<lambda>out'. snd r @ out') (sp_resume j now ((p, t, todo) # stack) (fst r))"
        using Some unresolved by (simp add: s1_def [symmetric] ix r_def split_def)
      note IH = "3.IH"(2) [OF Some s1_def unresolved ix [symmetric], of "fst r" "snd r"]
      show ?thesis
        unfolding res using IH \<open>sp_inv (fst r)\<close> \<open>sp_jobs (fst r) = sp_jobs s\<close>
        by (simp add: r_def [symmetric] parks [symmetric] ac_simps del: sp_resume.simps)
    qed
  qed
qed

lemma sp_job_ledger:
  assumes "sp_inv s" "map_get (sp_jobs s) j = Some job"
  shows "sp_tracked s = add_mset (job_message job)
    (sp_parked_messages s + image_mset job_message (vals_of (map_del j (sp_jobs s))))"
  using assms by (simp add: sp_tracked_def sp_running_messages_def sp_inv_def vals_del [where k = j])

lemma sp_same_ledger:
  assumes "sp_pending s' = sp_pending s" "sp_jobs s' = sp_jobs s"
  shows "sp_inv s' = sp_inv s" "sp_parked_messages s' = sp_parked_messages s" "sp_tracked s' = sp_tracked s"
  using assms by (simp_all add: sp_inv_def sp_tracked_def sp_parked_messages_def sp_running_messages_def)

lemma sp_success_ledger:
  assumes inv: "sp_inv s"
  shows "sp_inv (fst (sp_success j now s))
    \<and> sp_tracked s = sp_tracked (fst (sp_success j now s)) + sp_settled (snd (sp_success j now s))"
proof (cases "map_get (sp_jobs s) j")
  case (Some job)
  define s1 where "s1 = sp_completed (job_message job) s"
  have s1: "sp_pending s1 = sp_pending s" "sp_jobs s1 = sp_jobs s" by (simp_all add: s1_def)
  have "sp_inv (fst (sp_resume j now stack s')) \<and>
      sp_tracked s = sp_tracked (fst (sp_resume j now stack s')) +
        add_mset (job_message job) (sp_settled (snd (sp_resume j now stack s')))"
    if "sp_pending s' = sp_pending s" "sp_jobs s' = sp_jobs s" for stack s'
    using sp_resume_ledger [of s' j now stack] sp_same_ledger [OF that] inv sp_job_ledger [OF inv Some] that
    by simp
  note resume = this [of s1, OF s1] this [of "s1\<lparr>sp_by_dependency := m\<rparr>" for m, simplified, OF s1]
  show ?thesis
    using Some resume by (simp add: sp_success_def Let_def s1_def [symmetric] split: option.split)
qed (use assms in \<open>simp add: sp_success_def\<close>)

lemma sp_failure_ledger:
  assumes inv: "sp_inv s"
  shows "sp_inv (fst (sp_failure rq j now error s))"
    and "describable error \<Longrightarrow>
      sp_tracked s = sp_tracked (fst (sp_failure rq j now error s)) + sp_settled (snd (sp_failure rq j now error s))"
proof -
  have resume: "sp_inv (fst (sp_resume j now stack s')) \<and>
      (map_get (sp_jobs s) j = Some job \<longrightarrow> sp_tracked s = sp_tracked (fst (sp_resume j now stack s')) +
        add_mset (job_message job) (sp_settled (snd (sp_resume j now stack s'))))"
    if "sp_pending s' = sp_pending s" "sp_jobs s' = sp_jobs s" for stack s' job
    using sp_resume_ledger [of s' j now stack] sp_same_ledger [OF that] inv sp_job_ledger [OF inv] that
    by auto
  show "sp_inv (fst (sp_failure rq j now error s))"
    using inv resume by (auto simp: sp_failure_def Let_def sp_inv_def split: option.split list.split)
  show "describable error \<Longrightarrow>
      sp_tracked s = sp_tracked (fst (sp_failure rq j now error s)) + sp_settled (snd (sp_failure rq j now error s))"
    using resume by (simp add: sp_failure_def Let_def split: option.split)
qed

lemma sp_expire_ledger:
  assumes "sp_inv s" "distinct (map fst entries)"
    and "\<And>i pk. (i, pk) \<in> set entries \<Longrightarrow> map_get (sp_pending s) i = Some pk"
  shows "sp_inv (fst (sp_expire rq now entries s))
    \<and> sp_tracked s = sp_tracked (fst (sp_expire rq now entries s)) + sp_settled (snd (sp_expire rq now entries s))"
  using assms
proof (induction rq now entries s rule: sp_expire.induct)
  case (2 rq now i pk entries s)
  define s1 where "s1 = sp_remove_pending i (pk_depends_on pk) s"
  have s1: "sp_pending s1 = map_del i (sp_pending s)" "sp_jobs s1 = sp_jobs s" by (simp_all add: s1_def)
  have "sp_inv s1" using "2.prems" by (simp add: sp_inv_def s1)
  moreover have "map_get (sp_pending s1) k = Some v" if "(k, v) \<in> set entries" for k v
    using "2.prems"(2) "2.prems"(3) [of k v] that by (force simp: s1 map_simps)
  moreover have "sp_tracked s = add_mset (pk_message pk) (sp_tracked s1)"
    using "2.prems"(1) "2.prems"(3) [of i pk]
    by (simp add: sp_tracked_def sp_parked_messages_def sp_running_messages_def sp_inv_def s1 vals_del [where k = i])
  ultimately show ?case
    using 2 by (auto simp: Let_def s1_def)
qed simp

lemma sp_entries: "wf_map m \<Longrightarrow> (i, v) \<in> set m \<Longrightarrow> map_get m i = Some v"
  by (auto simp: map_get_def)

lemma sp_cleanup_ledger:
  assumes "sp_inv s"
  shows "sp_inv (fst (sp_cleanup rq now s))
    \<and> sp_tracked s = sp_tracked (fst (sp_cleanup rq now s)) + sp_settled (snd (sp_cleanup rq now s))"
proof -
  let ?s1 = "s\<lparr>sp_processing := filter (\<lambda>(i, start). \<not> now - start > sp_stale_timeout s) (sp_processing s)\<rparr>"
  have "sp_inv ?s1" "sp_tracked ?s1 = sp_tracked s" using assms sp_same_ledger [of ?s1 s] by simp_all
  then show ?thesis
    using sp_expire_ledger [of ?s1 "sp_pending ?s1" rq now] sp_entries [of "sp_pending s"] assms
    by (simp add: sp_cleanup_def Let_def sp_inv_def)
qed

lemma sp_handle_ledger:
  assumes "sp_inv s" "\<not> map_has (sp_jobs s) j"
  shows "sp_inv (fst (sp_handle j now c d s))
    \<and> add_mset d (sp_tracked s) = sp_tracked (fst (sp_handle j now c d s)) + sp_settled (snd (sp_handle j now c d s))"
proof -
  have "map_del j (sp_jobs s) = sp_jobs s" using assms(2) by (intro map_del_absent) (simp add: map_simps)
  then show ?thesis
    using sp_park_ledger [OF assms(1)] sp_process_ledger [OF assms(1), where stack = "[]" and j = j]
    by (auto simp: sp_handle_def sp_tracked_def sp_running_messages_def split: option.split)
qed

interpretation sp: ledger_machine "sp_step rq" sp_ok sp_inv sp_tracked sp_entered sp_settles for rq
proof
  fix s e assume "sp_inv s" "sp_ok e"
  then show "sp_inv (fst (sp_step rq s e))"
    using sp_handle_ledger sp_success_ledger sp_failure_ledger sp_cleanup_ledger by (cases e) auto
  show "sp_tracked s + sp_entered s e = sp_tracked (fst (sp_step rq s e)) + sp_settled (snd (sp_step rq s e))"
    using \<open>sp_inv s\<close> \<open>sp_ok e\<close> sp_handle_ledger sp_success_ledger sp_failure_ledger sp_cleanup_ledger
    by (cases e) auto
qed

section \<open>The index of parked messages\<close>

definition sp_todo :: "sp_frame list \<Rightarrow> string list" where
  "sp_todo stack = concat (map (\<lambda>(p, t, todo). todo) stack)"

lemma sp_todo_simps [simp]:
  "sp_todo [] = []" "sp_todo ((p, t, todo) # stack) = todo @ sp_todo stack"
  by (simp_all add: sp_todo_def)

text \<open>
  Every parked message is indexed under its dependency or is on the list of a loop of some job;
  \<open>sp_reachable j todo s\<close> leaves out the job \<open>j\<close>, whose loops hold \<open>todo\<close>.
\<close>

definition sp_scheduled :: "nat option \<Rightarrow> string \<Rightarrow> sequential \<Rightarrow> bool" where
  "sp_scheduled j i s \<longleftrightarrow> (\<exists>k job. Some k \<noteq> j \<and> map_get (sp_jobs s) k = Some job \<and> i \<in> set (sp_todo (job_stack job)))"

definition sp_reachable :: "nat option \<Rightarrow> string list \<Rightarrow> sequential \<Rightarrow> bool" where
  "sp_reachable j todo s \<longleftrightarrow> (\<forall>i pk. map_get (sp_pending s) i = Some pk \<longrightarrow>
     i \<in> set (sp_dependents (pk_depends_on pk) s) \<or> i \<in> set todo \<or> sp_scheduled j i s)"

definition sp_keyed :: "sequential \<Rightarrow> bool" where
  "sp_keyed s \<longleftrightarrow> (\<forall>i pk. map_get (sp_pending s) i = Some pk \<longrightarrow>
     given (dl_message_id (pk_message pk)) = Some i \<and> sp_depends_on (pk_message pk) = Some (pk_depends_on pk))"

definition sp_index_inv :: "sequential \<Rightarrow> bool" where
  "sp_index_inv s \<longleftrightarrow> sp_reachable None [] s \<and> sp_keyed s"

lemma sp_dependents_index [simp]:
  "sp_dependents x' (sp_index_pending i x s) =
     (if x' = x then set_add i (sp_dependents x s) else sp_dependents x' s)"
  by (simp add: sp_index_pending_def sp_dependents_def map_simps)

lemma sp_dependents_same [simp]:
  "sp_dependents x (s\<lparr>sp_pending := m\<rparr>) = sp_dependents x s"
  "sp_dependents x (s\<lparr>sp_processing := p\<rparr>) = sp_dependents x s"
  "sp_dependents x (s\<lparr>sp_jobs := jb\<rparr>) = sp_dependents x s"
  by (simp_all add: sp_dependents_def)

lemma sp_dependents_del [simp]:
  "sp_dependents x' (s\<lparr>sp_by_dependency := map_del x (sp_by_dependency s)\<rparr>) = (if x' = x then [] else sp_dependents x' s)"
  by (simp add: sp_dependents_def map_simps)

lemma sp_dependents_remove [simp]:
  "sp_dependents x' (sp_remove_pending i x s) = (if x' = x then removeAll i (sp_dependents x s) else sp_dependents x' s)"
proof (cases "map_get (sp_by_dependency s) x")
  case None
  then show ?thesis by (simp add: sp_remove_pending_def sp_dependents_def)
next
  case (Some ds)
  then show ?thesis
    by (cases "removeAll i ds = []") (simp_all add: sp_remove_pending_def sp_dependents_def map_simps Let_def)
qed

lemma sp_dependents_forget [simp]:
  "sp_dependents x (sp_forget d s) = sp_dependents x s" "sp_dependents x (sp_completed d s) = sp_dependents x s"
  by (simp_all add: sp_dependents_def)

lemma sp_scheduled_jobs: "sp_jobs s' = sp_jobs s \<Longrightarrow> sp_scheduled j i s' = sp_scheduled j i s"
  by (simp add: sp_scheduled_def)

lemma sp_unresolved_ids:
  "sp_unresolved d s = Some (i, x) \<Longrightarrow> given (dl_message_id d) = Some i \<and> sp_depends_on d = Some x"
  by (auto simp: sp_unresolved_def split: option.splits if_splits)

lemma sp_park_index:
  assumes "sp_unresolved d s0 = Some (i, x)" "sp_reachable j todo s" "sp_keyed s"
  shows "sp_reachable j todo (fst (sp_park now c d i x s)) \<and> sp_keyed (fst (sp_park now c d i x s))"
proof (cases "map_has (sp_pending s) i")
  case False
  let ?s = "s\<lparr>sp_pending := map_set i \<lparr>pk_content = c, pk_message = d, pk_depends_on = x, pk_queued_at = now\<rparr> (sp_pending s)\<rparr>"
  have same: "sp_scheduled j k (sp_index_pending i x ?s) = sp_scheduled j k s" for k
    by (rule sp_scheduled_jobs) simp
  show ?thesis
    using assms(2,3) sp_unresolved_ids [OF assms(1)] False
    by (auto simp: sp_park_def sp_reachable_def sp_keyed_def same map_simps)
qed (use assms in \<open>simp add: sp_park_def\<close>)

lemma sp_process_index:
  assumes "sp_reachable (Some j) (sp_todo stack) s" "sp_keyed s"
  shows "sp_index_inv (fst (sp_process j now c d stack s))"
proof -
  define q where "q = fst (sp_process j now c d stack s)"
  have sched: "i \<in> set (sp_todo stack) \<or> sp_scheduled (Some j) i s \<longrightarrow> sp_scheduled None i q" for i
    unfolding q_def sp_scheduled_def sp_process_def by (auto simp: map_simps)
  have "sp_pending q = sp_pending s" "sp_dependents x q = sp_dependents x s" for x
    by (simp_all add: q_def sp_process_def)
  with assms sched show ?thesis
    unfolding q_def [symmetric] by (simp add: sp_index_inv_def sp_reachable_def sp_keyed_def) blast
qed

lemma sp_resume_index:
  "sp_reachable (Some j) (sp_todo stack) s \<Longrightarrow> sp_keyed s \<Longrightarrow> sp_index_inv (fst (sp_resume j now stack s))"
proof (induction j now stack s rule: sp_resume.induct)
  case (1 j now s)
  have "sp_scheduled None i (s\<lparr>sp_jobs := map_del j (sp_jobs s)\<rparr>) = sp_scheduled (Some j) i s" for i
    by (auto simp: sp_scheduled_def map_simps)
  with 1 show ?case by (auto simp: sp_index_inv_def sp_reachable_def sp_keyed_def)
next
  case (2 j now p t stack s)
  then show ?case by simp
next
  case (3 j now p t i todo stack s)
  show ?case
  proof (cases "map_get (sp_pending s) i")
    case None
    have "sp_reachable (Some j) (sp_todo ((p, t, todo) # stack)) s"
      unfolding sp_reachable_def
    proof (intro allI impI)
      fix k pk assume "map_get (sp_pending s) k = Some pk"
      with None "3.prems"(1) show "k \<in> set (sp_dependents (pk_depends_on pk) s) \<or>
          k \<in> set (sp_todo ((p, t, todo) # stack)) \<or> sp_scheduled (Some j) k s"
        by (cases "k = i") (auto simp: sp_reachable_def)
    qed
    with 3 None show ?thesis by simp
  next
    case (Some pk)
    define s1 where "s1 = s\<lparr>sp_pending := map_del i (sp_pending s)\<rparr>"
    have sched: "sp_scheduled (Some j) k s1 = sp_scheduled (Some j) k s" for k
      by (rule sp_scheduled_jobs) (simp add: s1_def)
    have reach: "sp_reachable (Some j) (sp_todo ((p, t, todo) # stack)) s1" and keyed: "sp_keyed s1"
      using "3.prems" by (auto simp: sp_reachable_def sp_keyed_def sched) (auto simp: s1_def map_simps split: if_splits)
    show ?thesis
    proof (cases "sp_unresolved (pk_message pk) s1")
      case None
      then show ?thesis using sp_process_index [OF reach keyed] Some by (simp add: s1_def)
    next
      case unresolved: (Some ix)
      obtain i' x where ix: "ix = (i', x)" by (cases ix)
      define r where "r = sp_park now (pk_content pk) (pk_message pk) i' x s1"
      have "sp_reachable (Some j) (sp_todo ((p, t, todo) # stack)) (fst r) \<and> sp_keyed (fst r)"
        unfolding r_def using sp_park_index [OF _ reach keyed] unresolved ix by simp
      moreover have "fst (sp_resume j now ((p, t, i # todo) # stack) s) = fst (sp_resume j now ((p, t, todo) # stack) (fst r))"
        using Some unresolved by (simp add: s1_def [symmetric] ix r_def split_def)
      moreover note "3.IH"(2) [OF Some s1_def unresolved ix [symmetric], of "fst r" "snd r"]
      ultimately show ?thesis by (simp add: r_def [symmetric] del: sp_resume.simps)
    qed
  qed
qed

lemma sp_scheduled_job:
  "map_get (sp_jobs s) j = Some job \<Longrightarrow> sp_scheduled None i s \<Longrightarrow>
     i \<in> set (sp_todo (job_stack job)) \<or> sp_scheduled (Some j) i s"
  unfolding sp_scheduled_def by force

lemma sp_reachable_mono:
  assumes "sp_reachable None [] s" "map_get (sp_jobs s) j = Some job"
  shows "sp_reachable (Some j) (sp_todo (job_stack job)) s"
  using assms(1) sp_scheduled_job [OF assms(2)] by (auto simp: sp_reachable_def)

lemma sp_reachable_cong:
  "sp_pending s' = sp_pending s \<Longrightarrow> sp_jobs s' = sp_jobs s \<Longrightarrow> (\<And>x. sp_dependents x s' = sp_dependents x s) \<Longrightarrow>
   sp_reachable j todo s' = sp_reachable j todo s"
  by (simp add: sp_reachable_def sp_scheduled_def)

lemma sp_keyed_cong: "sp_pending s' = sp_pending s \<Longrightarrow> sp_keyed s' = sp_keyed s"
  by (simp add: sp_keyed_def)

lemma sp_success_index:
  assumes "sp_index_inv s" shows "sp_index_inv (fst (sp_success j now s))"
proof (cases "map_get (sp_jobs s) j")
  case (Some job)
  define s1 where "s1 = sp_completed (job_message job) s"
  have s1: "sp_pending s1 = sp_pending s" "sp_jobs s1 = sp_jobs s" "sp_dependents x s1 = sp_dependents x s" for x
    by (simp_all add: s1_def)
  have inv: "sp_reachable (Some j) (sp_todo (job_stack job)) s1" "sp_keyed s1"
    using assms sp_reachable_mono [OF _ Some] sp_reachable_cong [OF s1] sp_keyed_cong [OF s1(1)]
    by (auto simp: sp_index_inv_def)
  have released: "sp_reachable (Some j) (ds @ sp_todo (job_stack job)) (s1\<lparr>sp_by_dependency := map_del x (sp_by_dependency s1)\<rparr>)"
    if "map_get (sp_by_dependency s1) x = Some ds" for x ds
  proof -
    have "sp_dependents x s1 = ds" using that by (simp add: sp_dependents_def)
    moreover have "sp_scheduled (Some j) i (s1\<lparr>sp_by_dependency := m\<rparr>) = sp_scheduled (Some j) i s1" for i m
      by (rule sp_scheduled_jobs) simp
    ultimately show ?thesis using inv(1) by (auto simp: sp_reachable_def)
  qed
  have keyed: "sp_keyed (s1\<lparr>sp_by_dependency := m\<rparr>)" for m
    using inv(2) by (simp add: sp_keyed_def)
  define fin where "fin = OnSuccess (job_message job) False (Some (now - job_start job))"
  have success: "sp_success j now s = (case Option.bind (dl_message_id (job_message job)) (map_get (sp_by_dependency s1)) of
              None \<Rightarrow> apsnd (\<lambda>out. fin # out) (sp_resume j now (job_stack job) s1)
            | Some dependents \<Rightarrow>
                apsnd (\<lambda>out. fin # out)
                  (sp_resume j now ((job_message job, job_start job, dependents) # job_stack job)
                     (s1\<lparr>sp_by_dependency := map_del (the (dl_message_id (job_message job))) (sp_by_dependency s1)\<rparr>)))"
    unfolding sp_success_def Let_def Some option.case s1_def fin_def by (rule refl)
  show ?thesis
  proof (cases "Option.bind (dl_message_id (job_message job)) (map_get (sp_by_dependency s1))")
    case None
    then show ?thesis using sp_resume_index [OF inv] by (simp add: success)
  next
    case (Some ds)
    then obtain x where x: "dl_message_id (job_message job) = Some x" "map_get (sp_by_dependency s1) x = Some ds"
      by (auto simp: bind_eq_Some_conv)
    then show ?thesis
      using sp_resume_index [OF _ keyed, of j "(job_message job, job_start job, ds) # job_stack job"] released [OF x(2)]
      by (simp add: success)
  qed
qed (use assms in \<open>simp add: sp_success_def\<close>)

lemma sp_failure_index:
  assumes "sp_index_inv s" "describable error" shows "sp_index_inv (fst (sp_failure rq j now error s))"
proof (cases "map_get (sp_jobs s) j")
  case (Some job)
  let ?s1 = "sp_forget (job_message job) s"
  have "sp_reachable (Some j) (sp_todo (job_stack job)) ?s1" "sp_keyed ?s1"
    using assms(1) sp_reachable_mono [OF _ Some] sp_reachable_cong [of ?s1 s] sp_keyed_cong [of ?s1 s]
    by (auto simp: sp_index_inv_def)
  from sp_resume_index [OF this] show ?thesis using Some assms(2) by (simp add: sp_failure_def Let_def)
qed (use assms in \<open>simp add: sp_failure_def\<close>)

lemma sp_remove_index:
  assumes "sp_index_inv s" "map_get (sp_pending s) i = Some pk"
  shows "sp_index_inv (sp_remove_pending i (pk_depends_on pk) s)"
proof -
  have "sp_scheduled None k (sp_remove_pending i (pk_depends_on pk) s) = sp_scheduled None k s" for k
    by (rule sp_scheduled_jobs) simp
  then show ?thesis
    using assms by (auto simp: sp_index_inv_def sp_reachable_def sp_keyed_def map_simps) metis
qed

lemma sp_expire_index:
  "sp_index_inv s \<Longrightarrow> distinct (map fst entries) \<Longrightarrow>
     (\<And>i pk. (i, pk) \<in> set entries \<Longrightarrow> map_get (sp_pending s) i = Some pk) \<Longrightarrow>
   sp_index_inv (fst (sp_expire rq now entries s)) \<and>
   (\<forall>i pk. map_get (sp_pending (fst (sp_expire rq now entries s))) i = Some pk \<longrightarrow>
      map_get (sp_pending s) i = Some pk \<and> ((i, pk) \<in> set entries \<longrightarrow> \<not> now - pk_queued_at pk > sp_stale_timeout s))
   \<and> sp_processing (fst (sp_expire rq now entries s)) = sp_processing s"
proof (induction rq now entries s rule: sp_expire.induct)
  case (2 rq now i pk entries s)
  define s1 where "s1 = sp_remove_pending i (pk_depends_on pk) s"
  have s1: "sp_pending s1 = map_del i (sp_pending s)" "sp_stale_timeout s1 = sp_stale_timeout s"
    "sp_processing s1 = sp_processing s" by (simp_all add: s1_def)
  have inv1: "sp_index_inv s1" unfolding s1_def
    by (rule sp_remove_index [OF "2.prems"(1)]) (simp add: "2.prems"(3))
  have entries1: "map_get (sp_pending s1) k = Some v" if "(k, v) \<in> set entries" for k v
    using "2.prems"(2) "2.prems"(3) [of k v] that by (force simp: s1 map_simps)
  have rest: "\<And>k v. (k, v) \<in> set entries \<Longrightarrow> map_get (sp_pending s) k = Some v" using "2.prems"(3) by simp
  show ?case
  proof (cases "now - pk_queued_at pk > sp_stale_timeout s")
    case True
    have "distinct (map fst entries)" using "2.prems"(2) by simp
    note IH = "2.IH"(1) [OF True refl refl inv1 [unfolded s1_def] this entries1 [unfolded s1_def], folded s1_def]
    define r where "r = fst (sp_expire rq now entries s1)"
    have later: "k \<noteq> i \<and> map_get (sp_pending s) k = Some v \<and>
        ((k, v) \<in> set entries \<longrightarrow> \<not> now - pk_queued_at v > sp_stale_timeout s)"
      if "map_get (sp_pending r) k = Some v" for k v
    proof -
      have "map_get (sp_pending s1) k = Some v" using IH that by (simp add: r_def)
      then have "k \<noteq> i" "map_get (sp_pending s) k = Some v" by (simp_all add: s1(1) map_get_del split: if_splits)
      with IH that show ?thesis by (simp add: r_def s1(2))
    qed
    have "fst (sp_expire rq now ((i, pk) # entries) s) = r" using True by (simp add: Let_def r_def s1_def)
    moreover have "sp_index_inv r" "sp_processing r = sp_processing s" using IH by (simp_all add: r_def s1)
    ultimately show ?thesis using later by auto
  next
    case False
    with "2.IH"(2) [OF False "2.prems"(1) _ rest] "2.prems"(2) show ?thesis by auto
  qed
qed simp

lemma sp_cleanup_index:
  assumes "sp_index_inv s" "sp_inv s"
  shows "sp_index_inv (fst (sp_cleanup rq now s))"
    and "map_get (sp_pending (fst (sp_cleanup rq now s))) i = Some pk \<Longrightarrow> now - pk_queued_at pk \<le> sp_stale_timeout s"
    and "map_get (sp_processing (fst (sp_cleanup rq now s))) i = Some t \<Longrightarrow> now - t \<le> sp_stale_timeout s"
proof -
  let ?s1 = "s\<lparr>sp_processing := filter (\<lambda>(i, start). \<not> now - start > sp_stale_timeout s) (sp_processing s)\<rparr>"
  have "sp_index_inv ?s1"
    using assms(1) sp_reachable_cong [of ?s1 s] sp_keyed_cong [of ?s1 s] by (simp add: sp_index_inv_def)
  then have "sp_index_inv (fst (sp_cleanup rq now s)) \<and>
     (\<forall>i pk. map_get (sp_pending (fst (sp_cleanup rq now s))) i = Some pk \<longrightarrow>
        map_get (sp_pending s) i = Some pk \<and> ((i, pk) \<in> set (sp_pending s) \<longrightarrow> \<not> now - pk_queued_at pk > sp_stale_timeout s))
     \<and> sp_processing (fst (sp_cleanup rq now s)) = sp_processing ?s1"
    using sp_expire_index [of ?s1 "sp_pending ?s1" rq now] sp_entries [of "sp_pending s"] assms(2)
    by (simp add: sp_cleanup_def Let_def sp_inv_def)
  note cleanup = this
  show "sp_index_inv (fst (sp_cleanup rq now s))" using cleanup by blast
  show "map_get (sp_pending (fst (sp_cleanup rq now s))) i = Some pk \<Longrightarrow> now - pk_queued_at pk \<le> sp_stale_timeout s"
    using cleanup map_get_in [of "sp_pending s" i pk] by force
  show "map_get (sp_processing (fst (sp_cleanup rq now s))) i = Some t \<Longrightarrow> now - t \<le> sp_stale_timeout s"
    using cleanup map_get_in [of "sp_processing (fst (sp_cleanup rq now s))" i t] by force
qed

lemma sp_handle_index:
  assumes "sp_index_inv s" "\<not> map_has (sp_jobs s) j" shows "sp_index_inv (fst (sp_handle j now c d s))"
proof -
  have "map_get (sp_jobs s) j = None" using assms(2) by (simp add: map_has_def)
  then have "sp_scheduled (Some j) i s = sp_scheduled None i s" for i
    unfolding sp_scheduled_def by (metis option.distinct(1) option.inject)
  with assms(1) have reach: "sp_reachable (Some j) (sp_todo []) s" "sp_reachable None [] s" "sp_keyed s"
    by (auto simp: sp_index_inv_def sp_reachable_def)
  show ?thesis
    using sp_park_index [OF _ reach(2,3)] sp_process_index [OF reach(1,3)]
    by (auto simp: sp_handle_def sp_index_inv_def split: option.split)
qed

interpretation sp_index: event_machine "sp_step rq" sp_ok "\<lambda>s. sp_inv s \<and> sp_index_inv s" for rq
proof
  fix s e assume inv: "sp_inv s \<and> sp_index_inv s" and ok: "sp_ok e"
  have "sp_index_inv (fst (sp_step rq s e))"
    using inv ok sp_handle_index sp_success_index sp_failure_index sp_cleanup_index(1) by (cases e) auto
  then show "sp_inv (fst (sp_step rq s e)) \<and> sp_index_inv (fst (sp_step rq s e))"
    using sp.step_inv inv ok by auto
qed

lemma sp_new_inv: "sp_inv (sp_new t)" "sp_index_inv (sp_new t)" "sp_tracked (sp_new t) = {#}"
  by (simp_all add: sp_new_def Let_def sp_inv_def sp_index_inv_def sp_reachable_def sp_keyed_def
      sp_tracked_def sp_parked_messages_def sp_running_messages_def)

section \<open>The order of dependents\<close>






section \<open>Properties\<close>

definition sp_sample :: "nat \<Rightarrow> string \<Rightarrow> string option \<Rightarrow> delivery" where
  "sp_sample tag i dep = (plain_delivery tag)\<lparr>dl_message_id := Some i,
     dl_headers := (case dep of None \<Rightarrow> JUndef | Some x \<Rightarrow> JObj True [(''depends-on'', JStr x)])\<rparr>"

text \<open>
  C9: Every delivery is settled exactly once. In every run of the processor, for any arrival
  order, outcomes and sweeps, the deliveries handed to \<open>handle\<close> are, counted with
  multiplicity, exactly those reported to \<open>onSuccess\<close> or \<open>onFailure\<close> plus those parked or in
  a callback, as long as handlers throw what can be described and the processor lives.
\<close>

theorem sequential_settles_every_delivery:
  assumes "list_all sp_ok es" and "(s, out) = run_machine (sp_step rq) (sp_new stale_timeout) es"
  shows "total_entered (sp_step rq) sp_entered (sp_new stale_timeout) es =
    image_mset pk_message (vals_of (sp_pending s)) + image_mset job_message (vals_of (sp_jobs s))
      + total_settled sp_settles out"
proof -
  have "s = fst (run_machine (sp_step rq) (sp_new stale_timeout) es)"
    "out = snd (run_machine (sp_step rq) (sp_new stale_timeout) es)"
    using assms(2) by (metis fst_conv, metis snd_conv)
  then have "total_entered (sp_step rq) sp_entered (sp_new stale_timeout) es = sp_tracked s + total_settled sp_settles out"
    using sp.run_conserves [OF sp_new_inv(1) assms(1), of stale_timeout rq] by (simp add: sp_new_inv(3))
  then show ?thesis
    by (simp add: sp_tracked_def sp_parked_messages_def sp_running_messages_def)
qed

theorem sequential_settles_every_delivery_witness:
  "total_entered (sp_step (\<lambda>m e. False)) sp_entered (sp_new None)
      [Handle 0 1 JNull (sp_sample 1 ''a'' None), Handle 1 2 JNull (sp_sample 2 ''b'' (Some ''a'')),
       CallbackDone 0 3, CallbackFailed 0 4 JNull]
    = total_settled sp_settles [Invoke 0 (sp_sample 1 ''a'' None) JNull, OnSuccess (sp_sample 1 ''a'' None) False (Some 2),
        Invoke 0 (sp_sample 2 ''b'' (Some ''a'')) JNull, OnFailure (sp_sample 2 ''b'' (Some ''a'')) JNull False (Some 1)]"
proof -
  define es where "es = [Handle 0 1 JNull (sp_sample 1 ''a'' None), Handle 1 2 JNull (sp_sample 2 ''b'' (Some ''a'')),
       CallbackDone 0 3, CallbackFailed 0 4 JNull]"
  define r where "r = run_machine (sp_step (\<lambda>m e. False)) (sp_new None) es"
  have "describable JNull" by (simp add: describable_def describe_line_def describe_error_def)
  then have "sp_pending (fst r) = [] \<and> sp_jobs (fst r) = []"
    and "snd r = [Invoke 0 (sp_sample 1 ''a'' None) JNull, OnSuccess (sp_sample 1 ''a'' None) False (Some 2),
        Invoke 0 (sp_sample 2 ''b'' (Some ''a'')) JNull, OnFailure (sp_sample 2 ''b'' (Some ''a'')) JNull False (Some 1)]"
    by (simp_all add: r_def es_def run_machine.simps(2) sp_new_def sp_handle_def sp_unresolved_def sp_depends_on_def
        dl_header_def sp_sample_def plain_delivery_def sp_process_def sp_park_def sp_success_def sp_failure_def
        sp_completed_def sp_forget_def sp_index_pending_def sp_dependents_def set_add_def map_has_def Let_def
        del: run_machine_simps)
  moreover have "list_all sp_ok es" using \<open>describable JNull\<close> by (simp add: es_def)
  moreover have "(fst r, snd r) = run_machine (sp_step (\<lambda>m e. False)) (sp_new None) es" by (simp add: r_def)
  ultimately show ?thesis
    unfolding es_def [symmetric]
    using sequential_settles_every_delivery [of es "fst r" "snd r" "\<lambda>m e. False" None] by simp
qed

text \<open>
  No parked message is forgotten. In every reachable state each parked message is filed
  under its own id, and it is indexed under its dependency, so that the success of the
  dependency releases it, or is already on the list of dependents a running job is working
  off; and after a sweep no entry older than \<open>staleTimeout\<close> is left, parked or processing.
\<close>

theorem sequential_parked_reachable:
  assumes "list_all sp_ok es" and "s = fst (run_machine (sp_step rq) (sp_new stale_timeout) es)"
  shows "(map_get (sp_pending s) i = Some pk \<longrightarrow>
            dl_message_id (pk_message pk) = Some i \<and> sp_depends_on (pk_message pk) = Some (pk_depends_on pk) \<and>
            (i \<in> set (sp_dependents (pk_depends_on pk) s) \<or>
             (\<exists>j job. map_get (sp_jobs s) j = Some job \<and> i \<in> set (sp_todo (job_stack job)))))
       \<and> (map_get (sp_pending (fst (sp_cleanup rq now s))) i = Some pk \<longrightarrow> now - pk_queued_at pk \<le> sp_stale_timeout s)
       \<and> (map_get (sp_processing (fst (sp_cleanup rq now s))) i = Some t \<longrightarrow> now - t \<le> sp_stale_timeout s)"
proof -
  have "sp_inv s \<and> sp_index_inv s"
    unfolding assms(2) by (rule sp_index.run_inv [OF _ assms(1)]) (simp add: sp_new_inv)
  then show ?thesis
    using sp_cleanup_index [of s] by (auto simp: sp_index_inv_def sp_reachable_def sp_keyed_def sp_scheduled_def)
qed

theorem sequential_parked_reachable_witness:
  "let s = fst (run_machine (sp_step (\<lambda>m e. False)) (sp_new None)
        [Handle 0 1 JNull (sp_sample 1 ''a'' None), Handle 1 2 JNull (sp_sample 2 ''b'' (Some ''a''))])
   in dl_message_id (sp_sample 2 ''b'' (Some ''a'')) = Some ''b'' \<and> ''b'' \<in> set (sp_dependents ''a'' s)"
proof -
  define es where "es = [Handle 0 1 JNull (sp_sample 1 ''a'' None), Handle 1 2 JNull (sp_sample 2 ''b'' (Some ''a''))]"
  define s where "s = fst (run_machine (sp_step (\<lambda>m e. False)) (sp_new None) es)"
  define pk where "pk = \<lparr>pk_content = JNull, pk_message = sp_sample 2 ''b'' (Some ''a''), pk_depends_on = ''a'', pk_queued_at = 2\<rparr>"
  have "map_get (sp_pending s) ''b'' = Some pk" "sp_jobs s = [(0, \<lparr>job_message = sp_sample 1 ''a'' None, job_start = 1, job_stack = []\<rparr>)]"
    by (simp_all add: s_def es_def pk_def run_machine.simps(2) sp_new_def sp_handle_def sp_unresolved_def sp_depends_on_def
        dl_header_def sp_sample_def plain_delivery_def sp_process_def sp_park_def sp_index_pending_def
        sp_dependents_def set_add_def map_has_def Let_def del: run_machine_simps)
  moreover have "list_all sp_ok es" by (simp add: es_def)
  ultimately show ?thesis
    unfolding Let_def es_def [symmetric] s_def [symmetric]
    using sequential_parked_reachable [OF _ s_def, of "''b''" pk 0 0] by (auto simp: pk_def split: if_splits)
qed



text \<open>
  A handler that throws an object without a prototype derails the settlement of a
  dependent. The dependent is reported neither as a success nor as a failure, the message whose
  success released it is reported a second time, now as a failure, and the dependents after it
  stay parked although their dependency is done.
\<close>

theorem sequential_undescribable_failure:
  "let a = sp_sample 1 ''a'' None; b = sp_sample 2 ''b'' (Some ''a''); c = sp_sample 3 ''c'' (Some ''a'');
       r = run_machine (sp_step rq) (sp_new None)
             [Handle 0 1 JNull a, Handle 1 2 JNull b, Handle 2 2 JNull c, CallbackDone 0 3,
              CallbackFailed 0 4 (JObj False [])]
   in snd r = [Invoke 0 a JNull, OnSuccess a False (Some 2), Invoke 0 b JNull, OnFailure a type_error (rq a type_error) (Some 3)]
    \<and> sp_jobs (fst r) = [] \<and> map_has (sp_pending (fst r)) ''c'' \<and> sp_by_dependency (fst r) = []"
proof -
  have "\<not> describable (JObj False [])"
    by (simp add: describable_def describe_line_def describe_error_def)
  then show ?thesis
    by (simp add: run_machine.simps(2) sp_new_def sp_handle_def sp_unresolved_def sp_depends_on_def
        dl_header_def sp_sample_def plain_delivery_def sp_process_def sp_park_def sp_success_def sp_failure_def
        sp_completed_def sp_forget_def sp_index_pending_def sp_dependents_def set_add_def map_has_def Let_def
        del: run_machine_simps)
qed

end
