(* ===== verification/Consume_Pipeline.thy ===== *)
theory Consume_Pipeline
  imports Settlement Sequential_Processor
begin

text \<open>
  The consume pipeline of \<open>src/consumers/consumer-manager.js\<close>: what happens to one delivery
  from its arrival to its settlement, for \<open>subscribe\<close> (decode, handler, acknowledgement,
  report; or the one catch with the retry policy) and for \<open>subscribeSequential\<close> (the outcomes
  of the sequential processor turned into settlements). A handler is represented by what a
  call of it does: the settlements it makes itself and the value it throws, if any. The
  listeners of the facade's emitter are represented by what they do (\<open>emit-safely.js\<close>).
\<close>

section \<open>Reporting\<close>

datatype pipe_event =
    MessageProcessed string "string option" "rat option"
  | MessageFailed string "string option" "rat option" jsval bool

datatype pipe_out =
    Broker broker_call
  | Emitted pipe_event
  | LogLine string
  | Unhandled jsval

text \<open>\<open>emitOutcome\<close>: the facade's emit, and the catch around it.\<close>

definition emit_outcome :: "string \<Rightarrow> listener_result list \<Rightarrow> string list \<times> jsval option" where
  "emit_outcome event listeners = (case emit_safely event listeners of
      (acts, Inr _) \<Rightarrow> ([], None)
    | (acts, Inl error) \<Rightarrow>
        (case describe_line (''A '' @ [CHR 0x27] @ event @ [CHR 0x27] @ '' listener threw: '') error of
           Inr line \<Rightarrow> ([line], None)
         | Inl escaped \<Rightarrow> ([], Some escaped)))"

record subscription =
  sb_queue :: string
  sb_no_ack :: bool
  sb_policy :: retry_policy
  sb_platform :: platform
  sb_codec :: codec
  sb_on_processed :: "listener_result list"
  sb_on_failed :: "listener_result list"

definition events_processed :: "subscription \<Rightarrow> delivery \<Rightarrow> rat option \<Rightarrow> pipe_out list \<times> jsval option" where
  "events_processed sub d duration =
     (if sb_on_processed sub = [] then ([], None)
      else case emit_outcome ''messageProcessed'' (sb_on_processed sub) of
        (lines, r) \<Rightarrow> (Emitted (MessageProcessed (sb_queue sub) (dl_message_id d) duration) # map LogLine lines, r))"

definition events_failed :: "subscription \<Rightarrow> delivery \<Rightarrow> jsval \<Rightarrow> bool \<Rightarrow> rat option \<Rightarrow> pipe_out list \<times> jsval option" where
  "events_failed sub d error requeue duration =
     (if sb_on_failed sub = [] then ([], None)
      else case emit_outcome ''messageFailed'' (sb_on_failed sub) of
        (lines, r) \<Rightarrow>
          (Emitted (MessageFailed (sb_queue sub) (dl_message_id d) duration error
             (if sb_no_ack sub then False else requeue)) # map LogLine lines, r))"

section \<open>The pipeline of \<open>subscribe\<close>\<close>

record handler_result =
  hr_ops :: "settle_op list"
  hr_error :: "jsval option"

text \<open>The clock at the arrival, the start and the end of the handler, and at the catch.\<close>

record pipe_times =
  pt_arrived :: rat
  pt_started :: rat
  pt_handled :: rat
  pt_caught :: rat

text \<open>The catch of \<open>wrappedCallback\<close>; \<open>throws\<close> is what the channel does on a settlement.\<close>

definition pipe_failure :: "subscription \<Rightarrow> nat \<Rightarrow> delivery \<Rightarrow> jsval option \<Rightarrow> pipe_times \<Rightarrow> jsval \<Rightarrow>
    msg_state \<Rightarrow> msg_state \<times> pipe_out list" where
  "pipe_failure sub ch d throws tm error m =
     (case describe_line ''Error processing message: '' error of
        Inl escaped \<Rightarrow> (m, [Unhandled escaped])
      | Inr line \<Rightarrow>
          (let requeue = should_requeue d error (sb_policy sub);
               (m1, calls) = (if sb_no_ack sub then (m, []) else settle_ack d ch False requeue throws m);
               (outs, r) = events_failed sub d error requeue (Some (pt_caught tm - pt_arrived tm))
           in (m1, LogLine line # map Broker calls @ outs @
                 (case r of None \<Rightarrow> [] | Some escaped \<Rightarrow> [Unhandled escaped]))))"

text \<open>
  The processor of \<open>subscribe\<close>: the handler with the settlements it makes itself, the
  acknowledgement, the report. The third component is what it throws, if anything.
\<close>

definition plain_processor :: "subscription \<Rightarrow> nat \<Rightarrow> jsval \<Rightarrow> delivery \<Rightarrow> (jsval \<Rightarrow> delivery \<Rightarrow> handler_result) \<Rightarrow>
    jsval option \<Rightarrow> pipe_times \<Rightarrow> msg_state \<Rightarrow> msg_state \<times> pipe_out list \<times> jsval option" where
  "plain_processor sub ch content d handler throws tm m0 =
     (let hr = handler content d;
          (m1, sent) = run_machine (settle_step d) m0 (hr_ops hr)
      in case hr_error hr of
           Some error \<Rightarrow> (m1, map Broker sent, Some error)
         | None \<Rightarrow>
             (let (m2, calls) = (if sb_no_ack sub then (m1, []) else settle_ack d ch True False throws m1);
                  (outs, r) = events_processed sub d (Some (pt_handled tm - pt_started tm))
              in (m2, map Broker sent @ map Broker calls @ outs, r)))"

definition consume_delivery :: "subscription \<Rightarrow> nat \<Rightarrow> delivery \<Rightarrow> (jsval \<Rightarrow> delivery \<Rightarrow> handler_result) \<Rightarrow>
    jsval option \<Rightarrow> pipe_times \<Rightarrow> msg_state \<times> pipe_out list" where
  "consume_delivery sub ch d handler throws tm =
     (let m0 = attach_ack_controls ch;
          is_compressed = truthy (dl_header d ''x-compressed'')
      in case decode (sb_platform sub) (sb_codec sub) (dl_content d) is_compressed of
           Inl error \<Rightarrow> pipe_failure sub ch d throws tm error m0
         | Inr content \<Rightarrow>
             (case plain_processor sub ch content d handler throws tm m0 of
                (m, outs, None) \<Rightarrow> (m, outs)
              | (m, outs, Some error) \<Rightarrow> apsnd (\<lambda>outs'. outs @ outs') (pipe_failure sub ch d throws tm error m)))"

section \<open>Reports never fail\<close>

lemma emit_loop_escapes: "snd (emit_loop event i rs) \<in> {None, Some type_error}"
proof (induction rs arbitrary: i)
  case (Cons r rs)
  have "describe_line p e \<noteq> Inl x \<or> x = type_error" for p e x
    by (auto simp: describe_line_def describe_error_def Let_def split: option.splits)
  then show ?case
    using Cons [of "Suc i"]
    by (auto simp: emit_report_def split: listener_result.split sum.split)
qed simp

lemma emit_outcome_contained: "snd (emit_outcome event listeners) = None"
proof -
  have "snd (emit_safely event listeners) = Inl e \<Longrightarrow> e = type_error" for e
    using emit_loop_escapes [of event 0 listeners]
    by (auto simp: emit_safely_def split: prod.splits option.splits)
  moreover have "\<exists>s. describe_line p type_error = Inr s" for p
    by (rule describable_line) (simp add: describable_def describe_line_def describe_error_def type_error_def js_simps)
  moreover have "describe_line p type_error \<noteq> Inl x" for p x
    using calculation(2) [of p] by auto
  ultimately show ?thesis
    by (auto simp: emit_outcome_def split: prod.splits sum.splits)
qed

lemma events_contained [simp]:
  "snd (events_processed sub d t) = None" "snd (events_failed sub d e q t) = None"
  using emit_outcome_contained by (auto simp: events_processed_def events_failed_def split_def)

definition broker_calls :: "pipe_out list \<Rightarrow> broker_call list" where
  "broker_calls outs = concat (map (\<lambda>x. case x of Broker c \<Rightarrow> [c] | _ \<Rightarrow> []) outs)"

lemma broker_calls_simps [simp]:
  "broker_calls [] = []" "broker_calls (Broker c # outs) = c # broker_calls outs"
  "broker_calls (Emitted e # outs) = broker_calls outs" "broker_calls (LogLine l # outs) = broker_calls outs"
  "broker_calls (Unhandled v # outs) = broker_calls outs"
  "broker_calls (outs @ outs') = broker_calls outs @ broker_calls outs'"
  by (simp_all add: broker_calls_def)

lemma broker_calls_map [simp]: "broker_calls (map Broker calls) = calls" "broker_calls (map LogLine ls) = []"
proof -
  show "broker_calls (map Broker calls) = calls" by (induction calls) simp_all
  show "broker_calls (map LogLine ls) = []" by (induction ls) simp_all
qed

lemma broker_calls_events [simp]:
  "broker_calls (fst (events_processed sub d t)) = []" "broker_calls (fst (events_failed sub d e q t)) = []"
  by (auto simp: events_processed_def events_failed_def split_def)

lemma unhandled_events [simp]:
  "Unhandled v \<notin> set (fst (events_processed sub d t))" "Unhandled v \<notin> set (fst (events_failed sub d e q t))"
  by (auto simp: events_processed_def events_failed_def split_def)

lemma pipe_failure_describable:
  assumes "describable error"
  shows "broker_calls (snd (pipe_failure sub ch d throws tm error m)) =
      (if sb_no_ack sub then [] else snd (settle_ack d ch False (should_requeue d error (sb_policy sub)) throws m))"
    and "Unhandled v \<notin> set (snd (pipe_failure sub ch d throws tm error m))"
proof -
  obtain line where "describe_line ''Error processing message: '' error = Inr line"
    using describable_line [OF assms] by blast
  then show "broker_calls (snd (pipe_failure sub ch d throws tm error m)) =
      (if sb_no_ack sub then [] else snd (settle_ack d ch False (should_requeue d error (sb_policy sub)) throws m))"
    "Unhandled v \<notin> set (snd (pipe_failure sub ch d throws tm error m))"
    by (auto simp: pipe_failure_def Let_def split_def)
qed

section \<open>Every delivery is settled\<close>

text \<open>The settlements a handler makes itself and the error of a delivery, if any.\<close>

definition delivery_outcome :: "subscription \<Rightarrow> delivery \<Rightarrow> (jsval \<Rightarrow> delivery \<Rightarrow> handler_result) \<Rightarrow>
    settle_op list \<times> jsval option" where
  "delivery_outcome sub d handler =
     (case decode (sb_platform sub) (sb_codec sub) (dl_content d) (truthy (dl_header d ''x-compressed'')) of
        Inl error \<Rightarrow> ([], Some error)
      | Inr content \<Rightarrow> (hr_ops (handler content d), hr_error (handler content d)))"

lemma consume_delivery_outcome:
  fixes ch :: nat
  assumes "\<forall>error. snd (delivery_outcome sub d handler) = Some error \<longrightarrow> describable error"
  defines "r \<equiv> run_machine (settle_step d) (attach_ack_controls ch) (fst (delivery_outcome sub d handler))"
  shows "broker_calls (snd (consume_delivery sub ch d handler throws tm)) = snd r @
      (if sb_no_ack sub then []
       else snd (case snd (delivery_outcome sub d handler) of
              None \<Rightarrow> settle_ack d ch True False throws (fst r)
            | Some error \<Rightarrow> settle_ack d ch False (should_requeue d error (sb_policy sub)) throws (fst r)))
    \<and> Unhandled v \<notin> set (snd (consume_delivery sub ch d handler throws tm))"
proof (cases "decode (sb_platform sub) (sb_codec sub) (dl_content d) (truthy (dl_header d ''x-compressed''))")
  case (Inl error)
  then have out: "delivery_outcome sub d handler = ([], Some error)" by (simp add: delivery_outcome_def)
  then have "describable error" using assms(1) by simp
  note failure = pipe_failure_describable [OF this]
  show ?thesis using Inl out failure by (simp add: consume_delivery_def r_def)
next
  case (Inr content)
  define hr where "hr = handler content d"
  have out: "delivery_outcome sub d handler = (hr_ops hr, hr_error hr)"
    using Inr by (simp add: delivery_outcome_def hr_def)
  show ?thesis
  proof (cases "hr_error hr")
    case None
    then show ?thesis
      using Inr out by (auto simp: consume_delivery_def plain_processor_def r_def hr_def [symmetric] Let_def split_def)
  next
    case (Some error)
    then have "describable error" using assms(1) out by simp
    note failure = pipe_failure_describable [OF this]
    show ?thesis
      using Inr out Some failure by (auto simp: consume_delivery_def plain_processor_def r_def hr_def [symmetric] Let_def split_def)
  qed
qed

text \<open>
  C2: Every delivery is settled exactly once, with the right verdict. On a channel that takes
  the call, a delivery of a subscription with acknowledgements is settled with the broker by
  exactly one call, whatever the content decodes to and whatever settlements the handler makes
  itself, as long as the errors can be described. A handler that leaves the settlement to the
  library gets an ack when it returns and otherwise, as for content that cannot be decoded, a
  nack with the requeue flag of the retry policy; nothing escapes into the event loop.
\<close>

theorem consume_settles_once:
  assumes "\<not> sb_no_ack sub"
    and "\<forall>error. snd (delivery_outcome sub d handler) = Some error \<longrightarrow> describable error"
  shows "length (broker_calls (snd (consume_delivery sub ch d handler None tm))) = 1
    \<and> (fst (delivery_outcome sub d handler) = [] \<longrightarrow>
         broker_calls (snd (consume_delivery sub ch d handler None tm)) =
           [case snd (delivery_outcome sub d handler) of
              None \<Rightarrow> BrokerAck ch d
            | Some error \<Rightarrow> BrokerNack ch d (should_requeue d error (sb_policy sub))])
    \<and> (\<forall>v. Unhandled v \<notin> set (snd (consume_delivery sub ch d handler None tm)))"
proof -
  let ?r = "run_machine (settle_step d) (attach_ack_controls ch) (fst (delivery_outcome sub d handler))"
  have "length (snd ?r) = (if ms_settled (fst ?r) then 1 else 0)"
    using settle_run [of d "attach_ack_controls ch" "fst (delivery_outcome sub d handler)"]
    by (simp add: attach_ack_controls_def split: if_splits)
  then show ?thesis
    using consume_delivery_outcome [OF assms(2), of ch None tm] assms(1)
    by (auto simp: settle_ack_def attach_ack_controls_def split: option.splits)
qed

definition sample_subscription :: subscription where
  "sample_subscription = \<lparr>sb_queue = ''orders'', sb_no_ack = False, sb_policy = PolicyOnce,
     sb_platform = sample_platform, sb_codec = sample_codec, sb_on_processed = [], sb_on_failed = [Throws JNull]\<rparr>"

definition sample_times :: pipe_times where
  "sample_times = \<lparr>pt_arrived = 1, pt_started = 2, pt_handled = 3, pt_caught = 3\<rparr>"

lemma sample_decode:
  "decode (sb_platform sample_subscription) (sb_codec sample_subscription) (dl_content (plain_delivery 7))
     (truthy (dl_header (plain_delivery 7) ''x-compressed'')) = Inr (JStr [])"
  by (simp add: sample_subscription_def sample_platform_def sample_codec_def plain_delivery_def dl_header_def
      decode_def from_buffer_def)

theorem consume_settles_once_witness:
  "broker_calls (snd (consume_delivery sample_subscription 3 (plain_delivery 7)
      (\<lambda>c d. \<lparr>hr_ops = [], hr_error = Some JNull\<rparr>) None sample_times)) = [BrokerNack 3 (plain_delivery 7) True]"
proof -
  have out: "delivery_outcome sample_subscription (plain_delivery 7) (\<lambda>c d. \<lparr>hr_ops = [], hr_error = Some JNull\<rparr>)
      = ([], Some JNull)"
    using sample_decode by (simp add: delivery_outcome_def)
  have "\<not> sb_no_ack sample_subscription" "describable JNull"
    "should_requeue (plain_delivery 7) JNull (sb_policy sample_subscription)"
    by (simp_all add: sample_subscription_def describable_def describe_line_def describe_error_def
        should_requeue_def plain_delivery_def)
  then show ?thesis
    using consume_settles_once [of sample_subscription "plain_delivery 7" "\<lambda>c d. \<lparr>hr_ops = [], hr_error = Some JNull\<rparr>" 3 sample_times]
    by (simp add: out)
qed

text \<open>
  A handler that throws an object without a prototype derails the catch: the delivery is
  neither acknowledged nor rejected, no outcome is reported, and the exception leaves the
  consumer callback as an unhandled rejection.
\<close>

theorem undescribable_error_unsettled:
  assumes "delivery_outcome sub d handler = ([], Some (JObj False []))"
  shows "broker_calls (snd (consume_delivery sub ch d handler throws tm)) = []
    \<and> snd (consume_delivery sub ch d handler throws tm) = [Unhandled type_error]"
  using assms
  by (auto simp: delivery_outcome_def consume_delivery_def plain_processor_def pipe_failure_def describe_line_def describe_error_def
      split: sum.splits)

theorem undescribable_error_unsettled_witness:
  "snd (consume_delivery sample_subscription 3 (plain_delivery 7)
      (\<lambda>c d. \<lparr>hr_ops = [], hr_error = Some (JObj False [])\<rparr>) None sample_times) = [Unhandled type_error]"
  using undescribable_error_unsettled [of sample_subscription "plain_delivery 7"
      "\<lambda>c d. \<lparr>hr_ops = [], hr_error = Some (JObj False [])\<rparr>" 3 None sample_times] sample_decode
  by (simp add: delivery_outcome_def)

section \<open>The pipeline of \<open>subscribeSequential\<close>\<close>

text \<open>
  The processor of the current channel and the settlement state of the deliveries of that
  channel, by delivery tag (which a channel never uses twice).
\<close>

record seq_subscription =
  ss_processor :: sequential
  ss_messages :: "(nat, msg_state) jsmap"

definition ss_new :: "rat option \<Rightarrow> seq_subscription" where
  "ss_new stale_timeout = \<lparr>ss_processor = sp_new stale_timeout, ss_messages = []\<rparr>"

definition ss_message :: "delivery \<Rightarrow> (nat, msg_state) jsmap \<Rightarrow> msg_state" where
  "ss_message d msgs = (case map_get msgs (dl_tag d) of
      Some m \<Rightarrow> m | None \<Rightarrow> \<lparr>ms_channel = None, ms_settled = False\<rparr>)"

definition escaped_report :: "jsval option \<Rightarrow> pipe_out list" where
  "escaped_report r = (case r of None \<Rightarrow> [] | Some e \<Rightarrow> [Unhandled e])"

text \<open>The hooks \<open>onSuccess\<close> and \<open>onFailure\<close>, and the catch of the pipeline for a rejected \<open>handle\<close>.\<close>

definition seq_on_success :: "subscription \<Rightarrow> nat \<Rightarrow> jsval option \<Rightarrow> delivery \<Rightarrow> bool \<Rightarrow> rat option \<Rightarrow>
    (nat, msg_state) jsmap \<Rightarrow> (nat, msg_state) jsmap \<times> pipe_out list" where
  "seq_on_success sub ch throws d duplicate duration msgs =
     (let (m, calls) = (if sb_no_ack sub then (ss_message d msgs, []) else settle_ack d ch True False throws (ss_message d msgs));
          (outs, r) = (if duplicate then ([], None) else events_processed sub d duration)
      in (map_set (dl_tag d) m msgs, map Broker calls @ outs @ escaped_report r))"

definition seq_on_failure :: "subscription \<Rightarrow> nat \<Rightarrow> jsval option \<Rightarrow> delivery \<Rightarrow> jsval \<Rightarrow> bool \<Rightarrow> rat option \<Rightarrow>
    (nat, msg_state) jsmap \<Rightarrow> (nat, msg_state) jsmap \<times> pipe_out list" where
  "seq_on_failure sub ch throws d error requeue duration msgs =
     (let (m, calls) = (if sb_no_ack sub then (ss_message d msgs, []) else settle_ack d ch False requeue throws (ss_message d msgs));
          (outs, r) = events_failed sub d error requeue duration
      in (map_set (dl_tag d) m msgs, map Broker calls @ outs @ escaped_report r))"

fun seq_report :: "subscription \<Rightarrow> nat \<Rightarrow> jsval option \<Rightarrow> pipe_times \<Rightarrow> sp_out \<Rightarrow>
    (nat, msg_state) jsmap \<Rightarrow> (nat, msg_state) jsmap \<times> pipe_out list" where
  "seq_report sub ch throws tm (Invoke j d content) msgs = (msgs, [])"
| "seq_report sub ch throws tm (OnSuccess d duplicate duration) msgs =
     seq_on_success sub ch throws d duplicate duration msgs"
| "seq_report sub ch throws tm (OnFailure d error requeue duration) msgs =
     seq_on_failure sub ch throws d error requeue duration msgs"
| "seq_report sub ch throws tm (HandleRejected j d error) msgs =
     (case pipe_failure sub ch d throws tm error (ss_message d msgs) of
        (m, outs) \<Rightarrow> (map_set (dl_tag d) m msgs, outs))"

fun seq_reports :: "subscription \<Rightarrow> nat \<Rightarrow> jsval option \<Rightarrow> pipe_times \<Rightarrow> sp_out list \<Rightarrow>
    (nat, msg_state) jsmap \<Rightarrow> (nat, msg_state) jsmap \<times> pipe_out list" where
  "seq_reports sub ch throws tm [] msgs = (msgs, [])"
| "seq_reports sub ch throws tm (x # xs) msgs =
     (case seq_report sub ch throws tm x msgs of
        (msgs1, outs) \<Rightarrow> apsnd (\<lambda>outs'. outs @ outs') (seq_reports sub ch throws tm xs msgs1))"

datatype seq_event = SeqDeliver nat rat delivery | SeqProcessor sp_event

text \<open>
  One turn: a delivery is decoded and handed to the processor, or a callback settles, or the
  sweep runs; \<open>throws\<close> is what the channel answers to the settlements of the turn.
\<close>

fun seq_step :: "subscription \<Rightarrow> nat \<Rightarrow> seq_subscription \<Rightarrow> seq_event \<times> jsval option \<times> pipe_times \<Rightarrow>
    seq_subscription \<times> pipe_out list" where
  "seq_step sub ch s (SeqDeliver j now d, throws, tm) =
     (if map_has (ss_messages s) (dl_tag d) \<or> map_has (sp_jobs (ss_processor s)) j then (s, [])
      else let msgs = map_set (dl_tag d) (attach_ack_controls ch) (ss_messages s)
           in case decode (sb_platform sub) (sb_codec sub) (dl_content d) (truthy (dl_header d ''x-compressed'')) of
                Inl error \<Rightarrow>
                  (case pipe_failure sub ch d throws tm error (ss_message d msgs) of
                     (m, outs) \<Rightarrow> (s\<lparr>ss_messages := map_set (dl_tag d) m msgs\<rparr>, outs))
              | Inr content \<Rightarrow>
                  (case sp_step (\<lambda>d e. should_requeue d e (sb_policy sub)) (ss_processor s) (Handle j now content d) of
                     (p, xs) \<Rightarrow> (case seq_reports sub ch throws tm xs msgs of
                        (msgs1, outs) \<Rightarrow> (\<lparr>ss_processor = p, ss_messages = msgs1\<rparr>, outs))))"
| "seq_step sub ch s (SeqProcessor (Handle j now content d), throws, tm) = (s, [])"
| "seq_step sub ch s (SeqProcessor e, throws, tm) =
     (case sp_step (\<lambda>d e. should_requeue d e (sb_policy sub)) (ss_processor s) e of
        (p, xs) \<Rightarrow> (case seq_reports sub ch throws tm xs (ss_messages s) of
           (msgs, outs) \<Rightarrow> (\<lparr>ss_processor = p, ss_messages = msgs\<rparr>, outs)))"

section \<open>Sequential deliveries are settled exactly once\<close>

definition one_tag :: "delivery multiset \<Rightarrow> bool" where
  "one_tag M \<longleftrightarrow> (\<forall>t. count (image_mset dl_tag M) t \<le> 1)"

lemma one_tag_add: "one_tag (add_mset d M) \<longleftrightarrow> one_tag M \<and> dl_tag d \<notin># image_mset dl_tag M"
proof
  assume L: "one_tag (add_mset d M)"
  have "count (image_mset dl_tag M) t \<le> 1" for t
    using L [unfolded one_tag_def, rule_format, of t] by (simp split: if_splits)
  moreover have "count (image_mset dl_tag M) (dl_tag d) = 0"
    using L [unfolded one_tag_def, rule_format, of "dl_tag d"] by simp
  ultimately show "one_tag M \<and> dl_tag d \<notin># image_mset dl_tag M"
    by (simp add: one_tag_def not_in_iff del: set_image_mset)
next
  assume "one_tag M \<and> dl_tag d \<notin># image_mset dl_tag M"
  then show "one_tag (add_mset d M)" by (simp add: one_tag_def not_in_iff del: set_image_mset)
qed

lemma one_tag_union: "one_tag (M + N) \<Longrightarrow> one_tag M \<and> one_tag N"
  unfolding one_tag_def by (simp, meson add_leD1 add_leD2)

definition open_message :: "nat \<Rightarrow> (nat, msg_state) jsmap \<Rightarrow> delivery \<Rightarrow> bool" where
  "open_message ch msgs d \<longleftrightarrow> map_get msgs (dl_tag d) = Some (attach_ack_controls ch)"

definition seq_inv :: "nat \<Rightarrow> seq_subscription \<Rightarrow> bool" where
  "seq_inv ch s \<longleftrightarrow> sp_inv (ss_processor s) \<and> one_tag (sp_tracked (ss_processor s)) \<and>
     (\<forall>d \<in># sp_tracked (ss_processor s). open_message ch (ss_messages s) d)"

fun seq_ok :: "subscription \<Rightarrow> seq_event \<times> jsval option \<times> pipe_times \<Rightarrow> bool" where
  "seq_ok sub (SeqDeliver j now d, throws, tm) = (throws = None \<and>
     (\<forall>error. decode (sb_platform sub) (sb_codec sub) (dl_content d) (truthy (dl_header d ''x-compressed'')) = Inl error
        \<longrightarrow> describable error))"
| "seq_ok sub (SeqProcessor e, throws, tm) = (throws = None \<and> sp_ok e)"

fun seq_entered :: "seq_subscription \<Rightarrow> seq_event \<times> jsval option \<times> pipe_times \<Rightarrow> delivery multiset" where
  "seq_entered s (SeqDeliver j now d, throws, tm) =
     (if map_has (ss_messages s) (dl_tag d) \<or> map_has (sp_jobs (ss_processor s)) j then {#} else {#d#})"
| "seq_entered s (SeqProcessor e, throws, tm) = {#}"

definition pipe_settles :: "pipe_out \<Rightarrow> delivery multiset" where
  "pipe_settles x = (case x of Broker c \<Rightarrow> ms_settles c | _ \<Rightarrow> {#})"

lemma pipe_settled_calls: "total_settled pipe_settles outs = total_settled ms_settles (broker_calls outs)"
  by (induction outs) (auto simp: pipe_settles_def broker_calls_def split: pipe_out.split)

lemma seq_report_settles:
  assumes "\<not> sb_no_ack sub" "\<forall>d \<in># sp_settles x. open_message ch msgs d"
    and "\<forall>j d e. x = HandleRejected j d e \<longrightarrow> describable e"
  shows "total_settled pipe_settles (snd (seq_report sub ch None tm x msgs)) = sp_settles x"
proof (cases x)
  case (HandleRejected j d e)
  then have "describable e" "ss_message d msgs = attach_ack_controls ch"
    using assms by (auto simp: ss_message_def open_message_def)
  then show ?thesis
    using HandleRejected assms(1) pipe_failure_describable(1) [of e sub ch d None tm "attach_ack_controls ch"]
    by (simp add: split_def pipe_settled_calls settle_ack_def attach_ack_controls_def ms_settles_def)
qed (use assms in \<open>auto simp: seq_on_success_def seq_on_failure_def ss_message_def open_message_def
       pipe_settles_def pipe_settled_calls settle_ack_def attach_ack_controls_def ms_settles_def escaped_report_def Let_def split_def\<close>)

lemma seq_report_frame:
  assumes "t \<notin># image_mset dl_tag (sp_settles x)"
  shows "map_get (fst (seq_report sub ch throws tm x msgs)) t = map_get msgs t"
  using assms by (cases x) (auto simp: seq_on_success_def seq_on_failure_def map_simps Let_def split_def)

lemma seq_reports_frame:
  "t \<notin># image_mset dl_tag (total_settled sp_settles xs) \<Longrightarrow>
     map_get (fst (seq_reports sub ch throws tm xs msgs)) t = map_get msgs t"
proof (induction xs arbitrary: msgs)
  case (Cons x xs)
  have "map_get (fst (seq_reports sub ch throws tm xs msgs')) t = map_get msgs' t" for msgs'
    using Cons by auto
  moreover have "t \<notin># image_mset dl_tag (sp_settles x)" using Cons.prems by auto
  ultimately show ?case using seq_report_frame by (simp add: split_def)
qed simp

lemma seq_reports_settle:
  assumes "\<not> sb_no_ack sub"
  shows "one_tag (total_settled sp_settles xs) \<Longrightarrow>
    \<forall>d \<in># total_settled sp_settles xs. open_message ch msgs d \<Longrightarrow>
    \<forall>j d e. HandleRejected j d e \<in> set xs \<longrightarrow> describable e \<Longrightarrow>
    total_settled pipe_settles (snd (seq_reports sub ch None tm xs msgs)) = total_settled sp_settles xs"
proof (induction xs arbitrary: msgs)
  case (Cons x xs)
  define msgs1 where "msgs1 = fst (seq_report sub ch None tm x msgs)"
  have "total_settled pipe_settles (snd (seq_report sub ch None tm x msgs)) = sp_settles x"
    by (rule seq_report_settles [OF assms]) (use Cons.prems in auto)
  moreover have "total_settled pipe_settles (snd (seq_reports sub ch None tm xs msgs1)) = total_settled sp_settles xs"
  proof (rule Cons.IH)
    show "one_tag (total_settled sp_settles xs)"
      using Cons.prems(1) by (simp add: one_tag_union [of "sp_settles x"])
    show "\<forall>j d e. HandleRejected j d e \<in> set xs \<longrightarrow> describable e" using Cons.prems(3) by auto
    show "\<forall>d \<in># total_settled sp_settles xs. open_message ch msgs1 d"
    proof
      fix d assume d: "d \<in># total_settled sp_settles xs"
      have "dl_tag d \<notin># image_mset dl_tag (sp_settles x)"
      proof
        assume "dl_tag d \<in># image_mset dl_tag (sp_settles x)"
        then have "1 \<le> count (image_mset dl_tag (sp_settles x)) (dl_tag d)"
          by (simp only: count_greater_eq_one_iff)
        moreover have "dl_tag d \<in># image_mset dl_tag (total_settled sp_settles xs)" using d by simp
        then have "1 \<le> count (image_mset dl_tag (total_settled sp_settles xs)) (dl_tag d)"
          by (simp only: count_greater_eq_one_iff)
        moreover have "count (image_mset dl_tag (sp_settles x)) (dl_tag d)
            + count (image_mset dl_tag (total_settled sp_settles xs)) (dl_tag d) \<le> 1"
          using Cons.prems(1) [unfolded one_tag_def, rule_format, of "dl_tag d"]
          by (simp only: total_settled_simps image_mset_union count_union)
        ultimately show False by linarith
      qed
      then show "open_message ch msgs1 d"
        using Cons.prems(2) d seq_report_frame by (simp add: open_message_def msgs1_def)
    qed
  qed
  ultimately show ?case by (simp add: split_def msgs1_def)
qed simp

lemma sp_no_reject:
  "HandleRejected k d e \<notin> set (snd (sp_resume j now stack s))"
  "HandleRejected k d e \<notin> set (snd (sp_expire rq now entries s))"
proof -
  show "HandleRejected k d e \<notin> set (snd (sp_resume j now stack s))"
    by (induction j now stack s rule: sp_resume.induct)
       (auto simp: sp_process_def sp_park_def Let_def split: option.split prod.splits)
  show "HandleRejected k d e \<notin> set (snd (sp_expire rq now entries s))"
    by (induction rq now entries s rule: sp_expire.induct) (simp_all add: Let_def)
qed

lemma sp_rejects_type_error:
  "HandleRejected k d e \<in> set (snd (sp_step rq s ev)) \<Longrightarrow> e = type_error"
proof (cases ev)
  case (Handle j now c d')
  then show "HandleRejected k d e \<in> set (snd (sp_step rq s ev)) \<Longrightarrow> e = type_error"
    by (auto simp: sp_handle_def sp_park_def sp_process_def split: option.splits if_splits)
qed (auto simp: sp_success_def sp_failure_def sp_cleanup_def sp_no_reject Let_def
      split: option.splits if_splits list.splits)

lemma describable_type_error: "describable type_error"
  by (simp add: describable_def describe_line_def describe_error_def type_error_def js_simps)

lemma one_tag_disjoint:
  assumes "one_tag (M + N)" "d \<in># M" shows "dl_tag d \<notin># image_mset dl_tag N"
proof
  assume "dl_tag d \<in># image_mset dl_tag N"
  moreover have "dl_tag d \<in># image_mset dl_tag M" using assms(2) by simp
  ultimately have "1 \<le> count (image_mset dl_tag N) (dl_tag d)" "1 \<le> count (image_mset dl_tag M) (dl_tag d)"
    by (simp_all only: count_greater_eq_one_iff)
  then show False
    using assms(1) [unfolded one_tag_def, rule_format, of "dl_tag d"] by (simp only: image_mset_union count_union)
qed

lemma seq_turn:
  fixes tm :: pipe_times
  assumes "\<not> sb_no_ack sub" and ledger: "M = sp_tracked p' + total_settled sp_settles xs"
    and "one_tag M" "\<forall>d \<in># M. open_message ch msgs d"
    and "\<forall>j d e. HandleRejected j d e \<in> set xs \<longrightarrow> describable e"
  defines "r \<equiv> seq_reports sub ch None tm xs msgs"
  shows "total_settled pipe_settles (snd r) = total_settled sp_settles xs
    \<and> one_tag (sp_tracked p') \<and> (\<forall>d \<in># sp_tracked p'. open_message ch (fst r) d)"
proof (intro conjI ballI)
  show "total_settled pipe_settles (snd r) = total_settled sp_settles xs"
    unfolding r_def
    by (rule seq_reports_settle [OF assms(1)])
       (use assms(3-5) one_tag_union [of "sp_tracked p'"] in \<open>simp_all add: ledger\<close>)
  show "one_tag (sp_tracked p')" using assms(3) one_tag_union [of "sp_tracked p'"] by (simp add: ledger)
  fix d assume d: "d \<in># sp_tracked p'"
  have "dl_tag d \<notin># image_mset dl_tag (total_settled sp_settles xs)"
    using one_tag_disjoint d assms(3) unfolding ledger by blast
  then show "open_message ch (fst r) d"
    using assms(4) d by (simp add: r_def open_message_def ledger seq_reports_frame)
qed

lemma seq_deliver_step:
  assumes no_ack: "\<not> sb_no_ack sub" and inv: "seq_inv ch s" and ok: "seq_ok sub (SeqDeliver j now d, throws, tm)"
  shows "seq_inv ch (fst (seq_step sub ch s (SeqDeliver j now d, throws, tm)))
    \<and> sp_tracked (ss_processor s) + seq_entered s (SeqDeliver j now d, throws, tm) =
      sp_tracked (ss_processor (fst (seq_step sub ch s (SeqDeliver j now d, throws, tm))))
        + total_settled pipe_settles (snd (seq_step sub ch s (SeqDeliver j now d, throws, tm)))"
proof (cases "map_has (ss_messages s) (dl_tag d) \<or> map_has (sp_jobs (ss_processor s)) j")
  case False
  define p where "p = ss_processor s"
  define msgs where "msgs = map_set (dl_tag d) (attach_ack_controls ch) (ss_messages s)"
  have inv': "sp_inv p" "one_tag (sp_tracked p)" "\<forall>d \<in># sp_tracked p. open_message ch (ss_messages s) d"
    using inv by (simp_all add: seq_inv_def p_def)
  have fresh: "dl_tag e \<noteq> dl_tag d" if "e \<in># sp_tracked p" for e
    using False inv'(3) that by (auto simp: open_message_def map_has_def)
  have opened: "\<forall>e \<in># add_mset d (sp_tracked p). open_message ch msgs e"
    using inv'(3) fresh by (simp add: open_message_def msgs_def map_simps)
  have one: "one_tag (add_mset d (sp_tracked p))"
    using inv'(2) fresh by (force simp: one_tag_add)
  show ?thesis
  proof (cases "decode (sb_platform sub) (sb_codec sub) (dl_content d) (truthy (dl_header d ''x-compressed''))")
    case (Inl error)
    then have "describable error" using ok by simp
    note failure = pipe_failure_describable(1) [OF this, of sub ch d None tm "ss_message d msgs"]
    have "ss_message d msgs = attach_ack_controls ch" using opened by (simp add: ss_message_def open_message_def)
    with failure no_ack have "total_settled pipe_settles (snd (pipe_failure sub ch d None tm error (ss_message d msgs))) = {#d#}"
      by (simp add: pipe_settled_calls settle_ack_def attach_ack_controls_def ms_settles_def)
    then show ?thesis
      using False Inl ok inv' fresh
      by (simp add: msgs_def [symmetric] p_def [symmetric] split_def seq_inv_def open_message_def)
        (simp add: msgs_def map_simps)
  next
    case (Inr content)
    define r where "r = sp_step (\<lambda>d e. should_requeue d e (sb_policy sub)) p (Handle j now content d)"
    have ledger: "add_mset d (sp_tracked p) = sp_tracked (fst r) + total_settled sp_settles (snd r)"
      using sp.step_conserves [OF inv'(1), of "Handle j now content d" "\<lambda>d e. should_requeue d e (sb_policy sub)"] False
      by (simp add: r_def p_def)
    have "sp_inv (fst r)" unfolding r_def by (rule sp.step_inv [OF inv'(1)]) simp
    moreover have "\<forall>k d e. HandleRejected k d e \<in> set (snd r) \<longrightarrow> describable e"
      unfolding r_def using sp_rejects_type_error describable_type_error by blast
    note turn = seq_turn [OF no_ack ledger one opened this, of tm]
    show ?thesis
      using False Inr ok turn calculation ledger
      by (simp add: msgs_def [symmetric] p_def [symmetric] r_def [symmetric] split_def seq_inv_def del: sp_step.simps)
  qed
qed (use inv in auto)

lemma seq_processor_step:
  assumes no_ack: "\<not> sb_no_ack sub" and inv: "seq_inv ch s" and ok: "seq_ok sub (SeqProcessor e, throws, tm)"
  shows "seq_inv ch (fst (seq_step sub ch s (SeqProcessor e, throws, tm)))
    \<and> sp_tracked (ss_processor s) =
      sp_tracked (ss_processor (fst (seq_step sub ch s (SeqProcessor e, throws, tm))))
        + total_settled pipe_settles (snd (seq_step sub ch s (SeqProcessor e, throws, tm)))"
proof (cases "\<exists>j now c d. e = Handle j now c d")
  case False
  define p where "p = ss_processor s"
  define r where "r = sp_step (\<lambda>d e. should_requeue d e (sb_policy sub)) p e"
  have inv': "sp_inv p" "one_tag (sp_tracked p)" "\<forall>d \<in># sp_tracked p. open_message ch (ss_messages s) d"
    using inv by (simp_all add: seq_inv_def p_def)
  have ok': "sp_ok e" "throws = None" using ok by simp_all
  have step: "seq_step sub ch s (SeqProcessor e, throws, tm) =
      (\<lparr>ss_processor = fst r, ss_messages = fst (seq_reports sub ch None tm (snd r) (ss_messages s))\<rparr>,
       snd (seq_reports sub ch None tm (snd r) (ss_messages s)))"
    using False ok'(2) by (cases e) (auto simp: r_def p_def split_def simp del: sp_step.simps)
  have "sp_entered p e = {#}" using False by (cases e) auto
  then have ledger: "sp_tracked p = sp_tracked (fst r) + total_settled sp_settles (snd r)"
    using sp.step_conserves [OF inv'(1) ok'(1), of "\<lambda>d e. should_requeue d e (sb_policy sub)"] by (simp add: r_def)
  have "sp_inv (fst r)" unfolding r_def by (rule sp.step_inv [OF inv'(1) ok'(1)])
  moreover have "\<forall>k d e. HandleRejected k d e \<in> set (snd r) \<longrightarrow> describable e"
    unfolding r_def using sp_rejects_type_error describable_type_error by blast
  note turn = seq_turn [OF no_ack ledger inv'(2,3) this, of tm]
  show ?thesis
    unfolding step using turn calculation ledger by (simp add: seq_inv_def p_def [symmetric])
qed (use inv in auto)

interpretation seq: ledger_machine "seq_step sub ch" "\<lambda>x. seq_ok sub x \<and> \<not> sb_no_ack sub" "seq_inv ch"
    "\<lambda>s. sp_tracked (ss_processor s)" seq_entered pipe_settles for sub ch
proof
  fix s and x :: "seq_event \<times> jsval option \<times> pipe_times"
  assume inv: "seq_inv ch s" and ok: "seq_ok sub x \<and> \<not> sb_no_ack sub"
  obtain e throws tm where x: "x = (e, throws, tm)" by (cases x)
  show "seq_inv ch (fst (seq_step sub ch s x))"
    using seq_deliver_step [of sub ch s] seq_processor_step [of sub ch s] inv ok x
    by (cases e) (auto simp del: seq_step.simps)
  show "sp_tracked (ss_processor s) + seq_entered s x =
      sp_tracked (ss_processor (fst (seq_step sub ch s x))) + total_settled pipe_settles (snd (seq_step sub ch s x))"
    using seq_deliver_step [of sub ch s] seq_processor_step [of sub ch s] inv ok x
    by (cases e) (auto simp del: seq_step.simps seq_entered.simps(1))
qed

definition settled_deliveries :: "pipe_out list \<Rightarrow> delivery multiset" where
  "settled_deliveries outs = mset (map (\<lambda>c. case c of BrokerAck ch d \<Rightarrow> d | BrokerNack ch d r \<Rightarrow> d) (broker_calls outs))"

lemma settled_deliveries_total: "total_settled pipe_settles outs = settled_deliveries outs"
proof -
  have "total_settled ms_settles calls = mset (map (\<lambda>c. case c of BrokerAck ch d \<Rightarrow> d | BrokerNack ch d r \<Rightarrow> d) calls)" for calls
    by (induction calls) (auto simp: ms_settles_def split: broker_call.split)
  then show ?thesis by (simp add: pipe_settled_calls settled_deliveries_def)
qed

lemma ss_new_inv: "seq_inv ch (ss_new t)" "sp_tracked (ss_processor (ss_new t)) = {#}"
  by (simp_all add: seq_inv_def ss_new_def sp_new_inv one_tag_def)

text \<open>
  C32: A sequential subscription settles every delivery with the broker exactly once. In every
  run, with any interleaving of deliveries (duplicates of a parked id included), handler
  outcomes, releases of dependents and sweeps, the deliveries that arrived are, counted with
  multiplicity, those the broker was told about by an ack or a nack plus those still parked or
  in a handler; content that cannot be decoded is among the settled ones. The channel takes the
  calls, and the errors can be described.
\<close>

theorem sequential_subscription_settles:
  assumes "\<not> sb_no_ack sub" "list_all (seq_ok sub) es"
    and "(s, outs) = run_machine (seq_step sub ch) (ss_new stale_timeout) es"
  shows "total_entered (seq_step sub ch) seq_entered (ss_new stale_timeout) es =
    settled_deliveries outs + image_mset pk_message (vals_of (sp_pending (ss_processor s)))
      + image_mset job_message (vals_of (sp_jobs (ss_processor s)))"
proof -
  have run: "s = fst (run_machine (seq_step sub ch) (ss_new stale_timeout) es)"
    "outs = snd (run_machine (seq_step sub ch) (ss_new stale_timeout) es)"
    using assms(3) by (metis fst_conv, metis snd_conv)
  have "list_all (\<lambda>x. seq_ok sub x \<and> \<not> sb_no_ack sub) es" using assms(1,2) by (simp add: list_all_iff)
  from seq.run_conserves [OF ss_new_inv(1) this]
  have "total_entered (seq_step sub ch) seq_entered (ss_new stale_timeout) es =
      sp_tracked (ss_processor s) + total_settled pipe_settles outs"
    by (simp add: ss_new_inv(2) run)
  then show ?thesis
    by (simp add: settled_deliveries_total sp_tracked_def sp_parked_messages_def sp_running_messages_def add_ac)
qed

definition seq_sample_events :: "(seq_event \<times> jsval option \<times> pipe_times) list" where
  "seq_sample_events = [(SeqDeliver 0 1 (sp_sample 1 ''a'' None), None, sample_times),
     (SeqDeliver 1 2 (sp_sample 2 ''b'' (Some ''a'')), None, sample_times),
     (SeqDeliver 2 2 (sp_sample 3 ''b'' (Some ''a'')), None, sample_times)]"

lemma seq_sample_decode:
  "decode (sb_platform sample_subscription) (sb_codec sample_subscription) (dl_content (sp_sample t i x))
     (truthy (dl_header (sp_sample t i x) ''x-compressed'')) = Inr (JStr [])"
  by (cases x) (simp_all add: sample_subscription_def sample_platform_def sample_codec_def sp_sample_def
      plain_delivery_def dl_header_def decode_def from_buffer_def)

lemma seq_sample_fields:
  "dl_tag (sp_sample t i x) = t" "dl_message_id (sp_sample t i x) = Some i"
  "sp_depends_on (sp_sample t i x) = given x" "sb_no_ack sample_subscription = False"
  by (cases x; simp add: sp_sample_def sp_depends_on_def dl_header_def plain_delivery_def sample_subscription_def)+

theorem sequential_subscription_settles_witness:
  "total_entered (seq_step sample_subscription 3) seq_entered (ss_new None) seq_sample_events =
     {#sp_sample 3 ''b'' (Some ''a''), sp_sample 2 ''b'' (Some ''a''), sp_sample 1 ''a'' None#}"
proof -
  define r where "r = run_machine (seq_step sample_subscription 3) (ss_new None) seq_sample_events"
  have ok: "\<not> sb_no_ack sample_subscription" "list_all (seq_ok sample_subscription) seq_sample_events"
    by (simp add: sample_subscription_def) (simp add: seq_sample_events_def seq_sample_decode)
  have "settled_deliveries (snd r) = {#sp_sample 3 ''b'' (Some ''a'')#}
      \<and> image_mset pk_message (vals_of (sp_pending (ss_processor (fst r)))) = {#sp_sample 2 ''b'' (Some ''a'')#}
      \<and> image_mset job_message (vals_of (sp_jobs (ss_processor (fst r)))) = {#sp_sample 1 ''a'' None#}"
    by (simp add: r_def seq_sample_events_def run_machine.simps(2) ss_new_def seq_sample_decode seq_sample_fields
        sp_new_def sp_handle_def sp_unresolved_def sp_process_def sp_park_def
        sp_index_pending_def sp_dependents_def set_add_def map_has_def seq_on_success_def settle_ack_def
        ss_message_def attach_ack_controls_def escaped_report_def settled_deliveries_def Let_def
        del: run_machine_simps)
  moreover have "(fst r, snd r) = run_machine (seq_step sample_subscription 3) (ss_new None) seq_sample_events"
    by (simp add: r_def)
  ultimately show ?thesis using sequential_subscription_settles [OF ok, of "fst r" "snd r" 3 None] by simp
qed

end
