(* ===== verification/Rate_Strategy.thy ===== *)
theory Rate_Strategy
  imports Prelude
begin

text \<open>
  The interface between the rate limiter and its strategies: every strategy class of
  \<open>src/resilience/strategies\<close> answers \<open>check\<close>, \<open>remaining\<close>, \<open>cleanup\<close>,
  \<open>reset\<close>, \<open>clear\<close> and \<open>capacity\<close>. \<open>check key cost now s\<close> is \<open>None\<close> for a refusal and
  \<open>Some w\<close> for an admission after a delay of \<open>w\<close> milliseconds (0 except for the leaky
  bucket). Times and costs are exact rationals.
\<close>

section \<open>Operation sequences\<close>

datatype 'k rate_op =
    Check 'k rat rat
  | Remaining 'k rat
  | Cleanup rat
  | Reset 'k
  | Clear

fun op_times :: "'k rate_op \<Rightarrow> rat list" where
  "op_times (Check _ _ t) = [t]"
| "op_times (Remaining _ t) = [t]"
| "op_times (Cleanup t) = [t]"
| "op_times _ = []"

fun op_cost_ok :: "'k rate_op \<Rightarrow> bool" where
  "op_cost_ok (Check _ c _) = (0 \<le> c)"
| "op_cost_ok _ = True"

fun op_forgets :: "'k \<Rightarrow> 'k rate_op \<Rightarrow> bool" where
  "op_forgets k (Reset k') = (k' = k)"
| "op_forgets k Clear = True"
| "op_forgets k _ = False"

text \<open>An admitted check: its key, cost, time and delay.\<close>

type_synonym 'k admission = "'k \<times> rat \<times> rat \<times> rat"

definition adm_sum :: "('k \<Rightarrow> rat \<Rightarrow> bool) \<Rightarrow> 'k admission list \<Rightarrow> rat" where
  "adm_sum P out = sum_list (map (\<lambda>(k, c, t, w). if P k t then c else 0) out)"

lemma adm_sum_simps [simp]:
  "adm_sum P [] = 0"
  "adm_sum P ((k, c, t, w) # out) = (if P k t then c else 0) + adm_sum P out"
  "adm_sum P (out @ out') = adm_sum P out + adm_sum P out'"
  by (simp_all add: adm_sum_def)

lemma adm_sum_none: "\<forall>(k, c, t, w) \<in> set out. \<not> P k t \<Longrightarrow> adm_sum P out = 0"
  by (induction out) auto

lemma adm_sum_mono:
  "\<forall>(k, c, t, w) \<in> set out. 0 \<le> c \<and> (P k t \<longrightarrow> Q k t) \<Longrightarrow> adm_sum P out \<le> adm_sum Q out"
  by (induction out) fastforce+

definition strategy_step ::
  "('k \<Rightarrow> rat \<Rightarrow> rat \<Rightarrow> 's \<Rightarrow> 's \<times> rat option) \<Rightarrow> ('k \<Rightarrow> rat \<Rightarrow> 's \<Rightarrow> 's \<times> rat) \<Rightarrow>
   (rat \<Rightarrow> 's \<Rightarrow> 's) \<Rightarrow> ('k \<Rightarrow> 's \<Rightarrow> 's) \<Rightarrow> ('s \<Rightarrow> 's) \<Rightarrow>
   's \<Rightarrow> 'k rate_op \<Rightarrow> 's \<times> 'k admission list" where
  "strategy_step check remaining cleanup reset clear s op = (case op of
     Check k c t \<Rightarrow> (case check k c t s of
        (s1, None) \<Rightarrow> (s1, []) | (s1, Some w) \<Rightarrow> (s1, [(k, c, t, w)]))
   | Remaining k t \<Rightarrow> (fst (remaining k t s), [])
   | Cleanup t \<Rightarrow> (cleanup t s, [])
   | Reset k \<Rightarrow> (reset k s, [])
   | Clear \<Rightarrow> (clear s, []))"

lemma strategy_step_admission:
  "(k, c, t, w) \<in> set (snd (strategy_step ck rm cl rs cr s op)) \<Longrightarrow> op = Check k c t"
  by (cases op) (auto simp: strategy_step_def split: prod.splits option.splits)

lemma strategy_run_admission:
  "(k, c, t, w) \<in> set (snd (run_machine (strategy_step ck rm cl rs cr) s ops)) \<Longrightarrow>
     Check k c t \<in> set ops"
  by (induction ops arbitrary: s) (auto dest: strategy_step_admission)

definition times_of :: "'k rate_op list \<Rightarrow> rat list" where
  "times_of ops = concat (map op_times ops)"

lemma times_of_simps [simp]:
  "times_of [] = []"
  "times_of (op # ops) = op_times op @ times_of ops"
  "times_of (ops @ ops') = times_of ops @ times_of ops'"
  by (simp_all add: times_of_def)

lemma check_in_times_of: "Check k c t \<in> set ops \<Longrightarrow> t \<in> set (times_of ops)"
  by (force simp: times_of_def)

section \<open>The contract of a strategy\<close>

locale rate_strategy =
  fixes check :: "'k \<Rightarrow> rat \<Rightarrow> rat \<Rightarrow> 's \<Rightarrow> 's \<times> rat option"
    and remaining :: "'k \<Rightarrow> rat \<Rightarrow> 's \<Rightarrow> 's \<times> rat"
    and cleanup :: "rat \<Rightarrow> 's \<Rightarrow> 's"
    and reset :: "'k \<Rightarrow> 's \<Rightarrow> 's"
    and clear :: "'s \<Rightarrow> 's"
    and capacity :: "'s \<Rightarrow> rat"
    and inv :: "'s \<Rightarrow> bool"
  assumes inv_check: "inv s \<Longrightarrow> 0 \<le> c \<Longrightarrow> inv (fst (check k c t s))"
    and inv_remaining: "inv s \<Longrightarrow> inv (fst (remaining k t s))"
    and inv_cleanup: "inv s \<Longrightarrow> inv (cleanup t s)"
    and inv_reset: "inv s \<Longrightarrow> inv (reset k s)"
    and inv_clear: "inv s \<Longrightarrow> inv (clear s)"
    and capacity_check: "capacity (fst (check k c t s)) = capacity s"
    and capacity_remaining: "capacity (fst (remaining k t s)) = capacity s"
    and capacity_cleanup: "capacity (cleanup t s) = capacity s"
    and capacity_reset: "capacity (reset k s) = capacity s"
    and capacity_clear: "capacity (clear s) = capacity s"
    and over_capacity: "inv s \<Longrightarrow> capacity s < c \<Longrightarrow> snd (check k c t s) = None"
    and admit_reset: "inv s \<Longrightarrow> c \<le> capacity s \<Longrightarrow> snd (check k c t (reset k s)) \<noteq> None"
    and admit_clear: "inv s \<Longrightarrow> c \<le> capacity s \<Longrightarrow> snd (check k c t (clear s)) \<noteq> None"
    and delay_nonneg: "inv s \<Longrightarrow> snd (check k c t s) = Some w \<Longrightarrow> 0 \<le> w"
    and remaining_bounds: "inv s \<Longrightarrow> 0 \<le> snd (remaining k t s) \<and> snd (remaining k t s) \<le> capacity s"
    and isolated: "k' \<noteq> k \<Longrightarrow> snd (check k' c' t' (fst (check k c t s))) = snd (check k' c' t' s)"
begin

abbreviation step :: "'s \<Rightarrow> 'k rate_op \<Rightarrow> 's \<times> 'k admission list" where
  "step \<equiv> strategy_step check remaining cleanup reset clear"

lemma step_capacity: "capacity (fst (step s op)) = capacity s"
  by (cases op)
     (auto simp: strategy_step_def capacity_remaining capacity_cleanup capacity_reset
       capacity_clear capacity_check [symmetric] split: prod.split option.split,
      (metis capacity_check fst_conv)+)

lemma step_inv_cost: "inv s \<Longrightarrow> op_cost_ok op \<Longrightarrow> inv (fst (step s op))"
proof (cases op)
  case (Check k c t)
  assume "inv s" "op_cost_ok op"
  with Check inv_check [of s c k t] show ?thesis
    by (auto simp: strategy_step_def split: prod.splits option.splits)
qed (auto simp: strategy_step_def inv_remaining inv_cleanup inv_reset inv_clear)

end

sublocale rate_strategy \<subseteq> machine: event_machine
  "strategy_step check remaining cleanup reset clear" op_cost_ok inv
  by unfold_locales (rule step_inv_cost)

context rate_strategy
begin

lemma run_capacity: "capacity (fst (run_machine step s ops)) = capacity s"
  by (induction ops arbitrary: s) (auto simp: step_capacity)

text \<open>
  A cost above the capacity stays refused whatever happens before it, and a cost within the
  capacity is admitted right after a reset: the capacity is exactly the frontier of what
  waiting can buy.
\<close>

lemma never_admitted:
  assumes "inv s" "list_all op_cost_ok ops" "capacity s < c"
  shows "snd (check k c t (fst (run_machine step s ops))) = None"
  by (rule over_capacity) (use assms machine.run_inv run_capacity in auto)

lemma admitted_after_reset:
  assumes "inv s" "list_all op_cost_ok ops" "c \<le> capacity s"
  shows "snd (check k c t (reset k (fst (run_machine step s ops)))) \<noteq> None"
  by (rule admit_reset) (use assms machine.run_inv run_capacity in auto)

lemma run_isolated:
  assumes "\<And>k' c' t'. Check k' c' t' \<in> set ops \<Longrightarrow> k' \<noteq> k"
    and "\<And>op. op \<in> set ops \<Longrightarrow> \<exists>k' c' t'. op = Check k' c' t'"
  shows "snd (check k c t (fst (run_machine step s ops))) = snd (check k c t s)"
  using assms
proof (induction ops arbitrary: s)
  case Nil
  then show ?case by simp
next
  case (Cons op ops)
  obtain k' c' t' where op: "op = Check k' c' t'" using Cons.prems(2) [of op] by auto
  have "fst (step s op) = fst (check k' c' t' s)"
    by (auto simp: op strategy_step_def split: prod.splits option.splits)
  moreover have "k' \<noteq> k" using Cons.prems(1) op by auto
  ultimately have "snd (check k c t (fst (step s op))) = snd (check k c t s)"
    by (simp add: isolated)
  moreover have "snd (check k c t (fst (run_machine step (fst (step s op)) ops)))
      = snd (check k c t (fst (step s op)))"
    by (rule Cons.IH) (use Cons.prems in auto)
  ultimately show ?case by simp
qed

end

end
