(* ===== verification/Token_Bucket.thy ===== *)
theory Token_Bucket
  imports Rate_Strategy
begin

text \<open>
  \<open>src/resilience/strategies/token-bucket.js\<close>: a bucket of tokens per key, refilled on every
  access in proportion to the time passed and capped at \<open>bucketSize\<close>. A read creates or
  refills the bucket too.
\<close>

section \<open>State and operations\<close>

record tb_bucket =
  tb_tokens :: rat
  tb_last_refill :: rat

record 'k token_bucket =
  tb_size :: rat
  tb_rate :: rat
  tb_window_ms :: rat
  tb_buckets :: "('k, tb_bucket) jsmap"

definition tb_new :: "rat \<Rightarrow> rat \<Rightarrow> bool \<Rightarrow> rat \<Rightarrow> 'k token_bucket" where
  "tb_new max_requests window_ms burstable burst_limit =
     \<lparr>tb_size = (if burstable then burst_limit else max_requests),
      tb_rate = max_requests / window_ms, tb_window_ms = window_ms, tb_buckets = []\<rparr>"

definition tb_capacity :: "'k token_bucket \<Rightarrow> rat" where
  "tb_capacity s = tb_size s"

definition tb_refill :: "'k token_bucket \<Rightarrow> rat \<Rightarrow> tb_bucket \<Rightarrow> tb_bucket" where
  "tb_refill s now b =
     (let tokens_to_add = (now - tb_last_refill b) * tb_rate s
      in if tokens_to_add > 0
         then \<lparr>tb_tokens = min (tb_size s) (tb_tokens b + tokens_to_add), tb_last_refill = now\<rparr>
         else b)"

definition tb_bucket_for :: "'k \<Rightarrow> rat \<Rightarrow> 'k token_bucket \<Rightarrow> 'k token_bucket \<times> tb_bucket" where
  "tb_bucket_for key now s =
     (let b = (case map_get (tb_buckets s) key of
                 None \<Rightarrow> \<lparr>tb_tokens = tb_size s, tb_last_refill = now\<rparr>
               | Some b \<Rightarrow> tb_refill s now b)
      in (s\<lparr>tb_buckets := map_set key b (tb_buckets s)\<rparr>, b))"

definition tb_check :: "'k \<Rightarrow> rat \<Rightarrow> rat \<Rightarrow> 'k token_bucket \<Rightarrow> 'k token_bucket \<times> rat option" where
  "tb_check key cost now s =
     (case tb_bucket_for key now s of (s1, b) \<Rightarrow>
        if tb_tokens b < cost then (s1, None)
        else (s1\<lparr>tb_buckets := map_set key (b\<lparr>tb_tokens := tb_tokens b - cost\<rparr>) (tb_buckets s1)\<rparr>,
              Some 0))"

definition tb_remaining :: "'k \<Rightarrow> rat \<Rightarrow> 'k token_bucket \<Rightarrow> 'k token_bucket \<times> rat" where
  "tb_remaining key now s =
     (case tb_bucket_for key now s of (s1, b) \<Rightarrow> (s1, of_int \<lfloor>tb_tokens b\<rfloor>))"

definition tb_cleanup :: "rat \<Rightarrow> 'k token_bucket \<Rightarrow> 'k token_bucket" where
  "tb_cleanup now s =
     s\<lparr>tb_buckets := filter (\<lambda>(k, b). \<not> now - tb_last_refill b > tb_window_ms s * 2) (tb_buckets s)\<rparr>"

definition tb_reset :: "'k \<Rightarrow> 'k token_bucket \<Rightarrow> 'k token_bucket" where
  "tb_reset key s = s\<lparr>tb_buckets := map_del key (tb_buckets s)\<rparr>"

definition tb_clear :: "'k token_bucket \<Rightarrow> 'k token_bucket" where
  "tb_clear s = s\<lparr>tb_buckets := []\<rparr>"

section \<open>Invariant and contract\<close>

definition tb_bucket_ok :: "rat \<Rightarrow> tb_bucket \<Rightarrow> bool" where
  "tb_bucket_ok limit b \<longleftrightarrow> 0 \<le> tb_tokens b \<and> tb_tokens b \<le> limit"

definition tb_inv :: "'k token_bucket \<Rightarrow> bool" where
  "tb_inv s \<longleftrightarrow> 0 \<le> tb_size s \<and> 0 \<le> tb_rate s \<and> wf_map (tb_buckets s) \<and>
     map_all (tb_bucket_ok (tb_size s)) (tb_buckets s)"

lemma tb_invD:
  "tb_inv s \<Longrightarrow> map_get (tb_buckets s) k = Some b \<Longrightarrow>
     0 \<le> tb_tokens b \<and> tb_tokens b \<le> tb_size s"
  by (auto simp: tb_inv_def tb_bucket_ok_def dest: map_all_get)

lemmas tb_defs = tb_check_def tb_bucket_for_def tb_refill_def tb_remaining_def tb_cleanup_def
  tb_reset_def tb_clear_def tb_capacity_def Let_def

lemma tb_refill_upd [simp]: "tb_refill (s\<lparr>tb_buckets := m\<rparr>) = tb_refill s"
  by (simp add: tb_refill_def fun_eq_iff Let_def)

lemma tb_refill_ok: "tb_inv s \<Longrightarrow> tb_bucket_ok (tb_size s) b \<Longrightarrow> tb_bucket_ok (tb_size s) (tb_refill s t b)"
  by (auto simp: tb_refill_def tb_bucket_ok_def Let_def tb_inv_def min_def)

lemma tb_bucket_for_inv:
  assumes "tb_inv s" "tb_bucket_for k t s = (s1, b)"
  shows "tb_inv s1" "tb_bucket_ok (tb_size s) b" "tb_size s1 = tb_size s"
    "tb_rate s1 = tb_rate s" "tb_window_ms s1 = tb_window_ms s"
proof -
  have ok: "tb_bucket_ok (tb_size s) b"
    using assms tb_refill_ok [OF assms(1)]
    by (auto simp: tb_bucket_for_def Let_def tb_inv_def tb_bucket_ok_def dest: map_all_get split: option.splits)
  then show "tb_bucket_ok (tb_size s) b" .
  with assms show "tb_inv s1" "tb_size s1 = tb_size s"
    "tb_rate s1 = tb_rate s" "tb_window_ms s1 = tb_window_ms s"
    by (auto simp: tb_bucket_for_def Let_def tb_inv_def intro: map_all_set)
qed

lemma tb_inv_check: "tb_inv s \<Longrightarrow> 0 \<le> c \<Longrightarrow> tb_inv (fst (tb_check k c t s))"
  by (cases "tb_bucket_for k t s", frule (1) tb_bucket_for_inv, frule (1) tb_bucket_for_inv(2),
      drule (1) tb_bucket_for_inv(1))
     (auto simp: tb_check_def tb_inv_def tb_bucket_ok_def intro!: map_all_set)

lemma tb_inv_remaining: "tb_inv s \<Longrightarrow> tb_inv (fst (tb_remaining k t s))"
  by (cases "tb_bucket_for k t s") (auto simp: tb_remaining_def dest: tb_bucket_for_inv(1))

lemma tb_over_capacity: "tb_inv s \<Longrightarrow> tb_capacity s < c \<Longrightarrow> snd (tb_check k c t s) = None"
  by (cases "tb_bucket_for k t s", drule (1) tb_bucket_for_inv(2))
     (auto simp: tb_check_def tb_capacity_def tb_bucket_ok_def)

lemma tb_remaining_bounds:
  "tb_inv s \<Longrightarrow> 0 \<le> snd (tb_remaining k t s) \<and> snd (tb_remaining k t s) \<le> tb_capacity s"
  by (cases "tb_bucket_for k t s", drule (1) tb_bucket_for_inv(2))
     (auto simp: tb_remaining_def tb_capacity_def tb_bucket_ok_def intro: order_trans [OF of_int_floor_le])

interpretation tb: rate_strategy tb_check tb_remaining tb_cleanup tb_reset tb_clear tb_capacity tb_inv
  by unfold_locales
     (simp_all add: tb_inv_check tb_inv_remaining tb_over_capacity tb_remaining_bounds,
      auto simp: tb_defs tb_inv_def map_basic_simps intro: map_all_intros split: option.splits if_splits)

section \<open>The rate bound\<close>

abbreviation tb_step :: "'k token_bucket \<Rightarrow> 'k rate_op \<Rightarrow> 'k token_bucket \<times> 'k admission list" where
  "tb_step \<equiv> strategy_step tb_check tb_remaining tb_cleanup tb_reset tb_clear"

text \<open>The tokens a key would find at time \<open>t\<close>.\<close>

definition tb_tokens_at :: "'k token_bucket \<Rightarrow> 'k \<Rightarrow> rat \<Rightarrow> rat" where
  "tb_tokens_at s k t = (case map_get (tb_buckets s) k of
      None \<Rightarrow> tb_size s | Some b \<Rightarrow> tb_tokens (tb_refill s t b))"

definition tb_not_ahead :: "'k token_bucket \<Rightarrow> 'k \<Rightarrow> rat \<Rightarrow> bool" where
  "tb_not_ahead s k t = (case map_get (tb_buckets s) k of
      None \<Rightarrow> True | Some b \<Rightarrow> tb_last_refill b \<le> t)"

lemma tb_step_params [simp]:
  "tb_size (fst (tb_step s op)) = tb_size s"
  "tb_rate (fst (tb_step s op)) = tb_rate s"
  "tb_window_ms (fst (tb_step s op)) = tb_window_ms s"
  by (cases op; auto simp: strategy_step_def tb_defs split: option.splits)+

lemma tb_tokens_at_le: "tb_inv s \<Longrightarrow> tb_tokens_at s k t \<le> tb_size s"
  by (auto simp: tb_tokens_at_def tb_refill_def Let_def dest: tb_invD split: option.splits)

lemma tb_tokens_at_nonneg: "tb_inv s \<Longrightarrow> 0 \<le> tb_tokens_at s k t"
  using tb_refill_ok [of s "the (map_get (tb_buckets s) k)" t]
  by (auto simp: tb_tokens_at_def tb_inv_def tb_bucket_ok_def dest!: map_all_get split: option.splits)

text \<open>Between two points in time a key gains at most the refill rate times the time passed.\<close>

lemma tb_tokens_at_mono:
  assumes "tb_inv s" "tb_not_ahead s k t" "t \<le> t'"
  shows "tb_tokens_at s k t' \<le> tb_tokens_at s k t + tb_rate s * (t' - t)"
proof -
  have r: "0 \<le> tb_rate s" "0 \<le> tb_rate s * (t' - t)" using assms by (auto simp: tb_inv_def)
  show ?thesis
  proof (cases "map_get (tb_buckets s) k")
    case None
    then show ?thesis using r by (simp add: tb_tokens_at_def)
  next
    case (Some b)
    have "0 \<le> tb_tokens b \<and> tb_tokens b \<le> tb_size s" by (rule tb_invD [OF assms(1) Some])
    moreover have "(t' - tb_last_refill b) * tb_rate s =
        (t - tb_last_refill b) * tb_rate s + tb_rate s * (t' - t)" by (simp add: algebra_simps)
    ultimately show ?thesis
      using r Some assms(2) by (auto simp: tb_tokens_at_def tb_refill_def Let_def min_def)
  qed
qed

lemma tb_tokens_at_check:
  assumes "tb_inv s" "0 \<le> c" "tb_not_ahead s k t"
  shows "tb_tokens_at (fst (tb_check k' c t s)) k t =
     tb_tokens_at s k t - (if k' = k \<and> snd (tb_check k' c t s) \<noteq> None then c else 0)"
    and "tb_not_ahead (fst (tb_check k' c t s)) k t"
  using assms
  by (auto simp: tb_tokens_at_def tb_not_ahead_def tb_defs map_basic_simps split: option.splits)

text \<open>
  A sweep takes a bucket away after two windows without a refill. By then the bucket is full
  when its size is at most twice \<open>maxRequests\<close>, so nothing is gained.
\<close>

lemma tb_tokens_at_cleanup:
  assumes "tb_inv s" "tb_size s \<le> 2 * (tb_rate s * tb_window_ms s)"
  shows "tb_tokens_at (tb_cleanup t s) k t = tb_tokens_at s k t"
proof (cases "map_get (tb_buckets s) k")
  case None
  then show ?thesis
    using assms(1) by (simp add: tb_tokens_at_def tb_cleanup_def map_get_filter tb_inv_def)
next
  case (Some b)
  show ?thesis
  proof (cases "t - tb_last_refill b > tb_window_ms s * 2")
    case False
    with Some show ?thesis
      using assms(1) by (simp add: tb_tokens_at_def tb_cleanup_def map_get_filter tb_inv_def tb_refill_def)
  next
    case True
    have b: "0 \<le> tb_tokens b" "tb_tokens b \<le> tb_size s" using tb_invD [OF assms(1) Some] by simp_all
    have "2 * (tb_rate s * tb_window_ms s) \<le> tb_rate s * (t - tb_last_refill b)"
      using True assms(1) mult_left_mono [of "tb_window_ms s * 2" "t - tb_last_refill b" "tb_rate s"]
      by (simp add: tb_inv_def algebra_simps)
    with assms(2) have "tb_size s \<le> (t - tb_last_refill b) * tb_rate s" by (simp add: algebra_simps)
    with True Some b assms(1) show ?thesis
      by (auto simp: tb_tokens_at_def tb_cleanup_def map_get_filter tb_inv_def tb_refill_def Let_def min_def)
  qed
qed

lemma tb_step_tokens:
  assumes "tb_inv s" "op_cost_ok op" "\<not> op_forgets k op"
    and "tb_size s \<le> 2 * (tb_rate s * tb_window_ms s)"
    and "\<forall>t' \<in> set (op_times op). t' = t" "tb_not_ahead s k t"
  shows "adm_sum (\<lambda>k' t. k' = k) (snd (tb_step s op)) + tb_tokens_at (fst (tb_step s op)) k t
           = tb_tokens_at s k t"
    and "tb_not_ahead (fst (tb_step s op)) k t"
proof -
  show "adm_sum (\<lambda>k' t. k' = k) (snd (tb_step s op)) + tb_tokens_at (fst (tb_step s op)) k t
      = tb_tokens_at s k t"
  proof (cases op)
    case (Check k' c t')
    with assms show ?thesis
      using tb_tokens_at_check(1) [of s c k t k']
      by (auto simp: strategy_step_def split: prod.splits option.splits)
  next
    case (Remaining k' t')
    with assms show ?thesis
      by (auto simp: strategy_step_def tb_tokens_at_def tb_defs map_basic_simps split: option.splits)
  next
    case (Cleanup t')
    with assms show ?thesis by (auto simp: strategy_step_def tb_tokens_at_cleanup)
  qed (use assms in \<open>auto simp: strategy_step_def tb_tokens_at_def tb_reset_def map_basic_simps split: option.splits\<close>)
  show "tb_not_ahead (fst (tb_step s op)) k t"
  proof (cases op)
    case (Check k' c t')
    with assms show ?thesis
      using tb_tokens_at_check(2) [of s c k t k']
      by (auto simp: strategy_step_def split: prod.splits option.splits)
  qed (use assms in \<open>auto simp: strategy_step_def tb_not_ahead_def tb_defs map_basic_simps
         map_get_filter tb_inv_def split: option.splits\<close>)
qed

lemma tb_run_bound:
  assumes "tb_inv s" "list_all op_cost_ok ops" "\<forall>op \<in> set ops. \<not> op_forgets k op"
    and "tb_size s \<le> 2 * (tb_rate s * tb_window_ms s)"
    and "sorted (times_of ops)" "\<forall>t \<in> set (times_of ops). t0 \<le> t \<and> t \<le> t2" "t0 \<le> t2"
    and "tb_not_ahead s k t0"
  shows "adm_sum (\<lambda>k' t. k' = k) (snd (run_machine tb_step s ops))
           \<le> tb_tokens_at s k t0 + tb_rate s * (t2 - t0)"
  using assms
proof (induction ops arbitrary: s t0)
  case Nil
  then show ?case by (simp add: tb_tokens_at_nonneg tb_inv_def [of s])
next
  case (Cons op ops)
  let ?s1 = "fst (tb_step s op)"
  define t1 where "t1 = (case op_times op of [] \<Rightarrow> t0 | t # _ \<Rightarrow> t)"
  have t1: "t0 \<le> t1" "t1 \<le> t2" "\<forall>t \<in> set (op_times op). t = t1"
    "\<forall>t \<in> set (times_of ops). t1 \<le> t"
    using Cons.prems(5,6,7) by (cases op; auto simp: t1_def)+
  have ahead: "tb_not_ahead s k t1"
    using Cons.prems(8) t1(1) by (auto simp: tb_not_ahead_def split: option.splits)
  have inv1: "tb_inv ?s1" using Cons.prems(1,2) by (simp add: tb.step_inv_cost)
  have "adm_sum (\<lambda>k' t. k' = k) (snd (tb_step s op)) + tb_tokens_at ?s1 k t1 = tb_tokens_at s k t1"
    and ahead1: "tb_not_ahead ?s1 k t1"
    by (rule tb_step_tokens; use Cons.prems ahead t1(3) in auto)+
  moreover have "tb_tokens_at s k t1 \<le> tb_tokens_at s k t0 + tb_rate s * (t1 - t0)"
    by (rule tb_tokens_at_mono) (use Cons.prems t1 in auto)
  moreover have "adm_sum (\<lambda>k' t. k' = k) (snd (run_machine tb_step ?s1 ops))
      \<le> tb_tokens_at ?s1 k t1 + tb_rate s * (t2 - t1)"
    using Cons.IH [of ?s1 t1] Cons.prems inv1 ahead1 t1 by (simp add: sorted_append)
  moreover have "tb_rate s * (t2 - t0) = tb_rate s * (t1 - t0) + tb_rate s * (t2 - t1)"
    by (simp add: algebra_simps)
  ultimately show ?case by simp
qed

lemma tb_run_not_ahead:
  assumes "tb_not_ahead s k t" "\<forall>t' \<in> set (times_of ops). t' \<le> t" "wf_map (tb_buckets s)"
  shows "tb_not_ahead (fst (run_machine tb_step s ops)) k t"
  using assms
proof (induction ops arbitrary: s)
  case Nil
  then show ?case by simp
next
  case (Cons op ops)
  have "tb_not_ahead (fst (tb_step s op)) k t \<and> wf_map (tb_buckets (fst (tb_step s op)))"
    using Cons.prems
    by (cases op) (auto simp: strategy_step_def tb_not_ahead_def tb_defs map_basic_simps map_get_filter
        split: option.splits)
  with Cons show ?case by simp
qed

text \<open>
  C29: The token bucket bounds the rate. After any history of operations, a key obtains over
  an interval of time in which it is not reset at most the tokens it would find at the start
  (at most the bucket size) plus the refill rate times the length of the interval, whatever
  other keys, reads and sweeps come in between, as long as times do not go backwards and the
  burst limit is at most twice \<open>maxRequests\<close> (it is 1.5 times that by default).
\<close>

theorem token_bucket_rate:
  fixes ops1 ops2 :: "'k rate_op list"
  assumes "0 \<le> max_requests" "0 < window_ms" "burstable \<longrightarrow> 0 \<le> burst_limit \<and> burst_limit \<le> 2 * max_requests"
    and "list_all op_cost_ok (ops1 @ ops2)" "\<forall>op \<in> set ops2. \<not> op_forgets k op"
    and "sorted (times_of ops2)" "\<forall>t \<in> set (times_of ops1). t \<le> t1"
    and "\<forall>t \<in> set (times_of ops2). t1 \<le> t \<and> t \<le> t2" "t1 \<le> t2"
  defines "s1 \<equiv> fst (run_machine tb_step (tb_new max_requests window_ms burstable burst_limit) ops1)"
  shows "adm_sum (\<lambda>k' t. k' = k) (snd (run_machine tb_step s1 ops2))
      \<le> tb_tokens_at s1 k t1 + max_requests / window_ms * (t2 - t1) \<and>
    tb_tokens_at s1 k t1 \<le> (if burstable then burst_limit else max_requests)"
proof -
  let ?s = "tb_new max_requests window_ms burstable burst_limit :: 'k token_bucket"
  let ?s1 = s1
  have inv: "tb_inv ?s" using assms(1-3) by (simp add: tb_inv_def tb_new_def)
  have inv1: "tb_inv ?s1" using inv assms(4) unfolding s1_def by (simp add: tb.machine.run_inv)
  have params: "tb_size ?s1 = tb_size ?s" "tb_rate ?s1 = tb_rate ?s" "tb_window_ms ?s1 = tb_window_ms ?s"
    unfolding s1_def by (induction ops1 rule: rev_induct) (simp_all add: run_machine_append split_def Let_def)
  have "tb_not_ahead ?s1 k t1"
    unfolding s1_def by (rule tb_run_not_ahead) (use assms(7) in \<open>auto simp: tb_not_ahead_def tb_new_def\<close>)
  then have "adm_sum (\<lambda>k' t. k' = k) (snd (run_machine tb_step ?s1 ops2))
      \<le> tb_tokens_at ?s1 k t1 + tb_rate ?s1 * (t2 - t1)"
    using inv1 assms(1-6,8,9) params by (intro tb_run_bound) (auto simp: tb_new_def)
  then show ?thesis
    using tb_tokens_at_le [OF inv1, of k t1] params by (simp add: tb_new_def)
qed

theorem token_bucket_rate_witness:
  "adm_sum (\<lambda>k' t. k' = ''a'')
     (snd (run_machine tb_step (fst (run_machine tb_step (tb_new 2 10 True 3) [Check ''a'' 3 0]))
        [Check ''a'' 1 5, Remaining ''a'' 7, Check ''a'' 1 10, Cleanup 10]))
     \<le> 1 + 2 / 10 * (10 - 5)"
proof -
  have "tb_tokens_at (fst (run_machine tb_step (tb_new 2 10 True 3) [Check ''a'' 3 0])) ''a'' 5 = 1"
    by (simp add: strategy_step_def tb_defs tb_new_def tb_tokens_at_def map_basic_simps)
  with token_bucket_rate [of 2 10 True 3 "[Check ''a'' 3 0]" "[Check ''a'' 1 5, Remaining ''a'' 7, Check ''a'' 1 10, Cleanup 10]" "''a''" 5 10]
  show ?thesis by simp
qed

text \<open>
  The bound on the burst limit matters. With a burst limit above twice
  \<open>maxRequests\<close>, the sweep gives tokens away: here a bucket of 10 refilled at 1 per 10 ms
  is emptied at time 0 and emptied again at time 21, right after a sweep, although only
  2.1 tokens accrued; without the sweep the second request is refused.
\<close>

theorem token_bucket_sweep_gives_tokens:
  "map (\<lambda>(k, c, t, w). (c, t))
     (snd (run_machine tb_step (tb_new 1 10 True 10) [Check ''a'' 10 0, Cleanup 21, Check ''a'' 10 21]))
     = [(10, 0), (10, 21)]
   \<and> map (\<lambda>(k, c, t, w). (c, t))
     (snd (run_machine tb_step (tb_new 1 10 True 10) [Check ''a'' 10 0, Check ''a'' 10 21]))
     = [(10, 0)]"
  by (simp add: strategy_step_def tb_defs tb_new_def map_get_def)

end
