(* ===== verification/Window_Log.thy ===== *)
theory Window_Log
  imports Rate_Strategy
begin

text \<open>
  \<open>src/resilience/strategies/window-log-strategy.js\<close> and its two subclasses
  \<open>sliding-window.js\<close> and \<open>leaky-bucket.js\<close>: a time-ordered log of admitted entries per
  key with a running total; expired entries are evicted from the front. The subclasses differ
  in the limit they enforce and in the delay the leaky bucket adds to an admission.
\<close>

section \<open>State and operations\<close>

record wl_entry =
  wl_timestamp :: rat
  wl_cost :: rat

record wl_window =
  wl_entries :: "wl_entry list"
  wl_total :: rat

record 'k window_log =
  wl_limit :: rat
  wl_window_ms :: rat
  wl_leak_rate_ms :: rat
  wl_windows :: "('k, wl_window) jsmap"

definition wl_new :: "rat \<Rightarrow> rat \<Rightarrow> 'k window_log" where
  "wl_new limit window_ms =
     \<lparr>wl_limit = limit, wl_window_ms = window_ms, wl_leak_rate_ms = 0, wl_windows = []\<rparr>"

definition sw_new :: "rat \<Rightarrow> rat \<Rightarrow> 'k window_log" where
  "sw_new max_requests window_ms = wl_new max_requests window_ms"

definition lb_new :: "rat \<Rightarrow> rat \<Rightarrow> rat \<Rightarrow> 'k window_log" where
  "lb_new max_requests window_ms queue_limit =
     (wl_new queue_limit window_ms)\<lparr>wl_leak_rate_ms := window_ms / max_requests\<rparr>"

definition wl_capacity :: "'k window_log \<Rightarrow> rat" where
  "wl_capacity s = wl_limit s"

fun wl_evict_entries :: "rat \<Rightarrow> rat \<Rightarrow> wl_entry list \<Rightarrow> rat \<Rightarrow> wl_entry list \<times> rat" where
  "wl_evict_entries window_ms now [] tot = ([], tot)"
| "wl_evict_entries window_ms now (e # es) tot =
     (if now - wl_timestamp e > window_ms
      then wl_evict_entries window_ms now es (tot - wl_cost e)
      else (e # es, tot))"

definition wl_evict :: "rat \<Rightarrow> rat \<Rightarrow> wl_window \<Rightarrow> wl_window" where
  "wl_evict window_ms now w =
     (case wl_evict_entries window_ms now (wl_entries w) (wl_total w) of
        (es, tot) \<Rightarrow> \<lparr>wl_entries = es, wl_total = tot\<rparr>)"

definition wl_window_for :: "'k \<Rightarrow> 'k window_log \<Rightarrow> wl_window" where
  "wl_window_for key s = (case map_get (wl_windows s) key of
      Some w \<Rightarrow> w | None \<Rightarrow> \<lparr>wl_entries = [], wl_total = 0\<rparr>)"

definition wl_occupy :: "'k \<Rightarrow> rat \<Rightarrow> rat \<Rightarrow> 'k window_log \<Rightarrow> 'k window_log \<times> rat option" where
  "wl_occupy key cost now s =
     (let w = wl_evict (wl_window_ms s) now (wl_window_for key s);
          s1 = s\<lparr>wl_windows := map_set key w (wl_windows s)\<rparr>
      in if wl_total w + cost > wl_limit s then (s1, None)
         else (s1\<lparr>wl_windows := map_set key
                    \<lparr>wl_entries = wl_entries w @ [\<lparr>wl_timestamp = now, wl_cost = cost\<rparr>],
                     wl_total = wl_total w + cost\<rparr> (wl_windows s1)\<rparr>,
               Some (wl_total w)))"

definition wl_remaining :: "'k \<Rightarrow> rat \<Rightarrow> 'k window_log \<Rightarrow> 'k window_log \<times> rat" where
  "wl_remaining key now s = (case map_get (wl_windows s) key of
      None \<Rightarrow> (s, wl_limit s)
    | Some w \<Rightarrow> (let w1 = wl_evict (wl_window_ms s) now w
                in (s\<lparr>wl_windows := map_set key w1 (wl_windows s)\<rparr>, wl_limit s - wl_total w1)))"

definition wl_cleanup :: "rat \<Rightarrow> 'k window_log \<Rightarrow> 'k window_log" where
  "wl_cleanup now s =
     s\<lparr>wl_windows := filter (\<lambda>(k, w). wl_entries w \<noteq> [])
         (map_values (wl_evict (wl_window_ms s) now) (wl_windows s))\<rparr>"

definition wl_reset :: "'k \<Rightarrow> 'k window_log \<Rightarrow> 'k window_log" where
  "wl_reset key s = s\<lparr>wl_windows := map_del key (wl_windows s)\<rparr>"

definition wl_clear :: "'k window_log \<Rightarrow> 'k window_log" where
  "wl_clear s = s\<lparr>wl_windows := []\<rparr>"

text \<open>The sliding window admits without delay; the leaky bucket delays by the occupancy before.\<close>

definition sw_check :: "'k \<Rightarrow> rat \<Rightarrow> rat \<Rightarrow> 'k window_log \<Rightarrow> 'k window_log \<times> rat option" where
  "sw_check key cost now s =
     (case wl_occupy key cost now s of (s1, r) \<Rightarrow> (s1, map_option (\<lambda>_. 0) r))"

definition lb_check :: "'k \<Rightarrow> rat \<Rightarrow> rat \<Rightarrow> 'k window_log \<Rightarrow> 'k window_log \<times> rat option" where
  "lb_check key cost now s =
     (case wl_occupy key cost now s of
        (s1, None) \<Rightarrow> (s1, None)
      | (s1, Some occupancy_before) \<Rightarrow>
          (let wait_time = occupancy_before * wl_leak_rate_ms s
           in (s1, Some (if wait_time > 0 then wait_time else 0))))"

section \<open>Invariant and contract\<close>

definition wl_window_ok :: "rat \<Rightarrow> wl_window \<Rightarrow> bool" where
  "wl_window_ok limit w \<longleftrightarrow> wl_total w = sum_list (map wl_cost (wl_entries w)) \<and>
     wl_total w \<le> limit \<and> list_all (\<lambda>e. 0 \<le> wl_cost e) (wl_entries w)"

definition wl_inv :: "'k window_log \<Rightarrow> bool" where
  "wl_inv s \<longleftrightarrow> 0 \<le> wl_limit s \<and> 0 \<le> wl_leak_rate_ms s \<and> wf_map (wl_windows s) \<and>
     map_all (wl_window_ok (wl_limit s)) (wl_windows s)"

lemma wl_evict_entries_drop:
  "\<exists>n. wl_evict_entries w now es tot = (drop n es, tot - sum_list (map wl_cost (take n es)))"
proof (induction es arbitrary: tot)
  case Nil
  then show ?case by simp
next
  case (Cons e es)
  show ?case
  proof (cases "now - wl_timestamp e > w")
    case True
    obtain n where "wl_evict_entries w now es (tot - wl_cost e) =
        (drop n es, tot - wl_cost e - sum_list (map wl_cost (take n es)))"
      using Cons.IH by blast
    with True show ?thesis by (intro exI [of _ "Suc n"]) simp
  next
    case False
    then show ?thesis by (intro exI [of _ 0]) simp
  qed
qed

lemma sum_list_costs_nonneg: "list_all (\<lambda>e. 0 \<le> wl_cost e) es \<Longrightarrow> 0 \<le> sum_list (map wl_cost es)"
  by (induction es) auto

lemma wl_evict_ok: "wl_window_ok limit w \<Longrightarrow> wl_window_ok limit (wl_evict ms now w)"
proof -
  assume ok: "wl_window_ok limit w"
  obtain n where n: "wl_evict_entries ms now (wl_entries w) (wl_total w) =
      (drop n (wl_entries w), wl_total w - sum_list (map wl_cost (take n (wl_entries w))))"
    using wl_evict_entries_drop by blast
  have "sum_list (map wl_cost (wl_entries w)) =
      sum_list (map wl_cost (take n (wl_entries w))) + sum_list (map wl_cost (drop n (wl_entries w)))"
    by (metis append_take_drop_id map_append sum_list_append)
  moreover have "list_all (\<lambda>e. 0 \<le> wl_cost e) (take n (wl_entries w))"
    and "list_all (\<lambda>e. 0 \<le> wl_cost e) (drop n (wl_entries w))"
    using ok by (auto simp: wl_window_ok_def list_all_iff dest: in_set_takeD in_set_dropD)
  moreover have "wl_evict ms now w = \<lparr>wl_entries = drop n (wl_entries w),
      wl_total = wl_total w - sum_list (map wl_cost (take n (wl_entries w)))\<rparr>"
    by (simp add: wl_evict_def n)
  ultimately show ?thesis
    using ok sum_list_costs_nonneg [of "take n (wl_entries w)"] by (simp add: wl_window_ok_def)
qed

lemma wl_window_for_ok: "wl_inv s \<Longrightarrow> wl_window_ok (wl_limit s) (wl_window_for k s)"
  by (auto simp: wl_window_for_def wl_inv_def wl_window_ok_def [of _ "\<lparr>wl_entries = [], wl_total = 0\<rparr>"]
      dest: map_all_get split: option.splits)

lemma wl_window_ok_nonneg: "wl_window_ok limit w \<Longrightarrow> 0 \<le> wl_total w"
  by (simp add: wl_window_ok_def sum_list_costs_nonneg)

lemma wl_occupy_inv:
  assumes "wl_inv s" "0 \<le> c" "wl_occupy k c t s = (s1, r)"
  shows "wl_inv s1" and "\<And>w. r = Some w \<Longrightarrow> 0 \<le> w \<and> w + c \<le> wl_limit s"
    and "wl_limit s1 = wl_limit s" "wl_window_ms s1 = wl_window_ms s"
    "wl_leak_rate_ms s1 = wl_leak_rate_ms s"
proof -
  let ?w = "wl_evict (wl_window_ms s) t (wl_window_for k s)"
  have ok: "wl_window_ok (wl_limit s) ?w"
    by (rule wl_evict_ok) (rule wl_window_for_ok [OF assms(1)])
  then have ok': "wl_total ?w + c \<le> wl_limit s \<Longrightarrow>
      wl_window_ok (wl_limit s) \<lparr>wl_entries = wl_entries ?w @ [\<lparr>wl_timestamp = t, wl_cost = c\<rparr>],
        wl_total = wl_total ?w + c\<rparr>"
    using assms(2) by (simp add: wl_window_ok_def)
  show "wl_inv s1" "wl_limit s1 = wl_limit s" "wl_window_ms s1 = wl_window_ms s"
    "wl_leak_rate_ms s1 = wl_leak_rate_ms s"
    using assms(1,3) ok ok'
    by (auto simp: wl_occupy_def Let_def wl_inv_def intro!: map_all_set split: if_splits)
  show "0 \<le> w \<and> w + c \<le> wl_limit s" if "r = Some w" for w
    using that assms(3) wl_window_ok_nonneg [OF ok]
    by (auto simp: wl_occupy_def Let_def split: if_splits)
qed

lemma wl_occupy_over: "wl_inv s \<Longrightarrow> wl_limit s < c \<Longrightarrow> snd (wl_occupy k c t s) = None"
  using wl_window_ok_nonneg [OF wl_evict_ok [OF wl_window_for_ok, of s "wl_window_ms s" t k]]
  by (auto simp: wl_occupy_def Let_def)

lemma wl_remaining_inv:
  assumes "wl_inv s"
  shows "wl_inv (fst (wl_remaining k t s))"
    and "0 \<le> snd (wl_remaining k t s)" "snd (wl_remaining k t s) \<le> wl_limit s"
proof -
  have "wl_window_ok (wl_limit s) (wl_evict (wl_window_ms s) t w)" if "map_get (wl_windows s) k = Some w" for w
    using that assms by (auto simp: wl_inv_def intro: wl_evict_ok dest: map_all_get)
  then show "wl_inv (fst (wl_remaining k t s))" "0 \<le> snd (wl_remaining k t s)"
    "snd (wl_remaining k t s) \<le> wl_limit s"
    using assms
    by (auto simp: wl_remaining_def Let_def wl_inv_def wl_window_ok_def intro: map_all_set
        sum_list_costs_nonneg split: option.splits)
qed

lemma wl_cleanup_inv: "wl_inv s \<Longrightarrow> wl_inv (wl_cleanup t s)"
  by (auto simp: wl_inv_def wl_cleanup_def intro!: map_all_filter map_all_values wl_evict_ok)

lemmas wl_defs = wl_occupy_def wl_window_for_def wl_remaining_def wl_cleanup_def wl_reset_def
  wl_clear_def wl_capacity_def Let_def

lemma wl_params [simp]:
  "wl_limit (fst (wl_occupy k c t s)) = wl_limit s"
  "wl_limit (fst (wl_remaining k t s)) = wl_limit s"
  by (auto simp: wl_defs split: option.splits)

lemma sw_check_simps [simp]:
  "fst (sw_check k c t s) = fst (wl_occupy k c t s)"
  "snd (sw_check k c t s) = map_option (\<lambda>_. 0) (snd (wl_occupy k c t s))"
  by (simp_all add: sw_check_def split_def)

lemma lb_check_simps [simp]:
  "fst (lb_check k c t s) = fst (wl_occupy k c t s)"
  "snd (lb_check k c t s) =
     map_option (\<lambda>n. max 0 (n * wl_leak_rate_ms s)) (snd (wl_occupy k c t s))"
  by (auto simp: lb_check_def Let_def split: prod.split option.split)

lemma wl_occupy_fresh:
  "c \<le> wl_limit s \<Longrightarrow> snd (wl_occupy k c t (wl_reset k s)) = Some 0"
  "c \<le> wl_limit s \<Longrightarrow> snd (wl_occupy k c t (wl_clear s)) = Some 0"
  by (simp_all add: wl_defs wl_evict_def map_basic_simps)

lemma wl_occupy_isolated:
  "k' \<noteq> k \<Longrightarrow> snd (wl_occupy k' c' t' (fst (wl_occupy k c t s))) = snd (wl_occupy k' c' t' s)"
  by (simp add: wl_defs map_basic_simps)

lemma wl_leak_rate_occupy [simp]: "wl_leak_rate_ms (fst (wl_occupy k c t s)) = wl_leak_rate_ms s"
  by (simp add: wl_defs)

section \<open>The subclasses\<close>

text \<open>
  What the two subclasses share: a check changes the state as \<open>occupy\<close> does and admits
  exactly when \<open>occupy\<close> does.
\<close>

locale window_log_strategy =
  rate_strategy ck wl_remaining wl_cleanup wl_reset wl_clear wl_capacity wl_inv
  for ck :: "'k \<Rightarrow> rat \<Rightarrow> rat \<Rightarrow> 'k window_log \<Rightarrow> 'k window_log \<times> rat option" +
  assumes ck_state: "fst (ck k c t s) = fst (wl_occupy k c t s)"
    and ck_admits: "snd (ck k c t s) = None \<longleftrightarrow> snd (wl_occupy k c t s) = None"

interpretation sw: window_log_strategy sw_check
  by unfold_locales
     (auto simp: wl_occupy_inv(1) [OF _ _ surjective_pairing] wl_remaining_inv wl_cleanup_inv
        wl_capacity_def wl_occupy_over wl_occupy_fresh wl_occupy_isolated,
      auto simp: wl_inv_def wl_defs intro: map_all_intros)

interpretation lb: window_log_strategy lb_check
  by unfold_locales
     (auto simp: wl_occupy_inv(1) [OF _ _ surjective_pairing] wl_remaining_inv wl_cleanup_inv
        wl_capacity_def wl_occupy_over wl_occupy_fresh wl_occupy_isolated,
      auto simp: wl_inv_def wl_defs intro: map_all_intros)

section \<open>The limit over every window of time\<close>

lemma wl_evict_entries_dropWhile:
  "fst (wl_evict_entries ms now es tot) = dropWhile (\<lambda>e. now - wl_timestamp e > ms) es"
  by (induction es arbitrary: tot) auto

lemma wl_evict_dropWhile:
  "wl_entries (wl_evict ms now w) = dropWhile (\<lambda>e. now - wl_timestamp e > ms) (wl_entries w)"
  by (simp add: wl_evict_def split_def wl_evict_entries_dropWhile)

text \<open>In a log ordered by time the eviction from the front is a filter.\<close>

lemma dropWhile_expired:
  "sorted (map wl_timestamp es) \<Longrightarrow>
     dropWhile (\<lambda>e. now - wl_timestamp e > ms) es = filter (\<lambda>e. now - wl_timestamp e \<le> ms) es"
proof (induction es)
  case Nil
  then show ?case by simp
next
  case (Cons e es)
  show ?case
  proof (cases "now - wl_timestamp e > ms")
    case True
    with Cons show ?thesis by simp
  next
    case False
    with Cons.prems have "\<forall>e' \<in> set es. now - wl_timestamp e' \<le> ms" by fastforce
    with False show ?thesis by simp
  qed
qed

definition wl_log :: "'k \<Rightarrow> 'k admission list \<Rightarrow> wl_entry list" where
  "wl_log k out = map (\<lambda>(k', c, t, w). \<lparr>wl_timestamp = t, wl_cost = c\<rparr>) (filter (\<lambda>(k', _). k' = k) out)"

lemma wl_log_simps [simp]:
  "wl_log k [] = []"
  "wl_log k (out @ out') = wl_log k out @ wl_log k out'"
  "wl_log k [(k', c, t, w)] = (if k' = k then [\<lparr>wl_timestamp = t, wl_cost = c\<rparr>] else [])"
  by (simp_all add: wl_log_def)

lemma adm_sum_log:
  "adm_sum (\<lambda>k' t. k' = k \<and> P t) out =
     sum_list (map wl_cost (filter (\<lambda>e. P (wl_timestamp e)) (wl_log k out)))"
  by (induction out) (auto simp: wl_log_def)

text \<open>
  The history of a key: its log holds the admissions that were not expired at some earlier
  time \<open>E\<close>, and no window of time holds more than the limit.
\<close>

definition wl_history :: "'k \<Rightarrow> 'k window_log \<Rightarrow> 'k admission list \<Rightarrow> rat \<Rightarrow> bool" where
  "wl_history k s out now \<longleftrightarrow>
     sorted (map wl_timestamp (wl_log k out)) \<and>
     (\<forall>e \<in> set (wl_log k out). wl_timestamp e \<le> now \<and> 0 \<le> wl_cost e) \<and>
     (\<exists>E \<le> now. wl_entries (wl_window_for k s) =
        filter (\<lambda>e. E - wl_timestamp e \<le> wl_window_ms s) (wl_log k out)) \<and>
     (\<forall>u. adm_sum (\<lambda>k' t. k' = k \<and> u - wl_window_ms s \<le> t \<and> t \<le> u) out \<le> wl_limit s)"

lemma wl_history_later:
  "wl_history k s out now \<Longrightarrow> now \<le> now' \<Longrightarrow> wl_history k s out now'"
  unfolding wl_history_def by (meson order_trans)

text \<open>Evicting at the current time keeps the history.\<close>

lemma wl_history_evict:
  assumes "wl_history k s out now"
  shows "wl_entries (wl_evict (wl_window_ms s) now (wl_window_for k s)) =
     filter (\<lambda>e. now - wl_timestamp e \<le> wl_window_ms s) (wl_log k out)"
proof -
  obtain E where E: "E \<le> now" "wl_entries (wl_window_for k s) =
      filter (\<lambda>e. E - wl_timestamp e \<le> wl_window_ms s) (wl_log k out)"
    using assms by (auto simp: wl_history_def)
  have "sorted (map wl_timestamp (wl_entries (wl_window_for k s)))"
    using assms by (simp add: E(2) sorted_filter wl_history_def)
  then have "wl_entries (wl_evict (wl_window_ms s) now (wl_window_for k s)) =
      filter (\<lambda>e. now - wl_timestamp e \<le> wl_window_ms s) (wl_entries (wl_window_for k s))"
    by (simp add: wl_evict_dropWhile dropWhile_expired)
  also have "\<dots> = filter (\<lambda>e. now - wl_timestamp e \<le> wl_window_ms s) (wl_log k out)"
    unfolding E(2) filter_filter using E(1) by (intro filter_cong) auto
  finally show ?thesis .
qed

text \<open>A state whose log of the key is the old one, or the old one evicted now.\<close>

lemma wl_history_same:
  assumes "wl_history k s out now"
    and "wl_limit s1 = wl_limit s" "wl_window_ms s1 = wl_window_ms s"
    and "wl_entries (wl_window_for k s1) = wl_entries (wl_window_for k s) \<or>
         wl_entries (wl_window_for k s1) = wl_entries (wl_evict (wl_window_ms s) now (wl_window_for k s))"
  shows "wl_history k s1 out now"
  using assms wl_history_evict [OF assms(1)] by (auto simp: wl_history_def)

lemma sum_costs_filter_mono:
  "\<forall>e \<in> set es. 0 \<le> wl_cost e \<and> (P e \<longrightarrow> Q e) \<Longrightarrow>
     sum_list (map wl_cost (filter P es)) \<le> sum_list (map wl_cost (filter Q es))"
  by (induction es) fastforce+

lemma wl_history_admit:
  assumes hist: "wl_history k s out now" and inv: "wl_inv s" "0 \<le> c" "0 \<le> wl_window_ms s"
    and occ: "wl_occupy k c now s = (s1, Some n)"
  shows "wl_history k s1 (out @ [(k, c, now, w)]) now"
proof -
  let ?ms = "wl_window_ms s" and ?log = "wl_log k out" and ?e = "\<lparr>wl_timestamp = now, wl_cost = c\<rparr>"
  let ?w = "wl_evict ?ms now (wl_window_for k s)"
  note params = wl_occupy_inv(3,4) [OF inv(1,2) occ]
  have es: "wl_entries ?w = filter (\<lambda>e. now - wl_timestamp e \<le> ?ms) ?log"
    by (rule wl_history_evict [OF hist])
  have ok: "wl_window_ok (wl_limit s) ?w"
    by (rule wl_evict_ok) (rule wl_window_for_ok [OF inv(1)])
  have s1: "wl_entries (wl_window_for k s1) = wl_entries ?w @ [?e]" "wl_total ?w + c \<le> wl_limit s"
    using occ by (auto simp: wl_occupy_def Let_def wl_window_for_def [of k s1] map_basic_simps split: if_splits)
  have past: "\<forall>e \<in> set ?log. wl_timestamp e \<le> now \<and> 0 \<le> wl_cost e"
    using hist by (simp add: wl_history_def)
  have bound: "adm_sum (\<lambda>k' t. k' = k \<and> u - ?ms \<le> t \<and> t \<le> u) (out @ [(k, c, now, w)]) \<le> wl_limit s" for u
  proof (cases "u - ?ms \<le> now \<and> now \<le> u")
    case True
    have "sum_list (map wl_cost (filter (\<lambda>e. u - ?ms \<le> wl_timestamp e \<and> wl_timestamp e \<le> u) ?log))
        \<le> sum_list (map wl_cost (filter (\<lambda>e. now - wl_timestamp e \<le> ?ms) ?log))"
      by (rule sum_costs_filter_mono) (use past True in fastforce)
    also have "\<dots> = wl_total ?w" using ok by (simp add: wl_window_ok_def es)
    finally show ?thesis using True s1(2) by (simp add: adm_sum_log)
  next
    case False
    then show ?thesis using hist by (auto simp: wl_history_def)
  qed
  have "sorted (map wl_timestamp (?log @ [?e]))"
    using hist past by (simp add: wl_history_def sorted_append)
  moreover have "wl_entries (wl_window_for k s1) =
      filter (\<lambda>e. now - wl_timestamp e \<le> ?ms) (wl_log k (out @ [(k, c, now, w)]))"
    using inv(3) by (simp add: s1(1) es)
  then have "\<exists>E \<le> now. wl_entries (wl_window_for k s1) =
      filter (\<lambda>e. E - wl_timestamp e \<le> wl_window_ms s1) (wl_log k (out @ [(k, c, now, w)]))"
    unfolding params(2) by blast
  ultimately show ?thesis
    unfolding wl_history_def params using past inv(2) bound by simp
qed

lemma wl_history_refuse:
  assumes "wl_history k s out now" "wl_inv s" "wl_occupy k' c now s = (s1, r)" "0 \<le> c"
    and "r = None \<or> k' \<noteq> k"
  shows "wl_history k s1 out now"
  by (rule wl_history_same [OF assms(1)])
     (use assms wl_occupy_inv(3,4) [OF assms(2,4,3)] in
       \<open>auto simp: wl_occupy_def Let_def wl_window_for_def map_basic_simps split: if_splits\<close>)

context window_log_strategy
begin

lemma step_window_ms: "wl_window_ms (fst (step s op)) = wl_window_ms s"
proof (cases op)
  case (Check k c t)
  have "wl_window_ms (fst (ck k c t s)) = wl_window_ms s"
    unfolding ck_state by (simp add: wl_defs)
  then show ?thesis by (auto simp: strategy_step_def Check split: prod.split option.split)
qed (auto simp: strategy_step_def wl_defs split: option.split)

lemma history_step:
  assumes hist: "wl_history k s out now" and s: "wl_inv s" "0 \<le> wl_window_ms s"
    and op: "op_cost_ok op" "\<not> op_forgets k op" "\<forall>t \<in> set (op_times op). t = now"
  shows "wl_history k (fst (step s op)) (out @ snd (step s op)) now"
proof -
  show "wl_history k (fst (step s op)) (out @ snd (step s op)) now"
  proof (cases op)
    case (Check k' c t)
    obtain s1 r where occ: "wl_occupy k' c now s = (s1, r)" by (cases "wl_occupy k' c now s")
    obtain r' where ck: "ck k' c now s = (s1, r')" "r' = None \<longleftrightarrow> r = None"
      using ck_state [of k' c now s] ck_admits [of k' c now s] occ by (cases "ck k' c now s") auto
    from op Check have "0 \<le> c" "t = now" by auto
    show ?thesis
    proof (cases "r = None \<or> k' \<noteq> k")
      case True
      then have "wl_history k s1 out now"
        using wl_history_refuse [OF hist s(1) occ \<open>0 \<le> c\<close>] by simp
      then have "wl_history k s1 (out @ [(k', c, now, w)]) now" if "k' \<noteq> k" for w
        using that by (simp add: wl_history_def)
      with True \<open>wl_history k s1 out now\<close> ck show ?thesis
        by (auto simp: strategy_step_def Check \<open>t = now\<close> split: option.split)
    next
      case False
      with occ ck wl_history_admit [OF hist s(1) \<open>0 \<le> c\<close> s(2)] show ?thesis
        by (auto simp: strategy_step_def Check \<open>t = now\<close>)
    qed
  next
    case (Remaining k' t)
    with op(3) show ?thesis
      by (auto simp: strategy_step_def wl_remaining_def Let_def wl_window_for_def map_basic_simps
          intro!: wl_history_same [OF hist] split: option.split)
  next
    case (Cleanup t)
    with op(3) s(1) show ?thesis
      by (auto simp: strategy_step_def wl_cleanup_def wl_window_for_def map_basic_simps map_get_filter
          wl_inv_def wl_evict_def intro!: wl_history_same [OF hist] split: option.split)
  qed (use op hist in \<open>auto simp: strategy_step_def wl_reset_def wl_window_for_def map_basic_simps wl_history_def\<close>)
qed

lemma run_window_ms: "wl_window_ms (fst (run_machine step s ops)) = wl_window_ms s"
  by (induction ops arbitrary: s) (simp_all add: step_window_ms)

lemma history_run:
  assumes "wl_history k s out now" "wl_inv s" "0 \<le> wl_window_ms s"
    and "list_all op_cost_ok ops" "\<forall>op \<in> set ops. \<not> op_forgets k op"
    and "sorted (times_of ops)" "\<forall>t \<in> set (times_of ops). now \<le> t"
  shows "\<exists>now'. wl_history k (fst (run_machine step s ops)) (out @ snd (run_machine step s ops)) now'"
  using assms
proof (induction ops arbitrary: s out now)
  case Nil
  then show ?case by auto
next
  case (Cons op ops)
  define t1 where "t1 = (case op_times op of [] \<Rightarrow> now | t # _ \<Rightarrow> t)"
  have t1: "now \<le> t1" "\<forall>t \<in> set (op_times op). t = t1" "\<forall>t \<in> set (times_of ops). t1 \<le> t"
    using Cons.prems(6,7) by (cases op; auto simp: t1_def)+
  have h1: "wl_history k s out t1" using Cons.prems(1) t1(1) by (rule wl_history_later)
  have "wl_history k (fst (step s op)) (out @ snd (step s op)) t1"
    by (rule history_step [OF h1]) (use Cons.prems t1(2) in auto)
  moreover have "wl_inv (fst (step s op))"
    by (rule step_inv_cost) (use Cons.prems in auto)
  ultimately show ?case
    using Cons.IH [of "fst (step s op)" "out @ snd (step s op)" t1] Cons.prems t1(3)
    by (simp add: sorted_append step_window_ms)
qed

text \<open>No window of time, wherever it is put, holds more than the limit.\<close>

lemma window_bound:
  assumes "wl_inv s" "wl_windows s = []" "0 \<le> wl_window_ms s"
    and "list_all op_cost_ok ops" "\<forall>op \<in> set ops. \<not> op_forgets k op" "sorted (times_of ops)"
  shows "adm_sum (\<lambda>k' t. k' = k \<and> u - wl_window_ms s \<le> t \<and> t \<le> u)
           (snd (run_machine step s ops)) \<le> wl_limit s"
proof -
  define now where "now = (case times_of ops of [] \<Rightarrow> 0 | t # _ \<Rightarrow> t)"
  have now: "\<forall>t \<in> set (times_of ops). now \<le> t"
    using assms(6) by (auto simp: now_def split: list.split)
  have "wl_history k s [] now"
    using assms(1,2) by (auto simp: wl_history_def wl_window_for_def wl_inv_def)
  then obtain now' where h: "wl_history k (fst (run_machine step s ops)) ([] @ snd (run_machine step s ops)) now'"
    using history_run [OF _ assms(1,3-6) now, where out = "[]"] by blast
  have "wl_limit (fst (run_machine step s ops)) = wl_limit s"
    using run_capacity [of s ops] by (simp add: wl_capacity_def)
  moreover have "wl_window_ms (fst (run_machine step s ops)) = wl_window_ms s"
    by (rule run_window_ms)
  ultimately show ?thesis using h by (simp add: wl_history_def)
qed

end

section \<open>Properties\<close>

abbreviation sw_step :: "'k window_log \<Rightarrow> 'k rate_op \<Rightarrow> 'k window_log \<times> 'k admission list" where
  "sw_step \<equiv> strategy_step sw_check wl_remaining wl_cleanup wl_reset wl_clear"

abbreviation lb_step :: "'k window_log \<Rightarrow> 'k rate_op \<Rightarrow> 'k window_log \<times> 'k admission list" where
  "lb_step \<equiv> strategy_step lb_check wl_remaining wl_cleanup wl_reset wl_clear"

text \<open>
  C11: The sliding window holds the limit over every window of time, not only over the ones
  that start at a multiple of its length. For any instant \<open>u\<close>, the costs admitted to a key
  between \<open>u - windowMs\<close> and \<open>u\<close> sum up to at most \<open>maxRequests\<close>, in any sequence of
  operations with non-decreasing times in which the key is not reset.
\<close>

theorem sliding_window_limit:
  assumes "0 \<le> max_requests" "0 \<le> window_ms"
    and "list_all op_cost_ok ops" "\<forall>op \<in> set ops. \<not> op_forgets k op" "sorted (times_of ops)"
  shows "adm_sum (\<lambda>k' t. k' = k \<and> u - window_ms \<le> t \<and> t \<le> u)
           (snd (run_machine sw_step (sw_new max_requests window_ms) ops)) \<le> max_requests"
  using sw.window_bound [of "sw_new max_requests window_ms" ops k u] assms
  by (simp add: sw_new_def wl_new_def wl_inv_def)

theorem sliding_window_limit_witness:
  "adm_sum (\<lambda>k' t. k' = ''a'' \<and> 19 - 10 \<le> t \<and> t \<le> 19)
     (snd (run_machine sw_step (sw_new 2 10)
        [Check ''a'' 1 8, Check ''a'' 1 9, Check ''a'' 1 12, Cleanup 19, Check ''a'' 1 19])) \<le> (2::rat)"
  by (rule sliding_window_limit) auto

lemma lb_occupancy:
  assumes "wl_window_for k s = \<lparr>wl_entries = replicate n \<lparr>wl_timestamp = t, wl_cost = 1\<rparr>, wl_total = of_nat n\<rparr>"
    and "0 \<le> wl_window_ms s" "of_nat (Suc n) \<le> wl_limit s" "0 \<le> wl_leak_rate_ms s"
  shows "\<exists>s1. lb_check k 1 t s = (s1, Some (of_nat n * wl_leak_rate_ms s)) \<and>
     wl_window_for k s1 = \<lparr>wl_entries = replicate (Suc n) \<lparr>wl_timestamp = t, wl_cost = 1\<rparr>, wl_total = of_nat (Suc n)\<rparr> \<and>
     wl_window_ms s1 = wl_window_ms s \<and> wl_limit s1 = wl_limit s \<and> wl_leak_rate_ms s1 = wl_leak_rate_ms s"
proof -
  have "wl_evict (wl_window_ms s) t (wl_window_for k s) = wl_window_for k s"
    using assms(1,2) by (cases n) (simp_all add: wl_evict_def)
  then obtain s1 where s1: "wl_occupy k 1 t s = (s1, Some (of_nat n))"
    "wl_window_for k s1 = \<lparr>wl_entries = replicate (Suc n) \<lparr>wl_timestamp = t, wl_cost = 1\<rparr>, wl_total = of_nat (Suc n)\<rparr>"
    "wl_window_ms s1 = wl_window_ms s" "wl_limit s1 = wl_limit s" "wl_leak_rate_ms s1 = wl_leak_rate_ms s"
    using assms
    by (auto simp: wl_occupy_def Let_def map_basic_simps wl_window_for_def [of k "_\<lparr>wl_windows := _\<rparr>"]
        replicate_append_same)
  have "0 \<le> of_nat n * wl_leak_rate_ms s" using assms(4) by simp
  then have "snd (lb_check k 1 t s) = Some (of_nat n * wl_leak_rate_ms s)"
    by (simp add: s1(1) max_absorb2)
  moreover have "fst (lb_check k 1 t s) = s1" by (simp add: s1(1))
  ultimately have "lb_check k 1 t s = (s1, Some (of_nat n * wl_leak_rate_ms s))"
    by (simp add: prod_eq_iff)
  with s1 show ?thesis by blast
qed

lemma lb_burst:
  assumes "wl_window_for k s = \<lparr>wl_entries = replicate n \<lparr>wl_timestamp = t, wl_cost = 1\<rparr>, wl_total = of_nat n\<rparr>"
    and "0 \<le> wl_window_ms s" "of_nat (n + m) \<le> wl_limit s" "0 \<le> wl_leak_rate_ms s"
  shows "snd (run_machine lb_step s (replicate m (Check k 1 t))) =
     map (\<lambda>i. (k, 1, t, of_nat i * wl_leak_rate_ms s)) [n ..< n + m]"
  using assms
proof (induction m arbitrary: s n)
  case 0
  then show ?case by simp
next
  case (Suc m)
  have "of_nat (Suc n) \<le> wl_limit s"
    by (rule order_trans [OF _ Suc.prems(3)]) simp
  then obtain s1 where s1: "lb_check k 1 t s = (s1, Some (of_nat n * wl_leak_rate_ms s))"
    "wl_window_for k s1 = \<lparr>wl_entries = replicate (Suc n) \<lparr>wl_timestamp = t, wl_cost = 1\<rparr>, wl_total = of_nat (Suc n)\<rparr>"
    "wl_window_ms s1 = wl_window_ms s" "wl_limit s1 = wl_limit s" "wl_leak_rate_ms s1 = wl_leak_rate_ms s"
    using lb_occupancy [OF Suc.prems(1,2) _ Suc.prems(4)] by blast
  then have "snd (run_machine lb_step s1 (replicate m (Check k 1 t))) =
      map (\<lambda>i. (k, 1, t, of_nat i * wl_leak_rate_ms s)) [Suc n ..< Suc n + m]"
    using Suc.IH [OF s1(2)] Suc.prems by simp
  moreover have "lb_step s (Check k 1 t) = (s1, [(k, 1, t, of_nat n * wl_leak_rate_ms s)])"
    by (simp add: strategy_step_def s1(1))
  ultimately show ?case by (simp add: upt_conv_Cons del: upt_Suc)
qed

text \<open>
  The leaky bucket paces a burst. Of \<open>n\<close> requests of cost 1 that arrive for one key at
  one instant, with \<open>n\<close> within the queue limit, every one is admitted and the \<open>i\<close>-th
  (from 0) is released after \<open>i\<close> leak intervals of \<open>windowMs / maxRequests\<close>: the burst
  leaves the bucket evenly spaced.
\<close>

theorem leaky_bucket_paces_burst:
  assumes "0 \<le> window_ms" "0 < max_requests" "of_nat n \<le> queue_limit"
  shows "snd (run_machine lb_step (lb_new max_requests window_ms queue_limit) (replicate n (Check k 1 t)))
     = map (\<lambda>i. (k, 1, t, of_nat i * (window_ms / max_requests))) [0 ..< n]"
  using lb_burst [of k "lb_new max_requests window_ms queue_limit" 0 t n] assms
  by (simp add: lb_new_def wl_new_def wl_window_for_def)

theorem leaky_bucket_paces_burst_witness:
  "snd (run_machine lb_step (lb_new 2 10 3) (replicate 3 (Check ''a'' 1 7)))
     = map (\<lambda>i. (''a'', 1, 7, of_nat i * (10 / 2))) [0 ..< 3]"
  by (rule leaky_bucket_paces_burst) auto

end
