(* ===== verification/Fixed_Window.thy ===== *)
theory Fixed_Window
  imports Rate_Strategy
begin

text \<open>
  \<open>src/resilience/strategies/fixed-window.js\<close>: one counter per key, anchored to windows of
  clock time. The counter object found in the map is mutated in place when its window is
  over, also when the check is then refused; a fresh counter enters the map only on admission.
\<close>

section \<open>State and operations\<close>

record fw_counter =
  fw_count :: rat
  fw_start :: rat

record 'k fixed_window =
  fw_max_requests :: rat
  fw_window_ms :: rat
  fw_counters :: "('k, fw_counter) jsmap"

definition fw_new :: "rat \<Rightarrow> rat \<Rightarrow> 'k fixed_window" where
  "fw_new max_requests window_ms =
     \<lparr>fw_max_requests = max_requests, fw_window_ms = window_ms, fw_counters = []\<rparr>"

definition fw_capacity :: "'k fixed_window \<Rightarrow> rat" where
  "fw_capacity s = fw_max_requests s"

definition fw_window_start :: "rat \<Rightarrow> rat \<Rightarrow> rat" where
  "fw_window_start window_ms now = of_int \<lfloor>now / window_ms\<rfloor> * window_ms"

definition fw_roll :: "rat \<Rightarrow> fw_counter \<Rightarrow> fw_counter" where
  "fw_roll ws c = (if fw_start c \<noteq> ws then \<lparr>fw_count = 0, fw_start = ws\<rparr> else c)"

definition fw_check :: "'k \<Rightarrow> rat \<Rightarrow> rat \<Rightarrow> 'k fixed_window \<Rightarrow> 'k fixed_window \<times> rat option" where
  "fw_check key cost now s =
     (let ws = fw_window_start (fw_window_ms s) now;
          found = map_get (fw_counters s) key;
          counter = fw_roll ws (case found of Some c \<Rightarrow> c | None \<Rightarrow> \<lparr>fw_count = 0, fw_start = ws\<rparr>);
          s1 = (case found of
                  Some _ \<Rightarrow> s\<lparr>fw_counters := map_set key counter (fw_counters s)\<rparr>
                | None \<Rightarrow> s)
      in if fw_count counter + cost > fw_max_requests s then (s1, None)
         else (s1\<lparr>fw_counters := map_set key (counter\<lparr>fw_count := fw_count counter + cost\<rparr>)
                    (fw_counters s1)\<rparr>, Some 0))"

definition fw_remaining :: "'k \<Rightarrow> rat \<Rightarrow> 'k fixed_window \<Rightarrow> 'k fixed_window \<times> rat" where
  "fw_remaining key now s =
     (s, case map_get (fw_counters s) key of
           None \<Rightarrow> fw_max_requests s
         | Some c \<Rightarrow> if fw_start c \<noteq> fw_window_start (fw_window_ms s) now then fw_max_requests s
                     else fw_max_requests s - fw_count c)"

definition fw_cleanup :: "rat \<Rightarrow> 'k fixed_window \<Rightarrow> 'k fixed_window" where
  "fw_cleanup now s =
     s\<lparr>fw_counters := filter (\<lambda>(k, c). fw_start c = fw_window_start (fw_window_ms s) now) (fw_counters s)\<rparr>"

definition fw_reset :: "'k \<Rightarrow> 'k fixed_window \<Rightarrow> 'k fixed_window" where
  "fw_reset key s = s\<lparr>fw_counters := map_del key (fw_counters s)\<rparr>"

definition fw_clear :: "'k fixed_window \<Rightarrow> 'k fixed_window" where
  "fw_clear s = s\<lparr>fw_counters := []\<rparr>"

section \<open>Invariant and contract\<close>

definition fw_counter_ok :: "rat \<Rightarrow> fw_counter \<Rightarrow> bool" where
  "fw_counter_ok limit c \<longleftrightarrow> 0 \<le> fw_count c \<and> fw_count c \<le> limit"

definition fw_inv :: "'k fixed_window \<Rightarrow> bool" where
  "fw_inv s \<longleftrightarrow> 0 \<le> fw_max_requests s \<and> wf_map (fw_counters s) \<and>
     map_all (fw_counter_ok (fw_max_requests s)) (fw_counters s)"

lemma fw_invD:
  "fw_inv s \<Longrightarrow> map_get (fw_counters s) k = Some c \<Longrightarrow>
     0 \<le> fw_count c \<and> fw_count c \<le> fw_max_requests s"
  by (auto simp: fw_inv_def fw_counter_ok_def dest: map_all_get)

lemmas fw_defs = fw_check_def fw_roll_def fw_remaining_def fw_cleanup_def fw_reset_def
  fw_clear_def fw_capacity_def Let_def

lemma fw_params [simp]:
  "fw_max_requests (fst (fw_check k c t s)) = fw_max_requests s"
  "fw_window_ms (fst (fw_check k c t s)) = fw_window_ms s"
  "fw_max_requests (fw_cleanup t s) = fw_max_requests s"
  "fw_window_ms (fw_cleanup t s) = fw_window_ms s"
  "fst (fw_remaining k t s) = s"
  by (auto simp: fw_defs split: option.splits)

lemma fw_inv_check: "fw_inv s \<Longrightarrow> 0 \<le> c \<Longrightarrow> fw_inv (fst (fw_check k c t s))"
  using fw_invD [of s k]
  by (auto simp: fw_defs fw_inv_def fw_counter_ok_def intro!: map_all_set split: option.splits)

lemma fw_over_capacity: "fw_inv s \<Longrightarrow> fw_capacity s < c \<Longrightarrow> snd (fw_check k c t s) = None"
  by (auto simp: fw_defs split: option.splits dest!: fw_invD)

lemma fw_remaining_bounds:
  "fw_inv s \<Longrightarrow> 0 \<le> snd (fw_remaining k t s) \<and> snd (fw_remaining k t s) \<le> fw_capacity s"
  by (auto simp: fw_defs split: option.splits dest: fw_invD) (auto simp: fw_inv_def)

interpretation fw: rate_strategy fw_check fw_remaining fw_cleanup fw_reset fw_clear fw_capacity fw_inv
  by unfold_locales
     (simp_all add: fw_inv_check fw_over_capacity fw_remaining_bounds,
      auto simp: fw_defs fw_inv_def map_basic_simps intro: map_all_intros split: option.splits if_splits)

section \<open>The limit per window\<close>

abbreviation fw_step :: "'k fixed_window \<Rightarrow> 'k rate_op \<Rightarrow> 'k fixed_window \<times> 'k admission list" where
  "fw_step \<equiv> strategy_step fw_check fw_remaining fw_cleanup fw_reset fw_clear"

definition fw_used :: "'k fixed_window \<Rightarrow> 'k \<Rightarrow> rat \<Rightarrow> rat" where
  "fw_used s k ws = (case map_get (fw_counters s) k of
      Some c \<Rightarrow> (if fw_start c = ws then fw_count c else 0) | None \<Rightarrow> 0)"

definition fw_not_ahead :: "'k fixed_window \<Rightarrow> 'k \<Rightarrow> rat \<Rightarrow> bool" where
  "fw_not_ahead s k now = (case map_get (fw_counters s) k of
      Some c \<Rightarrow> fw_start c \<le> fw_window_start (fw_window_ms s) now | None \<Rightarrow> True)"

lemma fw_window_start_mono:
  "0 < w \<Longrightarrow> t \<le> t' \<Longrightarrow> fw_window_start w t \<le> fw_window_start w t'"
  by (auto simp: fw_window_start_def intro!: mult_right_mono floor_mono divide_right_mono)

lemma fw_step_window_ms [simp]: "fw_window_ms (fst (fw_step s op)) = fw_window_ms s"
  by (cases op) (auto simp: strategy_step_def fw_defs split: option.splits)

lemma fw_used_le: "fw_inv s \<Longrightarrow> fw_used s k ws \<le> fw_max_requests s"
  using fw_invD [of s k] by (auto simp: fw_used_def fw_inv_def split: option.splits)

text \<open>One operation, seen from the window \<open>ws\<close> of one key.\<close>

lemma fw_step_used:
  assumes "fw_inv s" "0 < fw_window_ms s" "op_cost_ok op" "\<not> op_forgets k op"
    and "\<forall>t \<in> set (op_times op). fw_not_ahead s k t \<and> fw_window_start (fw_window_ms s) t \<le> ws"
  shows "adm_sum (\<lambda>k' t. k' = k \<and> fw_window_start (fw_window_ms s) t = ws) (snd (fw_step s op))
           + fw_used s k ws \<le> fw_used (fst (fw_step s op)) k ws"
  using assms
  by (cases op)
     (auto simp: strategy_step_def fw_used_def fw_not_ahead_def fw_defs map_basic_simps fw_inv_def
        map_get_filter split: option.splits if_splits)

lemma fw_step_not_ahead:
  assumes "fw_inv s" "0 < fw_window_ms s" "\<not> op_forgets k op" "fw_not_ahead s k t0"
    and "\<forall>t \<in> set (op_times op). t0 \<le> t \<and> t \<le> t1" "t0 \<le> t1"
  shows "fw_not_ahead (fst (fw_step s op)) k t1"
proof -
  have mono: "t \<le> t1 \<Longrightarrow> fw_window_start (fw_window_ms s) t \<le> fw_window_start (fw_window_ms s) t1" for t
    using assms(2) by (rule fw_window_start_mono)
  show ?thesis
    using assms mono [of t0]
    by (cases op)
       (auto simp: strategy_step_def fw_not_ahead_def fw_defs map_basic_simps fw_inv_def
          map_get_filter intro: mono split: option.splits if_splits)
qed

lemma fw_run_bound:
  assumes "fw_inv s" "0 < fw_window_ms s"
    and "list_all op_cost_ok ops" "\<forall>op \<in> set ops. \<not> op_forgets k op"
    and "sorted (times_of ops)" "\<forall>t \<in> set (times_of ops). t0 \<le> t" "fw_not_ahead s k t0"
  shows "adm_sum (\<lambda>k' t. k' = k \<and> fw_window_start (fw_window_ms s) t = ws) (snd (run_machine fw_step s ops))
           + fw_used s k ws \<le> fw_max_requests s"
  using assms
proof (induction ops arbitrary: s t0)
  case Nil
  then show ?case by (simp add: fw_used_le)
next
  case (Cons op ops)
  let ?P = "\<lambda>k' t. k' = k \<and> fw_window_start (fw_window_ms s) t = ws"
  let ?s1 = "fst (fw_step s op)"
  define t1 where "t1 = (case op_times op of [] \<Rightarrow> t0 | t # _ \<Rightarrow> t)"
  have t1: "t0 \<le> t1" "\<forall>t \<in> set (op_times op). t = t1" "\<forall>t \<in> set (times_of ops). t1 \<le> t"
    using Cons.prems(5,6) by (cases op; auto simp: t1_def)+
  have ahead: "fw_not_ahead s k t1"
    using Cons.prems(2,7) fw_window_start_mono [of "fw_window_ms s" t0 t1] t1(1)
    by (auto simp: fw_not_ahead_def split: option.splits)
  show ?case
  proof (cases "\<forall>t \<in> set (op_times op). fw_window_start (fw_window_ms s) t \<le> ws")
    case True
    have inv1: "fw_inv ?s1" using Cons.prems(1,3) by (simp add: fw.step_inv_cost)
    have "adm_sum ?P (snd (fw_step s op)) + fw_used s k ws \<le> fw_used ?s1 k ws"
      by (rule fw_step_used) (use Cons.prems True ahead t1 in auto)
    moreover have "fw_not_ahead ?s1 k t1"
      by (rule fw_step_not_ahead [of s k op t1]) (use Cons.prems ahead t1 in auto)
    then have "adm_sum ?P (snd (run_machine fw_step ?s1 ops)) + fw_used ?s1 k ws
        \<le> fw_max_requests ?s1"
      using Cons.IH [of ?s1 t1] Cons.prems inv1 t1 fw.step_capacity [of s op]
      by (simp add: fw_capacity_def sorted_append fw_step_window_ms)
    ultimately show ?thesis
      using fw.step_capacity [of s op] by (simp add: fw_capacity_def)
  next
    case False
    then have late: "t \<in> set (times_of (op # ops)) \<Longrightarrow> ws < fw_window_start (fw_window_ms s) t" for t
      using t1 Cons.prems(2) fw_window_start_mono [of "fw_window_ms s" t1 t] by fastforce
    have "adm_sum ?P (snd (run_machine fw_step s (op # ops))) = 0"
      by (rule adm_sum_none)
         (use late in \<open>fastforce dest!: strategy_run_admission check_in_times_of\<close>)
    then show ?thesis using fw_used_le [OF Cons.prems(1)] by (simp del: run_machine_simps)
  qed
qed

text \<open>
  C19: The fixed-window limiter never lets one key through for more than its limit in one clock
  window. In any sequence of operations with non-decreasing times and non-negative costs,
  started from a fresh limiter and in which the key is not reset, the costs admitted to the
  key in one window sum up to at most \<open>maxRequests\<close>, whatever other keys, sweeps and
  reads come in between.
\<close>

theorem fixed_window_limit:
  assumes "0 \<le> max_requests" "0 < window_ms"
    and "list_all op_cost_ok ops" "\<forall>op \<in> set ops. \<not> op_forgets k op" "sorted (times_of ops)"
  shows "adm_sum (\<lambda>k' t. k' = k \<and> fw_window_start window_ms t = ws)
           (snd (run_machine fw_step (fw_new max_requests window_ms) ops)) \<le> max_requests"
proof -
  let ?s = "fw_new max_requests window_ms :: 'a fixed_window"
  have "fw_inv ?s" "fw_used ?s k ws = 0"
    using assms(1) by (simp_all add: fw_inv_def fw_new_def fw_used_def)
  moreover obtain t0 where "\<forall>t \<in> set (times_of ops). t0 \<le> t" "fw_not_ahead ?s k t0"
    using assms(5) by (cases "times_of ops") (auto simp: fw_not_ahead_def fw_new_def)
  moreover have ms: "fw_window_ms ?s = window_ms" by (simp add: fw_new_def)
  ultimately have "adm_sum (\<lambda>k' t. k' = k \<and> fw_window_start window_ms t = ws)
      (snd (run_machine fw_step ?s ops)) + fw_used ?s k ws \<le> fw_max_requests ?s"
    using fw_run_bound [of ?s ops k t0 ws] assms by simp
  with \<open>fw_used ?s k ws = 0\<close> show ?thesis by (simp add: fw_new_def)
qed

theorem fixed_window_limit_witness:
  "adm_sum (\<lambda>k' t. k' = ''a'' \<and> fw_window_start 10 t = 10)
     (snd (run_machine fw_step (fw_new 2 10)
        [Check ''a'' 1 11, Check ''a'' 1 12, Check ''a'' 1 13, Cleanup 20, Check ''a'' 1 21]))
     \<le> (2::rat)"
  by (rule fixed_window_limit) auto

end
