(* ===== verification/Rate_Limiter.thy ===== *)
theory Rate_Limiter
  imports Token_Bucket Window_Log Fixed_Window
begin

text \<open>
  \<open>src/resilience/rate-limiter.js\<close>: chooses one of the four strategies by name, blocks keys,
  refuses costs that can never be admitted, emits events and sweeps. A call returns the next
  state, the events it emits and its result; \<open>Inr None\<close> is \<open>false\<close>, \<open>Inr (Some w)\<close> is
  \<open>true\<close> after \<open>w\<close> milliseconds, \<open>Inl\<close> is a thrown error. Numeric options are \<open>None\<close>
  when absent or \<open>NaN\<close>.
\<close>

section \<open>Dispatch to a strategy\<close>

datatype 'k limiter =
    TokenBucket "'k token_bucket"
  | LeakyBucket "'k window_log"
  | FixedWindow "'k fixed_window"
  | SlidingWindow "'k window_log"

fun lim_check :: "'k \<Rightarrow> rat \<Rightarrow> rat \<Rightarrow> 'k limiter \<Rightarrow> 'k limiter \<times> rat option" where
  "lim_check k c t (TokenBucket s) = apfst TokenBucket (tb_check k c t s)"
| "lim_check k c t (LeakyBucket s) = apfst LeakyBucket (lb_check k c t s)"
| "lim_check k c t (FixedWindow s) = apfst FixedWindow (fw_check k c t s)"
| "lim_check k c t (SlidingWindow s) = apfst SlidingWindow (sw_check k c t s)"

fun lim_remaining :: "'k \<Rightarrow> rat \<Rightarrow> 'k limiter \<Rightarrow> 'k limiter \<times> rat" where
  "lim_remaining k t (TokenBucket s) = apfst TokenBucket (tb_remaining k t s)"
| "lim_remaining k t (LeakyBucket s) = apfst LeakyBucket (wl_remaining k t s)"
| "lim_remaining k t (FixedWindow s) = apfst FixedWindow (fw_remaining k t s)"
| "lim_remaining k t (SlidingWindow s) = apfst SlidingWindow (wl_remaining k t s)"

fun lim_cleanup :: "rat \<Rightarrow> 'k limiter \<Rightarrow> 'k limiter" where
  "lim_cleanup t (TokenBucket s) = TokenBucket (tb_cleanup t s)"
| "lim_cleanup t (LeakyBucket s) = LeakyBucket (wl_cleanup t s)"
| "lim_cleanup t (FixedWindow s) = FixedWindow (fw_cleanup t s)"
| "lim_cleanup t (SlidingWindow s) = SlidingWindow (wl_cleanup t s)"

fun lim_reset :: "'k \<Rightarrow> 'k limiter \<Rightarrow> 'k limiter" where
  "lim_reset k (TokenBucket s) = TokenBucket (tb_reset k s)"
| "lim_reset k (LeakyBucket s) = LeakyBucket (wl_reset k s)"
| "lim_reset k (FixedWindow s) = FixedWindow (fw_reset k s)"
| "lim_reset k (SlidingWindow s) = SlidingWindow (wl_reset k s)"

fun lim_clear :: "'k limiter \<Rightarrow> 'k limiter" where
  "lim_clear (TokenBucket s) = TokenBucket (tb_clear s)"
| "lim_clear (LeakyBucket s) = LeakyBucket (wl_clear s)"
| "lim_clear (FixedWindow s) = FixedWindow (fw_clear s)"
| "lim_clear (SlidingWindow s) = SlidingWindow (wl_clear s)"

fun lim_capacity :: "'k limiter \<Rightarrow> rat" where
  "lim_capacity (TokenBucket s) = tb_capacity s"
| "lim_capacity (LeakyBucket s) = wl_capacity s"
| "lim_capacity (FixedWindow s) = fw_capacity s"
| "lim_capacity (SlidingWindow s) = wl_capacity s"

fun lim_inv :: "'k limiter \<Rightarrow> bool" where
  "lim_inv (TokenBucket s) = tb_inv s"
| "lim_inv (LeakyBucket s) = wl_inv s"
| "lim_inv (FixedWindow s) = fw_inv s"
| "lim_inv (SlidingWindow s) = wl_inv s"

lemmas strategy_laws =
  tb.inv_check tb.inv_remaining tb.inv_cleanup tb.inv_reset tb.inv_clear
  sw.inv_check sw.inv_remaining sw.inv_cleanup sw.inv_reset sw.inv_clear
  lb.inv_check fw.inv_check fw.inv_remaining fw.inv_cleanup fw.inv_reset fw.inv_clear

lemmas capacity_laws =
  tb.capacity_check tb.capacity_remaining tb.capacity_cleanup tb.capacity_reset tb.capacity_clear
  sw.capacity_check sw.capacity_remaining sw.capacity_cleanup sw.capacity_reset sw.capacity_clear
  lb.capacity_check
  fw.capacity_check fw.capacity_remaining fw.capacity_cleanup fw.capacity_reset fw.capacity_clear

lemma lim_isolated:
  "k' \<noteq> k \<Longrightarrow> snd (lim_check k' c' t' (fst (lim_check k c t s))) = snd (lim_check k' c' t' s)"
  by (cases s) (simp_all add: tb.isolated sw.isolated lb.isolated fw.isolated
      del: sw_check_simps lb_check_simps)

interpretation lim: rate_strategy
  lim_check lim_remaining lim_cleanup lim_reset lim_clear lim_capacity lim_inv
proof unfold_locales
  fix s :: "'k limiter" and k k' c t c' t' w
  show "0 \<le> c \<Longrightarrow> lim_inv (fst (lim_check k c t s))" if "lim_inv s"
    using that by (cases s) (auto simp: strategy_laws simp del: sw_check_simps lb_check_simps)
  show "lim_capacity (fst (lim_check k c t s)) = lim_capacity s"
    by (cases s) (auto simp: capacity_laws simp del: sw_check_simps lb_check_simps)
  show "snd (lim_check k c t s) = None" if "lim_inv s" "lim_capacity s < c"
    using that by (cases s) (auto simp: tb.over_capacity sw.over_capacity lb.over_capacity
        fw.over_capacity simp del: sw_check_simps lb_check_simps)
  show "snd (lim_check k c t (lim_reset k s)) \<noteq> None" if "lim_inv s" "c \<le> lim_capacity s"
    using that tb.admit_reset sw.admit_reset lb.admit_reset fw.admit_reset
    by (cases s) (auto simp del: sw_check_simps lb_check_simps)
  show "snd (lim_check k c t (lim_clear s)) \<noteq> None" if "lim_inv s" "c \<le> lim_capacity s"
    using that tb.admit_clear sw.admit_clear lb.admit_clear fw.admit_clear
    by (cases s) (auto simp del: sw_check_simps lb_check_simps)
  show "0 \<le> w" if "lim_inv s" "snd (lim_check k c t s) = Some w"
    using that tb.delay_nonneg sw.delay_nonneg lb.delay_nonneg fw.delay_nonneg
    by (cases s) (auto simp del: sw_check_simps lb_check_simps)
  show "0 \<le> snd (lim_remaining k t s) \<and> snd (lim_remaining k t s) \<le> lim_capacity s" if "lim_inv s"
    using that by (cases s) (simp_all add: tb.remaining_bounds sw.remaining_bounds fw.remaining_bounds)
  show "snd (lim_check k' c' t' (fst (lim_check k c t s))) = snd (lim_check k' c' t' s)" if "k' \<noteq> k"
    using that by (rule lim_isolated)
qed (case_tac s; simp add: strategy_laws capacity_laws)+

section \<open>The rate limiter\<close>

record 'k rate_limiter =
  rl_window_ms :: rat
  rl_max_requests :: rat
  rl_strategy :: string
  rl_burstable :: bool
  rl_blocked :: "('k, rat) jsmap"
  rl_limiter :: "'k limiter"
  rl_interval :: "rat option"

record rl_options =
  opt_window_ms :: "rat option"
  opt_max_requests :: "rat option"
  opt_strategy :: "string option"
  opt_burstable :: bool
  opt_burst_limit :: "rat option"
  opt_queue_limit :: "rat option"

datatype rl_error = UnknownStrategy string | CostUnsatisfiable rat string rat

datatype 'k rl_event =
    KeyUnblocked 'k
  | Blocked 'k rat
  | Limited 'k string
  | KeyBlocked 'k rat
  | KeyReset 'k

definition rl_make_limiter :: "string \<Rightarrow> rat \<Rightarrow> rat \<Rightarrow> bool \<Rightarrow> rat \<Rightarrow> rat \<Rightarrow> 'k limiter option" where
  "rl_make_limiter name max_requests window_ms burstable burst_limit queue_limit =
     (if name = ''token-bucket'' then Some (TokenBucket (tb_new max_requests window_ms burstable burst_limit))
      else if name = ''leaky-bucket'' then Some (LeakyBucket (lb_new max_requests window_ms queue_limit))
      else if name = ''fixed-window'' then Some (FixedWindow (fw_new max_requests window_ms))
      else if name = ''sliding-window'' then Some (SlidingWindow (sw_new max_requests window_ms))
      else None)"

text \<open>
  The constructor. Names that the table of strategies inherits from \<open>Object.prototype\<close>, such as
  \<open>'constructor'\<close>, are refused here; the source looks them up without a check for own
  properties.
\<close>

definition rl_new :: "rl_options \<Rightarrow> rl_error + 'k rate_limiter" where
  "rl_new opts =
     (let window_ms = num_or (opt_window_ms opts) 60000;
          max_requests = num_or (opt_max_requests opts) 100;
          name = str_or (opt_strategy opts) ''token-bucket''
      in case rl_make_limiter name max_requests window_ms (opt_burstable opts)
                (num_or (opt_burst_limit opts) (max_requests * (3 / 2)))
                (num_or (opt_queue_limit opts) 1000) of
           None \<Rightarrow> Inl (UnknownStrategy name)
         | Some limiter \<Rightarrow> Inr
             \<lparr>rl_window_ms = window_ms, rl_max_requests = max_requests, rl_strategy = name,
              rl_burstable = opt_burstable opts, rl_blocked = [], rl_limiter = limiter,
              rl_interval = Some (min (max (window_ms / 10) 100) 60000)\<rparr>)"

definition rl_cleanup :: "rat \<Rightarrow> 'k rate_limiter \<Rightarrow> 'k rate_limiter \<times> 'k rl_event list" where
  "rl_cleanup now s =
     (s\<lparr>rl_limiter := lim_cleanup now (rl_limiter s),
        rl_blocked := filter (\<lambda>(k, expires_at). \<not> now \<ge> expires_at) (rl_blocked s)\<rparr>,
      map (\<lambda>(k, _). KeyUnblocked k) (filter (\<lambda>(k, expires_at). now \<ge> expires_at) (rl_blocked s)))"

definition check_rate_limit ::
  "'k \<Rightarrow> rat \<Rightarrow> rat \<Rightarrow> 'k rate_limiter \<Rightarrow>
     'k rate_limiter \<times> 'k rl_event list \<times> (rl_error + rat option)" where
  "check_rate_limit key cost now s =
     (if cost > lim_capacity (rl_limiter s)
      then (s, [], Inl (CostUnsatisfiable cost (rl_strategy s) (lim_capacity (rl_limiter s))))
      else let check = (\<lambda>s1 events.
                 (case lim_check key cost now (rl_limiter s1) of
                    (limiter, r) \<Rightarrow>
                      (s1\<lparr>rl_limiter := limiter\<rparr>,
                       events @ (if r = None then [Limited key (rl_strategy s)] else []), Inr r)))
           in case map_get (rl_blocked s) key of
                Some blocked_until \<Rightarrow>
                  if now \<ge> blocked_until
                  then check (s\<lparr>rl_blocked := map_del key (rl_blocked s)\<rparr>) [KeyUnblocked key]
                  else (s, [Blocked key (blocked_until - now)], Inr None)
              | None \<Rightarrow> check s [])"

definition rl_block_key :: "'k \<Rightarrow> rat option \<Rightarrow> rat \<Rightarrow> 'k rate_limiter \<Rightarrow> 'k rate_limiter \<times> 'k rl_event list" where
  "rl_block_key key duration now s =
     (let d = (case duration of None \<Rightarrow> rl_window_ms s | Some d \<Rightarrow> d)
      in (s\<lparr>rl_blocked := map_set key (now + d) (rl_blocked s)\<rparr>, [KeyBlocked key d]))"

definition rl_get_remaining_tokens :: "'k \<Rightarrow> rat \<Rightarrow> 'k rate_limiter \<Rightarrow> 'k rate_limiter \<times> rat" where
  "rl_get_remaining_tokens key now s =
     (case lim_remaining key now (rl_limiter s) of (limiter, n) \<Rightarrow> (s\<lparr>rl_limiter := limiter\<rparr>, n))"

record rl_status =
  st_strategy :: string
  st_remaining_tokens :: rat
  st_is_blocked :: bool
  st_window_ms :: rat
  st_max_requests :: rat
  st_burstable :: bool
  st_current_time :: rat

definition rl_get_status :: "'k \<Rightarrow> rat \<Rightarrow> 'k rate_limiter \<Rightarrow> 'k rate_limiter \<times> rl_status" where
  "rl_get_status key now s =
     (case lim_remaining key now (rl_limiter s) of (limiter, n) \<Rightarrow>
        (s\<lparr>rl_limiter := limiter\<rparr>,
         \<lparr>st_strategy = rl_strategy s, st_remaining_tokens = n,
          st_is_blocked = (case map_get (rl_blocked s) key of Some u \<Rightarrow> u > now | None \<Rightarrow> False),
          st_window_ms = rl_window_ms s, st_max_requests = rl_max_requests s,
          st_burstable = rl_burstable s, st_current_time = now\<rparr>))"

definition rl_reset :: "'k \<Rightarrow> 'k rate_limiter \<Rightarrow> 'k rate_limiter \<times> 'k rl_event list" where
  "rl_reset key s =
     (s\<lparr>rl_limiter := lim_reset key (rl_limiter s), rl_blocked := map_del key (rl_blocked s)\<rparr>,
      [KeyReset key])"

definition rl_dispose :: "'k rate_limiter \<Rightarrow> 'k rate_limiter" where
  "rl_dispose s = s\<lparr>rl_interval := None, rl_limiter := lim_clear (rl_limiter s), rl_blocked := []\<rparr>"

section \<open>Runs of the limiter\<close>

datatype 'k rl_call =
    CheckRate 'k rat rat
  | BlockKey 'k "rat option" rat
  | GetRemaining 'k rat
  | GetStatus 'k rat
  | ResetKey 'k
  | Sweep rat
  | Dispose

datatype 'k rl_out = Emit "'k rl_event" | Answer 'k rat rat "rl_error + rat option"

fun rl_step :: "'k rate_limiter \<Rightarrow> 'k rl_call \<Rightarrow> 'k rate_limiter \<times> 'k rl_out list" where
  "rl_step s (CheckRate k c t) =
     (case check_rate_limit k c t s of (s1, es, r) \<Rightarrow> (s1, map Emit es @ [Answer k c t r]))"
| "rl_step s (BlockKey k d t) = apsnd (map Emit) (rl_block_key k d t s)"
| "rl_step s (GetRemaining k t) = (fst (rl_get_remaining_tokens k t s), [])"
| "rl_step s (GetStatus k t) = (fst (rl_get_status k t s), [])"
| "rl_step s (ResetKey k) = apsnd (map Emit) (rl_reset k s)"
| "rl_step s (Sweep t) = (if rl_interval s = None then (s, []) else apsnd (map Emit) (rl_cleanup t s))"
| "rl_step s Dispose = (rl_dispose s, [])"

fun rl_call_ok :: "'k rl_call \<Rightarrow> bool" where
  "rl_call_ok (CheckRate _ c _) = (0 \<le> c)"
| "rl_call_ok _ = True"

definition rl_inv :: "'k rate_limiter \<Rightarrow> bool" where
  "rl_inv s \<longleftrightarrow> lim_inv (rl_limiter s) \<and> wf_map (rl_blocked s)"

lemmas rl_defs = check_rate_limit_def rl_block_key_def rl_get_remaining_tokens_def
  rl_get_status_def rl_reset_def rl_cleanup_def rl_dispose_def Let_def

lemma rl_step_inv: "rl_inv s \<Longrightarrow> rl_call_ok call \<Longrightarrow> rl_inv (fst (rl_step s call))"
  by (cases call)
     (auto simp: rl_inv_def rl_defs split_def lim.inv_check lim.inv_remaining lim.inv_cleanup
        lim.inv_reset lim.inv_clear split: option.split)

interpretation rl: event_machine rl_step rl_call_ok rl_inv
  by unfold_locales (rule rl_step_inv)

lemma rl_step_capacity:
  "lim_capacity (rl_limiter (fst (rl_step s call))) = lim_capacity (rl_limiter s)"
  by (cases call)
     (auto simp: rl_defs split_def lim.capacity_check lim.capacity_remaining lim.capacity_cleanup
        lim.capacity_reset lim.capacity_clear split: option.split)

lemma rl_run_capacity:
  "lim_capacity (rl_limiter (fst (run_machine rl_step s calls))) = lim_capacity (rl_limiter s)"
  by (induction calls arbitrary: s) (simp_all add: rl_step_capacity)

definition rl_options_ok :: "rl_options \<Rightarrow> bool" where
  "rl_options_ok opts \<longleftrightarrow>
     0 < num_or (opt_window_ms opts) 60000 \<and> 0 < num_or (opt_max_requests opts) 100 \<and>
     0 \<le> num_or (opt_burst_limit opts) (num_or (opt_max_requests opts) 100 * (3 / 2)) \<and>
     0 \<le> num_or (opt_queue_limit opts) 1000"

definition rl_sample_options :: rl_options where
  "rl_sample_options = \<lparr>opt_window_ms = Some 10, opt_max_requests = Some 2, opt_strategy = None,
     opt_burstable = False, opt_burst_limit = None, opt_queue_limit = None\<rparr>"

definition rl_sample :: "string rate_limiter" where
  "rl_sample = \<lparr>rl_window_ms = 10, rl_max_requests = 2, rl_strategy = ''token-bucket'',
     rl_burstable = False, rl_blocked = [], rl_limiter = TokenBucket (tb_new 2 10 False 3),
     rl_interval = Some 100\<rparr>"

lemma rl_sample:
  "rl_options_ok rl_sample_options" "rl_new rl_sample_options = Inr rl_sample"
  "lim_capacity (rl_limiter rl_sample) = 2"
  by (simp_all add: rl_options_ok_def rl_sample_options_def rl_new_def rl_sample_def num_or_def
      str_or_def rl_make_limiter_def tb_capacity_def tb_new_def Let_def)

lemma rl_new_inv: "rl_options_ok opts \<Longrightarrow> rl_new opts = Inr s \<Longrightarrow> rl_inv s"
  by (auto simp: rl_new_def Let_def rl_options_ok_def rl_make_limiter_def rl_inv_def tb_inv_def tb_new_def
      wl_inv_def lb_new_def sw_new_def wl_new_def fw_inv_def fw_new_def split: if_splits option.splits)

section \<open>Refinement: the limiter is its strategy behind a gate\<close>

abbreviation lim_step :: "'k limiter \<Rightarrow> 'k rate_op \<Rightarrow> 'k limiter \<times> 'k admission list" where
  "lim_step \<equiv> strategy_step lim_check lim_remaining lim_cleanup lim_reset lim_clear"

text \<open>The operations a call passes on to the strategy.\<close>

fun rl_ops :: "'k rate_limiter \<Rightarrow> 'k rl_call \<Rightarrow> 'k rate_op list" where
  "rl_ops s (CheckRate k c t) =
     (if c > lim_capacity (rl_limiter s) then []
      else case map_get (rl_blocked s) k of
             Some u \<Rightarrow> if t \<ge> u then [Check k c t] else []
           | None \<Rightarrow> [Check k c t])"
| "rl_ops s (BlockKey k d t) = []"
| "rl_ops s (GetRemaining k t) = [Remaining k t]"
| "rl_ops s (GetStatus k t) = [Remaining k t]"
| "rl_ops s (ResetKey k) = [Reset k]"
| "rl_ops s (Sweep t) = (if rl_interval s = None then [] else [Cleanup t])"
| "rl_ops s Dispose = [Clear]"

fun rl_ops_run :: "'k rate_limiter \<Rightarrow> 'k rl_call list \<Rightarrow> 'k rate_op list" where
  "rl_ops_run s [] = []"
| "rl_ops_run s (call # calls) = rl_ops s call @ rl_ops_run (fst (rl_step s call)) calls"

fun rl_out_admission :: "'k rl_out \<Rightarrow> 'k admission list" where
  "rl_out_admission (Answer k c t (Inr (Some w))) = [(k, c, t, w)]"
| "rl_out_admission _ = []"

definition rl_admissions :: "'k rl_out list \<Rightarrow> 'k admission list" where
  "rl_admissions out = concat (map rl_out_admission out)"

lemma rl_admissions_simps [simp]:
  "rl_admissions [] = []"
  "rl_admissions (x # out) = rl_out_admission x @ rl_admissions out"
  "rl_admissions (out @ out') = rl_admissions out @ rl_admissions out'"
  by (simp_all add: rl_admissions_def)

lemma rl_admissions_events [simp]:
  "rl_admissions (map (Emit \<circ> f) es) = []" "rl_admissions (map Emit es') = []"
  by (induction es; simp) (induction es'; simp)

fun rl_call_times :: "'k rl_call \<Rightarrow> rat list" where
  "rl_call_times (CheckRate _ _ t) = [t]"
| "rl_call_times (BlockKey _ _ t) = [t]"
| "rl_call_times (GetRemaining _ t) = [t]"
| "rl_call_times (GetStatus _ t) = [t]"
| "rl_call_times (Sweep t) = [t]"
| "rl_call_times _ = []"

definition rl_times_of :: "'k rl_call list \<Rightarrow> rat list" where
  "rl_times_of calls = concat (map rl_call_times calls)"

lemma rl_times_of_simps [simp]:
  "rl_times_of [] = []"
  "rl_times_of (call # calls) = rl_call_times call @ rl_times_of calls"
  "rl_times_of (calls @ calls') = rl_times_of calls @ rl_times_of calls'"
  by (simp_all add: rl_times_of_def)

lemma rl_step_refines:
  "run_machine lim_step (rl_limiter s) (rl_ops s call) =
     (rl_limiter (fst (rl_step s call)), rl_admissions (snd (rl_step s call)))"
  by (cases call)
     (auto simp: prod_eq_iff strategy_step_def rl_defs split_def split: option.split)

lemma rl_run_refines:
  "run_machine lim_step (rl_limiter s) (rl_ops_run s calls) =
     (rl_limiter (fst (run_machine rl_step s calls)), rl_admissions (snd (run_machine rl_step s calls)))"
  by (induction calls arbitrary: s) (simp_all add: run_machine_append rl_step_refines Let_def split_def prod_eq_iff)

lemma rl_ops_ok: "rl_call_ok call \<Longrightarrow> list_all op_cost_ok (rl_ops s call)"
  by (cases call) (auto split: option.split)

lemma rl_ops_run_ok: "list_all rl_call_ok calls \<Longrightarrow> list_all op_cost_ok (rl_ops_run s calls)"
  by (induction calls arbitrary: s) (auto simp: rl_ops_ok)

lemma rl_ops_times: "set (times_of (rl_ops s call)) \<subseteq> set (rl_call_times call)"
  and rl_ops_times_sorted: "sorted (times_of (rl_ops s call))"
  by (cases call; auto split: option.split)+

lemma rl_ops_run_times: "set (times_of (rl_ops_run s calls)) \<subseteq> set (rl_times_of calls)"
  by (induction calls arbitrary: s) (use rl_ops_times in fastforce)+

lemma rl_ops_run_sorted: "sorted (rl_times_of calls) \<Longrightarrow> sorted (times_of (rl_ops_run s calls))"
proof (induction calls arbitrary: s)
  case Nil
  then show ?case by simp
next
  case (Cons call calls)
  have "\<forall>x \<in> set (times_of (rl_ops s call)). \<forall>y \<in> set (times_of (rl_ops_run (fst (rl_step s call)) calls)). x \<le> y"
    using Cons.prems rl_ops_times [of s call] rl_ops_run_times [of "fst (rl_step s call)" calls]
    by (auto simp: sorted_append)
  with Cons show ?case by (simp add: sorted_append rl_ops_times_sorted)
qed

definition rl_keeps :: "'k \<Rightarrow> 'k rl_call \<Rightarrow> bool" where
  "rl_keeps k call \<longleftrightarrow> call \<noteq> ResetKey k \<and> call \<noteq> Dispose"

lemma rl_ops_run_keeps:
  "\<forall>call \<in> set calls. rl_keeps k call \<Longrightarrow> op \<in> set (rl_ops_run s calls) \<Longrightarrow> \<not> op_forgets k op"
proof (induction calls arbitrary: s)
  case (Cons call calls)
  then show ?case by (cases call) (auto simp: rl_keeps_def split: if_splits option.splits)
qed simp

text \<open>
  C27: The whole rate limiter refines its strategy. Whatever calls it receives (checks, blocks,
  reads, resets, sweeps, disposal), there is a sequence of strategy operations, with times in
  the same order, that leads the strategy to the same state and admits exactly the checks the
  limiter answered \<open>true\<close>, with the same delays: blocking, the capacity test and the events
  never let a check through that the strategy did not grant.
\<close>

theorem rate_limiter_refines_strategy:
  assumes "list_all rl_call_ok calls" "sorted (rl_times_of calls)"
  shows "\<exists>ops. run_machine lim_step (rl_limiter s) ops =
      (rl_limiter (fst (run_machine rl_step s calls)), rl_admissions (snd (run_machine rl_step s calls)))
    \<and> list_all op_cost_ok ops \<and> sorted (times_of ops)"
  using rl_run_refines rl_ops_run_ok [OF assms(1)] rl_ops_run_sorted [OF assms(2)] by blast

theorem rate_limiter_refines_strategy_witness:
  "\<exists>ops. run_machine lim_step (rl_limiter rl_sample) ops =
      (rl_limiter (fst (run_machine rl_step rl_sample
          [CheckRate ''a'' 1 0, BlockKey ''a'' (Some 5) 1, CheckRate ''a'' 1 3, CheckRate ''a'' 1 7])),
       rl_admissions (snd (run_machine rl_step rl_sample
          [CheckRate ''a'' 1 0, BlockKey ''a'' (Some 5) 1, CheckRate ''a'' 1 3, CheckRate ''a'' 1 7])))
    \<and> list_all op_cost_ok ops \<and> sorted (times_of ops)"
  by (rule rate_limiter_refines_strategy) simp_all

text \<open>The strategy bounds carry over to the limiter; here the fixed window.\<close>

lemma fixed_window_through_limiter:
  assumes "rl_limiter s = FixedWindow f" "fw_inv f" "fw_counters f = []" "0 < fw_window_ms f"
    and "list_all rl_call_ok calls" "sorted (rl_times_of calls)" "\<forall>call \<in> set calls. rl_keeps k call"
  shows "adm_sum (\<lambda>k' t. k' = k \<and> fw_window_start (fw_window_ms f) t = ws)
           (rl_admissions (snd (run_machine rl_step s calls))) \<le> fw_max_requests f"
proof -
  let ?ops = "rl_ops_run s calls"
  have emb: "snd (run_machine lim_step (FixedWindow g) ops) = snd (run_machine fw_step g ops)" for g and ops :: "'a rate_op list"
  proof (induction ops arbitrary: g)
    case (Cons op ops)
    have "lim_step (FixedWindow g) op = apfst FixedWindow (fw_step g op)"
      by (cases op) (auto simp: strategy_step_def split: prod.split option.split)
    with Cons show ?case by simp
  qed simp
  obtain t0 where "\<forall>t \<in> set (times_of ?ops). t0 \<le> t"
    by (cases "times_of ?ops") (use rl_ops_run_sorted [OF assms(6), of s] in auto)
  moreover have "fw_not_ahead f k t0" "fw_used f k ws = 0"
    using assms(3) by (simp_all add: fw_not_ahead_def fw_used_def)
  ultimately have "adm_sum (\<lambda>k' t. k' = k \<and> fw_window_start (fw_window_ms f) t = ws)
      (snd (run_machine fw_step f ?ops)) \<le> fw_max_requests f"
    using fw_run_bound [of f ?ops k t0 ws] assms(2,4) rl_ops_run_ok [OF assms(5), of s]
      rl_ops_run_sorted [OF assms(6), of s] rl_ops_run_keeps [OF assms(7)] by simp
  moreover have "snd (run_machine fw_step f ?ops) = rl_admissions (snd (run_machine rl_step s calls))"
    using rl_run_refines [of s calls] emb [of f ?ops] assms(1) by simp
  ultimately show ?thesis by simp
qed

section \<open>Capacity and blocking\<close>

text \<open>
  The refusal of an unsatisfiable cost is exact. After any calls, a cost above the
  capacity is thrown back with nothing changed, and rightly so, the strategy would refuse it
  in that state too; a cost within the capacity is admitted right after the key is reset, so
  it is never thrown.
\<close>

theorem cost_rejection_exact:
  assumes "rl_options_ok opts" "rl_new opts = Inr s0" "list_all rl_call_ok calls"
    and "s = fst (run_machine rl_step s0 calls)" "cap = lim_capacity (rl_limiter s0)"
  shows "(cap < c \<longrightarrow> check_rate_limit k c t s = (s, [], Inl (CostUnsatisfiable c (rl_strategy s) cap))
            \<and> snd (lim_check k c t (rl_limiter s)) = None)
       \<and> (c \<le> cap \<longrightarrow> (\<exists>w \<ge> 0. snd (snd (check_rate_limit k c t (fst (rl_reset k s)))) = Inr (Some w)))"
proof -
  have inv: "lim_inv (rl_limiter s)"
    using rl.run_inv [OF rl_new_inv [OF assms(1,2)] assms(3)] assms(4) by (simp add: rl_inv_def)
  have cap: "lim_capacity (rl_limiter s) = cap" by (simp add: assms rl_run_capacity)
  let ?l = "lim_reset k (rl_limiter s)"
  have "\<exists>w \<ge> 0. snd (snd (check_rate_limit k c t (fst (rl_reset k s)))) = Inr (Some w)" if le: "c \<le> cap"
  proof -
    obtain w where w: "snd (lim_check k c t ?l) = Some w"
      using lim.admit_reset [OF inv, of c k t] le cap by auto
    moreover have "0 \<le> w" using lim.delay_nonneg [OF lim.inv_reset [OF inv] w] .
    ultimately show ?thesis
      using le cap by (auto simp: rl_defs map_basic_simps lim.capacity_reset split_def)
  qed
  moreover have "cap < c \<longrightarrow> snd (lim_check k c t (rl_limiter s)) = None"
    using lim.over_capacity [OF inv] cap by simp
  ultimately show ?thesis using cap by (simp add: check_rate_limit_def)
qed

theorem cost_rejection_exact_witness:
  "let s = fst (run_machine rl_step rl_sample [CheckRate ''a'' 2 5])
   in check_rate_limit ''a'' 3 7 s = (s, [], Inl (CostUnsatisfiable 3 (rl_strategy s) 2))
    \<and> snd (lim_check ''a'' 3 7 (rl_limiter s)) = None
    \<and> (\<exists>w \<ge> 0. snd (snd (check_rate_limit ''a'' 2 7 (fst (rl_reset ''a'' s)))) = Inr (Some w))"
proof -
  define s where "s = fst (run_machine rl_step rl_sample [CheckRate ''a'' 2 5])"
  have ok: "list_all rl_call_ok [CheckRate ''a'' 2 5]" by simp
  have cap: "2 = lim_capacity (rl_limiter rl_sample)" by (simp add: rl_sample(3))
  note exact = cost_rejection_exact [OF rl_sample(1,2) ok s_def cap, of _ "''a''" 7]
  show ?thesis
    unfolding Let_def s_def [symmetric] using exact [of 3] exact [of 2] by auto
qed

lemma rl_blocked_step:
  assumes "map_get (rl_blocked s) k = Some u" "wf_map (rl_blocked s)"
    and "rl_keeps k call" "\<forall>d t. call \<noteq> BlockKey k d t" "\<forall>t \<in> set (rl_call_times call). t < u"
  shows "map_get (rl_blocked (fst (rl_step s call))) k = Some u"
    and "wf_map (rl_blocked (fst (rl_step s call)))"
    and "\<forall>c t w. Answer k c t (Inr (Some w)) \<notin> set (snd (rl_step s call))"
    and "Emit (KeyUnblocked k) \<notin> set (snd (rl_step s call))"
proof -
  have filt: "map_get (filter (\<lambda>(k, e). \<not> e \<le> t) (rl_blocked s)) k = Some u" if "t < u" for t
    using assms(1,2) that by (simp add: map_get_filter)
  have absent: "(k, e) \<in> set (rl_blocked s) \<Longrightarrow> e = u" for e
    using assms(1,2) by (simp add: map_get_def)
  note defs = rl_defs rl_keeps_def map_basic_simps split_def
  show "map_get (rl_blocked (fst (rl_step s call))) k = Some u"
  proof (cases call)
    case (Sweep t)
    with assms filt [of t] show ?thesis by (simp add: rl_cleanup_def)
  qed (use assms in \<open>auto simp: defs split: option.split\<close>)
  show "wf_map (rl_blocked (fst (rl_step s call)))"
    using assms(2) by (cases call) (auto simp: defs split: option.split)
  show "\<forall>c t w. Answer k c t (Inr (Some w)) \<notin> set (snd (rl_step s call))"
    using assms by (cases call) (auto simp: defs split: option.split)
  show "Emit (KeyUnblocked k) \<notin> set (snd (rl_step s call))"
  proof (cases call)
    case (Sweep t)
    with assms(5) absent show ?thesis by (auto simp: rl_cleanup_def)
  qed (use assms in \<open>auto simp: defs split: option.split\<close>)
qed

lemma rl_blocked_run:
  assumes "map_get (rl_blocked s) k = Some u" "wf_map (rl_blocked s)"
    and "\<forall>call \<in> set calls. rl_keeps k call \<and> (\<forall>d t. call \<noteq> BlockKey k d t)"
    and "\<forall>t \<in> set (rl_times_of calls). t < u"
  shows "map_get (rl_blocked (fst (run_machine rl_step s calls))) k = Some u
    \<and> (\<forall>c t w. Answer k c t (Inr (Some w)) \<notin> set (snd (run_machine rl_step s calls)))
    \<and> Emit (KeyUnblocked k) \<notin> set (snd (run_machine rl_step s calls))"
  using assms
proof (induction calls arbitrary: s)
  case Nil
  then show ?case by simp
next
  case (Cons call calls)
  have "rl_keeps k call" "\<forall>d t. call \<noteq> BlockKey k d t" "\<forall>t \<in> set (rl_call_times call). t < u"
    using Cons.prems by auto
  note step = rl_blocked_step [OF Cons.prems(1,2) this]
  have "map_get (rl_blocked (fst (run_machine rl_step (fst (rl_step s call)) calls))) k = Some u
    \<and> (\<forall>c t w. Answer k c t (Inr (Some w)) \<notin> set (snd (run_machine rl_step (fst (rl_step s call)) calls)))
    \<and> Emit (KeyUnblocked k) \<notin> set (snd (run_machine rl_step (fst (rl_step s call)) calls))"
    by (rule Cons.IH [OF step(1,2)]) (use Cons.prems in auto)
  with step(3,4) show ?case by auto
qed

lemma check_rate_limit_blocked:
  "map_get (rl_blocked s) k = Some u \<Longrightarrow> t < u \<Longrightarrow> fst (check_rate_limit k c t s) = s"
  by (simp add: check_rate_limit_def)

text \<open>
  C28: A blocked key stays blocked for exactly the requested time. From \<open>blockKey\<close> at time
  \<open>t0\<close> for \<open>d\<close> milliseconds until \<open>t0 + d\<close>, whatever other calls and sweeps happen short of a
  reset of the key, another block or the disposal: no check of the key is answered \<open>true\<close>, none
  changes the limiter, so none takes tokens from the strategy, and no unblocking is announced.
  The first check at or after \<open>t0 + d\<close> whose cost is within the capacity announces the
  unblocking and is decided by the strategy alone.
\<close>

theorem block_holds_until_expiry:
  fixes s :: "'k rate_limiter"
  assumes "rl_inv s" and "s1 = fst (rl_block_key k (Some d) t0 s)"
    and "\<forall>call \<in> set calls. rl_keeps k call \<and> (\<forall>d t. call \<noteq> BlockKey k d t)"
    and "\<forall>t \<in> set (rl_times_of calls). t < t0 + d"
    and "(s2, out) = run_machine rl_step s1 calls"
    and "t0 + d \<le> t" "c \<le> lim_capacity (rl_limiter s2)"
  shows "(\<forall>c t w. Answer k c t (Inr (Some w)) \<notin> set out) \<and> Emit (KeyUnblocked k) \<notin> set out
    \<and> (\<forall>pre c t post. calls = pre @ CheckRate k c t # post \<longrightarrow>
         fst (run_machine rl_step s1 (pre @ [CheckRate k c t])) = fst (run_machine rl_step s1 pre))
    \<and> hd (fst (snd (check_rate_limit k c t s2))) = KeyUnblocked k
    \<and> snd (snd (check_rate_limit k c t s2)) = Inr (snd (lim_check k c t (rl_limiter s2)))"
proof -
  have "map_get (rl_blocked s1) k = Some (t0 + d)" "wf_map (rl_blocked s1)"
    using assms(1,2) by (auto simp: rl_block_key_def rl_inv_def map_basic_simps)
  note blocked = this
  have "fst (run_machine rl_step s1 (pre @ [CheckRate k c t])) = fst (run_machine rl_step s1 pre)"
    if "calls = pre @ CheckRate k c t # post" for pre c t post
  proof -
    have "map_get (rl_blocked (fst (run_machine rl_step s1 pre))) k = Some (t0 + d)" "t < t0 + d"
      using rl_blocked_run [OF blocked, of pre] assms(3,4) that by auto
    then show ?thesis
      by (simp add: run_machine_append split_def Let_def check_rate_limit_blocked)
  qed
  moreover from blocked have "map_get (rl_blocked s2) k = Some (t0 + d)
    \<and> (\<forall>c t w. Answer k c t (Inr (Some w)) \<notin> set out) \<and> Emit (KeyUnblocked k) \<notin> set out"
    using rl_blocked_run [OF _ _ assms(3,4), of s1] assms(5) by (metis fst_conv snd_conv)
  ultimately show ?thesis
    using assms(6,7) by (auto simp: check_rate_limit_def Let_def split_def)
qed

theorem block_holds_until_expiry_witness:
  "let s1 = fst (rl_block_key ''a'' (Some 5) 1 rl_sample);
       s2 = fst (run_machine rl_step s1 [CheckRate ''a'' 1 3, Sweep 5]);
       out = snd (run_machine rl_step s1 [CheckRate ''a'' 1 3, Sweep 5])
   in (\<forall>c t w. Answer ''a'' c t (Inr (Some w)) \<notin> set out) \<and> Emit (KeyUnblocked ''a'') \<notin> set out
    \<and> (\<forall>pre c t post. [CheckRate ''a'' 1 3, Sweep 5] = pre @ CheckRate ''a'' c t # post \<longrightarrow>
         fst (run_machine rl_step s1 (pre @ [CheckRate ''a'' c t])) = fst (run_machine rl_step s1 pre))
    \<and> hd (fst (snd (check_rate_limit ''a'' 1 6 s2))) = KeyUnblocked ''a''
    \<and> snd (snd (check_rate_limit ''a'' 1 6 s2)) = Inr (snd (lim_check ''a'' 1 6 (rl_limiter s2)))"
proof -
  have "lim_capacity (rl_limiter (fst (rl_block_key ''a'' (Some 5) 1 rl_sample))) = 2"
    using rl_sample(3) by (simp add: rl_block_key_def)
  then show ?thesis
    unfolding Let_def
    by (intro block_holds_until_expiry [of rl_sample _ "''a''" 5 1, OF rl_new_inv [OF rl_sample(1,2)] refl])
       (auto simp: rl_keeps_def rl_run_capacity simp del: run_machine_simps)
qed

end
