(* ===== verification/Routable_Publish.thy ===== *)
theory Routable_Publish
  imports Message_Codec
begin

text \<open>
  \<open>src/messaging/routable-publish.js\<close>: a confirmed publication, and a publication with a
  watch for the broker's \<open>basic.return\<close>. One registry per channel maps the token of every
  publication in flight to whether it has been returned. Channels are numbers; the broker's
  return and confirm frames are events. \<open>randomUUID\<close> is a counter: it never repeats.
\<close>

section \<open>Objects\<close>

text \<open>
  The own properties of a value as a spread \<open>...v\<close> copies them, in order; of the values that
  are not objects only \<open>undefined\<close> and \<open>null\<close> are spread, which copies nothing.
\<close>

fun own_fields :: "jsval \<Rightarrow> (string \<times> jsval) list" where
  "own_fields (JObj p fs) = fs"
| "own_fields _ = []"

fun spread :: "(string, jsval) jsmap \<Rightarrow> (string \<times> jsval) list \<Rightarrow> (string, jsval) jsmap" where
  "spread m [] = m"
| "spread m ((k, v) # fs) = spread (map_set k v m) fs"

definition field :: "(string, jsval) jsmap \<Rightarrow> string \<Rightarrow> jsval" where
  "field m k = (case map_get m k of Some v \<Rightarrow> v | None \<Rightarrow> JUndef)"

lemma opt_prop_field: "opt_prop (JObj p fs) k = field fs k"
  by (simp add: field_def map_get_def)

lemma field_set [simp]: "field (map_set k v m) k' = (if k' = k then v else field m k')"
  by (simp add: field_def map_get_set)

lemma field_spread:
  "wf_map fs \<Longrightarrow> field (spread m fs) k = (if k \<in> key_set fs then field fs k else field m k)"
proof (induction fs arbitrary: m)
  case (Cons a fs)
  obtain k' v where a: "a = (k', v)" by (cases a)
  with Cons.prems have "k' \<notin> key_set fs" by (simp add: key_set_def)
  moreover have "field ((k', v) # fs) k = (if k = k' then v else field fs k)" by (simp add: field_def)
  ultimately show ?case using Cons a by auto
qed simp

lemma field_spread_empty: "wf_map fs \<Longrightarrow> field (spread [] fs) k = field fs k"
  by (auto simp: field_spread) (simp add: field_def map_get_None [symmetric])

lemma field_spread_other: "k \<notin> fst ` set fs \<Longrightarrow> field (spread m fs) k = field m k"
  by (induction m fs rule: spread.induct) auto

lemma field_spread_append: "spread m (fs @ gs) = spread (spread m fs) gs"
  by (induction m fs rule: spread.induct) auto

lemma wf_map_spread [simp, intro]: "wf_map m \<Longrightarrow> wf_map (spread m fs)"
  by (induction m fs rule: spread.induct) auto

section \<open>State\<close>

definition return_token_header :: string where
  "return_token_header = ''x-return-token''"

record watches =
  wa_registries :: "(nat, (string, bool) jsmap) jsmap"
  wa_pending :: "(string, nat) jsmap"
  wa_next :: nat

definition wa_new :: watches where
  "wa_new = \<lparr>wa_registries = [], wa_pending = [], wa_next = 0\<rparr>"

type_synonym wire_options = "(string, jsval) jsmap"

datatype wa_out =
    ChannelPublish nat string jsval bytes wire_options
  | WatchResult string "jsval + bool"

definition not_confirmed_error :: "jsval \<Rightarrow> jsval" where
  "not_confirmed_error err = error_object (''Message was not confirmed by the broker: '' @
     (case js_template (opt_prop err ''message'') of Some s \<Rightarrow> s | None \<Rightarrow> []))"

section \<open>Operations\<close>

definition registry_for :: "nat \<Rightarrow> watches \<Rightarrow> watches" where
  "registry_for ch w =
     (if map_has (wa_registries w) ch then w else w\<lparr>wa_registries := map_set ch [] (wa_registries w)\<rparr>)"

definition registry_of :: "watches \<Rightarrow> nat \<Rightarrow> (string, bool) jsmap" where
  "registry_of w ch = (case map_get (wa_registries w) ch of Some r \<Rightarrow> r | None \<Rightarrow> [])"

definition guarded_options :: "string \<Rightarrow> wire_options \<Rightarrow> wire_options" where
  "guarded_options token options =
     map_set ''headers'' (JObj True (map_set return_token_header (JStr token) (spread [] (own_fields (field options ''headers''))))) options"

text \<open>The registry entry of a publication goes when its promise settles, either way.\<close>

definition watch_over :: "nat \<Rightarrow> string \<Rightarrow> jsval option \<Rightarrow> watches \<Rightarrow> watches \<times> wa_out list" where
  "watch_over ch token err w =
     (w\<lparr>wa_registries := map_set ch (map_del token (registry_of w ch)) (wa_registries w),
        wa_pending := map_del token (wa_pending w)\<rparr>,
      [WatchResult token (case err of Some e \<Rightarrow> Inl e | None \<Rightarrow> Inr (map_get (registry_of w ch) token = Some True))])"

text \<open>A publication enters its token in the registry of the channel.\<close>

definition registered :: "nat \<Rightarrow> watches \<Rightarrow> watches" where
  "registered ch w =
     (let token = nat_str (wa_next w); w1 = registry_for ch (w\<lparr>wa_next := Suc (wa_next w)\<rparr>)
      in w1\<lparr>wa_registries := map_set ch (map_set token False (registry_of w1 ch)) (wa_registries w1),
            wa_pending := map_set token ch (wa_pending w1)\<rparr>)"

text \<open>\<open>throws\<close> is what \<open>channel.publish\<close> throws, if anything (a channel already closed).\<close>

definition publish_watched :: "nat \<Rightarrow> string \<Rightarrow> jsval \<Rightarrow> bytes \<Rightarrow> wire_options \<Rightarrow> jsval option \<Rightarrow> watches \<Rightarrow> watches \<times> wa_out list" where
  "publish_watched ch exchange routing_key content options throws w =
     (let token = nat_str (wa_next w); w1 = registered ch w
      in case throws of
           Some e \<Rightarrow> watch_over ch token (Some e) w1
         | None \<Rightarrow> (w1, [ChannelPublish ch exchange routing_key content (guarded_options token options)]))"

text \<open>The one \<open>return\<close> listener of a channel.\<close>

definition returned_frame :: "nat \<Rightarrow> jsval \<Rightarrow> watches \<Rightarrow> watches" where
  "returned_frame ch headers w =
     (case opt_prop headers return_token_header of
        JStr token \<Rightarrow>
          (if map_get (registry_of w ch) token = None then w
           else w\<lparr>wa_registries := map_set ch (map_set token True (registry_of w ch)) (wa_registries w)\<rparr>)
      | _ \<Rightarrow> w)"

definition confirm_frame :: "string \<Rightarrow> jsval option \<Rightarrow> watches \<Rightarrow> watches \<times> wa_out list" where
  "confirm_frame token err w = (case map_get (wa_pending w) token of
      None \<Rightarrow> (w, [])
    | Some ch \<Rightarrow> watch_over ch token (map_option not_confirmed_error err) w)"

definition watch_count :: "nat \<Rightarrow> watches \<Rightarrow> nat" where
  "watch_count ch w = length (registry_of w ch)"

datatype wa_event =
    PublishWatched nat string jsval bytes wire_options "jsval option"
  | ReturnFrame nat jsval
  | ConfirmFrame string "jsval option"

fun wa_step :: "watches \<Rightarrow> wa_event \<Rightarrow> watches \<times> wa_out list" where
  "wa_step w (PublishWatched ch ex rk content options throws) = publish_watched ch ex rk content options throws w"
| "wa_step w (ReturnFrame ch headers) = (returned_frame ch headers w, [])"
| "wa_step w (ConfirmFrame token err) = confirm_frame token err w"

section \<open>The registries hold exactly the publications in flight\<close>

definition wa_inv :: "watches \<Rightarrow> bool" where
  "wa_inv w \<longleftrightarrow>
     (\<forall>ch token. map_get (registry_of w ch) token \<noteq> None \<longleftrightarrow> map_get (wa_pending w) token = Some ch) \<and>
     (\<forall>token \<in> key_set (wa_pending w). \<exists>n < wa_next w. token = nat_str n) \<and>
     (\<forall>ch. wf_map (registry_of w ch))"

lemma registry_of_simps [simp]:
  "registry_of (w\<lparr>wa_registries := map_set ch r (wa_registries w)\<rparr>) ch' = (if ch' = ch then r else registry_of w ch')"
  "registry_of (w\<lparr>wa_registries := map_set ch r (wa_registries w), wa_pending := p\<rparr>) ch' = (if ch' = ch then r else registry_of w ch')"
  "registry_of (registry_for ch w) ch' = registry_of w ch'"
  "registry_of (w\<lparr>wa_next := n\<rparr>) ch' = registry_of w ch'"
  by (auto simp: registry_of_def registry_for_def map_get_set map_has_def split: option.splits)

lemma registry_for_fields [simp]:
  "wa_pending (registry_for ch w) = wa_pending w" "wa_next (registry_for ch w) = wa_next w"
  by (simp_all add: registry_for_def)

lemma wa_new_inv: "wa_inv wa_new"
  by (simp add: wa_inv_def wa_new_def registry_of_def)

lemma registered_fields [simp]:
  "registry_of (registered ch w) ch' = (if ch' = ch then map_set (nat_str (wa_next w)) False (registry_of w ch) else registry_of w ch')"
  "wa_pending (registered ch w) = map_set (nat_str (wa_next w)) ch (wa_pending w)"
  "wa_next (registered ch w) = Suc (wa_next w)"
  by (simp_all add: registered_def Let_def)

lemma wa_fresh: "wa_inv w \<Longrightarrow> wa_next w \<le> n \<Longrightarrow> map_get (wa_pending w) (nat_str n) = None"
  by (auto simp: wa_inv_def map_get_None)

lemma registered_inv:
  assumes "wa_inv w" shows "wa_inv (registered ch w)"
proof -
  have "map_get (wa_pending w) (nat_str (wa_next w)) = None" using assms by (simp add: wa_fresh)
  with assms show ?thesis
    by (auto simp: wa_inv_def map_get_set less_Suc_eq)
qed

lemma watch_over_inv:
  assumes "wa_inv w" "map_get (wa_pending w) token = Some ch"
  shows "wa_inv (fst (watch_over ch token err w))"
  using assms by (auto simp: wa_inv_def watch_over_def map_get_del)

lemma returned_frame_inv: "wa_inv w \<Longrightarrow> wa_inv (returned_frame ch headers w)"
  by (auto simp: wa_inv_def returned_frame_def map_get_set split: jsval.split)

lemma wa_step_inv: "wa_inv w \<Longrightarrow> wa_inv (fst (wa_step w e))"
proof (cases e)
  case (PublishWatched ch ex rk content options throws)
  assume "wa_inv w"
  from registered_inv [OF this, of ch] PublishWatched show ?thesis
    by (auto simp: publish_watched_def Let_def map_get_set intro: watch_over_inv split: option.split)
qed (auto simp: returned_frame_inv confirm_frame_def intro: watch_over_inv split: option.split)

interpretation wam: event_machine wa_step "\<lambda>e. True" wa_inv
  by unfold_locales (rule wa_step_inv)

section \<open>A return fails exactly its own publication\<close>

abbreviation wa_after :: "wa_event list \<Rightarrow> watches" where
  "wa_after es \<equiv> fst (run_machine wa_step wa_new es)"

definition was_returned :: "nat \<Rightarrow> string \<Rightarrow> wa_event list \<Rightarrow> bool" where
  "was_returned ch token es \<longleftrightarrow> (\<exists>before headers after. es = before @ ReturnFrame ch headers # after \<and>
     opt_prop headers return_token_header = JStr token \<and> map_get (wa_pending (wa_after before)) token = Some ch)"

lemma wa_after_snoc: "wa_after (es @ [e]) = fst (wa_step (wa_after es) e)"
  by (simp add: run_machine_append split_def Let_def)

lemma wa_after_inv: "wa_inv (wa_after es)"
  by (rule wam.run_inv) (simp_all add: wa_new_inv list_all_iff)

lemma was_returned_snoc:
  "was_returned ch token (es @ [e]) \<longleftrightarrow> was_returned ch token es \<or>
     (\<exists>headers. e = ReturnFrame ch headers \<and> opt_prop headers return_token_header = JStr token \<and>
        map_get (wa_pending (wa_after es)) token = Some ch)" (is "?l \<longleftrightarrow> ?r")
proof
  assume ?l
  then obtain b h a where *: "es @ [e] = b @ ReturnFrame ch h # a"
    "opt_prop h return_token_header = JStr token" "map_get (wa_pending (wa_after b)) token = Some ch"
    by (auto simp: was_returned_def)
  show ?r
  proof (cases a rule: rev_cases)
    case Nil
    with * show ?thesis by auto
  next
    case (snoc a' x)
    with * show ?thesis by (auto simp: was_returned_def)
  qed
next
  assume ?r
  then show ?l by (fastforce simp: was_returned_def)
qed

lemma wa_next_mono: "wa_next w \<le> wa_next (fst (wa_step w e))"
  by (cases e) (auto simp: publish_watched_def Let_def watch_over_def returned_frame_def confirm_frame_def
      split: option.split jsval.split)

lemma was_returned_old: "was_returned ch token es \<Longrightarrow> \<exists>n < wa_next (wa_after es). token = nat_str n"
proof (induction es rule: rev_induct)
  case (snoc e es)
  have "\<exists>n < wa_next (wa_after es). token = nat_str n"
    using snoc wa_after_inv [of es] by (auto simp: was_returned_snoc wa_inv_def dest: map_get_key)
  then show ?case using wa_next_mono [of "wa_after es" e] by (auto simp: wa_after_snoc dest: less_le_trans)
qed (simp add: was_returned_def)

lemma registry_tells_returns:
  "map_get (registry_of (wa_after es) ch) token = Some b \<Longrightarrow> b = was_returned ch token es"
proof (induction es arbitrary: b rule: rev_induct)
  case Nil
  then show ?case by (simp add: wa_new_def registry_of_def)
next
  case (snoc e es)
  let ?w = "wa_after es"
  have inv: "map_get (registry_of ?w ch) token \<noteq> None \<longleftrightarrow> map_get (wa_pending ?w) token = Some ch"
    using wa_after_inv [of es] by (simp add: wa_inv_def)
  show ?case
  proof (cases e)
    case (PublishWatched c ex rk content options throws)
    have "\<not> was_returned c (nat_str (wa_next ?w)) es" using was_returned_old [of c "nat_str (wa_next ?w)" es] by auto
    with snoc PublishWatched show ?thesis
      by (auto simp: wa_after_snoc was_returned_snoc publish_watched_def Let_def watch_over_def map_get_set map_get_del
          split: option.splits if_splits)
  next
    case (ReturnFrame c headers)
    with snoc inv show ?thesis
      by (auto simp: wa_after_snoc was_returned_snoc returned_frame_def map_get_set split: jsval.splits if_splits)
  next
    case (ConfirmFrame t err)
    with snoc show ?thesis
      by (auto simp: wa_after_snoc was_returned_snoc confirm_frame_def watch_over_def map_get_del split: option.splits if_splits)
  qed
qed

lemma confirmed_watch:
  assumes "map_get (wa_pending (wa_after es)) token = Some ch"
  shows "snd (wa_step (wa_after es) (ConfirmFrame token None)) = [WatchResult token (Inr (was_returned ch token es))]"
proof -
  from wa_after_inv [of es] assms obtain b where b: "map_get (registry_of (wa_after es) ch) token = Some b"
    unfolding wa_inv_def by blast
  then have "b = was_returned ch token es" by (rule registry_tells_returns)
  with assms b show ?thesis by (simp add: confirm_frame_def watch_over_def)
qed

text \<open>
  C36: In every interleaving of publications, returns and confirms on any number of channels: the
  registry of a channel holds exactly the tokens of its publications in flight (nothing is
  left behind), and when the broker confirms a publication its watch reports a return exactly
  if a returned message with this publication's token arrived on this channel while it was in
  flight. A return never fails another publication.
\<close>

theorem return_watch_exact:
  fixes es :: "wa_event list"
  defines "w \<equiv> wa_after es"
  shows "(\<forall>ch token. map_has (registry_of w ch) token \<longleftrightarrow> map_get (wa_pending w) token = Some ch) \<and>
    (map_get (wa_pending w) token = Some ch \<longrightarrow>
       snd (wa_step w (ConfirmFrame token None)) = [WatchResult token (Inr (was_returned ch token es))])"
proof -
  have inv: "map_get (registry_of w ch) token \<noteq> None \<longleftrightarrow> map_get (wa_pending w) token = Some ch" for ch token
    using wa_after_inv [of es] unfolding w_def wa_inv_def by blast
  then have held: "\<forall>ch token. map_has (registry_of w ch) token \<longleftrightarrow> map_get (wa_pending w) token = Some ch"
    unfolding map_has_def by blast
  with confirmed_watch [of es token ch] show ?thesis unfolding w_def [symmetric] by blast
qed

theorem return_watch_exact_witness:
  "let es = [PublishWatched 0 ''x'' JNull [] [] None, PublishWatched 0 ''x'' JNull [] [] None,
             ReturnFrame 0 (JObj True [(return_token_header, JStr ''1'')])]
   in snd (wa_step (wa_after es) (ConfirmFrame ''0'' None)) = [WatchResult ''0'' (Inr False)] \<and>
      snd (wa_step (wa_after es) (ConfirmFrame ''1'' None)) = [WatchResult ''1'' (Inr (was_returned 0 ''1'' es))]"
proof -
  define es where "es = [PublishWatched 0 ''x'' JNull [] [] None, PublishWatched 0 ''x'' JNull [] [] None,
             ReturnFrame 0 (JObj True [(return_token_header, JStr ''1'')])]"
  have "snd (wa_step (wa_after es) (ConfirmFrame ''0'' None)) = [WatchResult ''0'' (Inr False)]"
    "map_get (wa_pending (wa_after es)) ''1'' = Some 0"
    unfolding es_def by code_simp+
  then show ?thesis
    using return_watch_exact [of es "''1''" 0] unfolding Let_def es_def [symmetric] by blast
qed

end
