(* ===== verification/Publisher.thy ===== *)
theory Publisher
  imports Rate_Limiter Routable_Publish Delivery
begin

text \<open>
  \<open>src/messaging/publisher.js\<close>: the checks before a publication, the options that reach the
  broker, and the five ways to publish. A call runs its operation under a policy of the
  library breakwater (retry around a circuit breaker), which is a parameter here:
  \<open>policy_run\<close> states what its documentation promises. What the broker answers to the n-th
  publication of a call, and what \<open>getChannel\<close> gives to the n-th attempt, are parameters too.
  Listeners of the rate limiter and the log are not modelled.
\<close>

section \<open>Options and state\<close>

text \<open>
  \<open>po_fields\<close> are all own properties of the options object, which are spread into the wire
  options; the other fields are those the publisher reads (numbers absent or finite).
\<close>

record publish_options =
  po_mandatory :: bool
  po_priority :: jsval
  po_rate_key :: jsval
  po_rate_cost :: "rat option"
  po_max_retries :: "int option"
  po_retry_delay :: "rat option"
  po_fields :: wire_options

record exchange =
  ex_name :: string
  ex_type :: string

record publisher =
  pb_platform :: platform
  pb_codec :: codec
  pb_limiter :: "jsval rate_limiter option"
  pb_max_priority :: jsnum
  pb_delay_exchange :: string

datatype pub_error =
    Thrown jsval
  | LimiterError rl_error
  | RateLimitExceeded jsval rl_status
  | Unroutable string string

section \<open>Before publishing\<close>

text \<open>White space as \<open>trim\<close> removes it, of ASCII.\<close>

definition js_space :: "char \<Rightarrow> bool" where
  "js_space c \<longleftrightarrow> (let n = of_char c :: nat in 9 \<le> n \<and> n \<le> 13 \<or> n = 32)"

definition validate_routing_key :: "jsval \<Rightarrow> exchange \<Rightarrow> jsval option" where
  "validate_routing_key routing_key ex =
     (case routing_key of
        JStr s \<Rightarrow> if ex_type ex \<notin> {''fanout'', ''headers''} \<and> list_all js_space s
                   then Some (error_object ''Invalid routing key. It must be a non-empty string.'') else None
      | _ \<Rightarrow> Some (error_object ''Invalid routing key. It must be a non-empty string.''))"

definition validate_priority :: "publish_options \<Rightarrow> publisher \<Rightarrow> jsval option" where
  "validate_priority options pb =
     (if po_priority options \<noteq> JUndef \<and>
         (num_lt (js_Number (po_priority options)) (Fin 0) \<or> num_lt (pb_max_priority pb) (js_Number (po_priority options)))
      then Some (error_object (''Invalid priority value. Must be between 0 and '' @ num_str (pb_max_priority pb))) else None)"

text \<open>Admission may come with a delay in milliseconds (the leaky bucket).\<close>

definition apply_rate_limit :: "jsval \<Rightarrow> rat \<Rightarrow> rat \<Rightarrow> publisher \<Rightarrow> publisher \<times> (pub_error + rat)" where
  "apply_rate_limit key cost now pb = (case pb_limiter pb of
      None \<Rightarrow> (pb, Inr 0)
    | Some limiter \<Rightarrow>
        (case check_rate_limit key cost now limiter of
           (l1, events, Inl e) \<Rightarrow> (pb\<lparr>pb_limiter := Some l1\<rparr>, Inl (LimiterError e))
         | (l1, events, Inr (Some delay)) \<Rightarrow> (pb\<lparr>pb_limiter := Some l1\<rparr>, Inr delay)
         | (l1, events, Inr None) \<Rightarrow>
             (case rl_get_status key now l1 of
                (l2, status) \<Rightarrow> (pb\<lparr>pb_limiter := Some l2\<rparr>, Inl (RateLimitExceeded key status)))))"

definition preflight :: "exchange \<Rightarrow> jsval \<Rightarrow> publish_options \<Rightarrow> string \<Rightarrow> rat \<Rightarrow> jsval + nat \<Rightarrow> rat \<Rightarrow> publisher \<Rightarrow>
    publisher \<times> (pub_error + rat)" where
  "preflight ex routing_key options default_rate_key cost channel now pb =
     (case validate_routing_key routing_key ex of
        Some e \<Rightarrow> (pb, Inl (Thrown e))
      | None \<Rightarrow>
          (case validate_priority options pb of
             Some e \<Rightarrow> (pb, Inl (Thrown e))
           | None \<Rightarrow>
               (case channel of
                  Inl e \<Rightarrow> (pb, Inl (Thrown e))
                | Inr ch \<Rightarrow> apply_rate_limit (js_coalesce (po_rate_key options) (JStr default_rate_key)) cost now pb)))"

definition rate_cost :: "publish_options \<Rightarrow> rat" where
  "rate_cost options = (case po_rate_cost options of Some c \<Rightarrow> c | None \<Rightarrow> 1)"

definition build_options :: "publish_options \<Rightarrow> bool \<Rightarrow> (string \<times> jsval) list \<Rightarrow> wire_options" where
  "build_options options compressed extra_headers =
     map_set ''headers''
       (JObj True (spread (map_set ''x-compressed'' (JBool compressed) (spread [] (own_fields (field (po_fields options) ''headers''))))
                     extra_headers))
       (spread [(''persistent'', JBool True)] (po_fields options))"

section \<open>Publications of a call\<close>

text \<open>
  A publication as it goes to the broker; the index is its position in a batch. \<open>Unrouted\<close> is
  a publication that was returned and then confirmed.
\<close>

record publication =
  pn_index :: nat
  pn_exchange :: string
  pn_key :: jsval
  pn_content :: bytes
  pn_options :: wire_options

datatype confirm_answer = Acked | Nacked jsval | Unrouted | PublishThrows jsval

text \<open>
  The state of a call: what it has published, how often its operation ran, and for a batch the
  payloads and the positions not confirmed yet.
\<close>

record publish_call =
  pc_sent :: "publication list"
  pc_attempts :: nat
  pc_prepared :: "(bytes \<times> bool) list option"
  pc_unconfirmed :: "nat list"

definition pc_new :: "nat \<Rightarrow> publish_call" where
  "pc_new n = \<lparr>pc_sent = [], pc_attempts = 0, pc_prepared = None, pc_unconfirmed = [0 ..< n]\<rparr>"

definition key_text :: "jsval \<Rightarrow> string" where
  "key_text k = (case k of JStr s \<Rightarrow> s | _ \<Rightarrow> [])"

text \<open>\<open>publishConfirmed\<close> and, for \<open>mandatory\<close>, the watch of the previous theory.\<close>

definition publish_routable :: "publish_options \<Rightarrow> publication \<Rightarrow> confirm_answer \<Rightarrow> pub_error option" where
  "publish_routable options pn answer = (case answer of
      Acked \<Rightarrow> None
    | Nacked err \<Rightarrow> Some (Thrown (not_confirmed_error err))
    | PublishThrows e \<Rightarrow> Some (Thrown e)
    | Unrouted \<Rightarrow> if po_mandatory options then Some (Unroutable (key_text (pn_key pn)) (pn_exchange pn)) else None)"

datatype drain_answer = KeepGoing | Drained | ClosedWaiting | ErrorWaiting jsval | SendThrows jsval

fun is_error :: "jsval \<Rightarrow> bool" where
  "is_error (JObj True fs) = (map_of fs ''message'' \<noteq> None)"
| "is_error _ = False"

definition publish_fire_and_forget :: "drain_answer \<Rightarrow> jsval option" where
  "publish_fire_and_forget answer = (case answer of
      KeepGoing \<Rightarrow> None
    | Drained \<Rightarrow> None
    | ClosedWaiting \<Rightarrow> Some (error_object ''Channel closed while waiting for drain'')
    | ErrorWaiting error \<Rightarrow> Some (if is_error error then error else error_object ''Channel error while waiting for drain'')
    | SendThrows e \<Rightarrow> Some e)"

section \<open>The operations under the policy\<close>

record call_env =
  ce_channel :: "nat \<Rightarrow> jsval + nat"
  ce_answer :: "nat \<Rightarrow> confirm_answer"
  ce_drain :: "nat \<Rightarrow> drain_answer"

text \<open>\<open>publishOperation\<close> of \<open>publish\<close> and \<open>publishDelayed\<close>.\<close>

definition publish_operation :: "call_env \<Rightarrow> publisher \<Rightarrow> string \<Rightarrow> jsval \<Rightarrow> message \<Rightarrow> publish_options \<Rightarrow>
    (string \<times> jsval) list \<Rightarrow> publish_call \<Rightarrow> publish_call \<times> (pub_error + unit)" where
  "publish_operation env pb exchange_name routing_key message options extra pc =
     (let pc1 = pc\<lparr>pc_attempts := Suc (pc_attempts pc)\<rparr>
      in case ce_channel env (pc_attempts pc) of
           Inl e \<Rightarrow> (pc1, Inl (Thrown e))
         | Inr ch \<Rightarrow>
             (case encode (pb_platform pb) (pb_codec pb) message of
                Inl e \<Rightarrow> (pc1, Inl (Thrown e))
              | Inr (content, compressed) \<Rightarrow>
                  (let pn = \<lparr>pn_index = 0, pn_exchange = exchange_name, pn_key = routing_key, pn_content = content,
                             pn_options = build_options options compressed extra\<rparr>;
                       answer = ce_answer env (length (pc_sent pc));
                       pc2 = pc1\<lparr>pc_sent := pc_sent pc1 @ [pn]\<rparr>
                   in case publish_routable options pn answer of Some e \<Rightarrow> (pc2, Inl e) | None \<Rightarrow> (pc2, Inr ()))))"

text \<open>\<open>Promise.all\<close> over the encodings: the payloads, or the first rejection.\<close>

fun encode_all :: "publisher \<Rightarrow> message list \<Rightarrow> jsval + (bytes \<times> bool) list" where
  "encode_all pb [] = Inr []"
| "encode_all pb (m # ms) = (case encode (pb_platform pb) (pb_codec pb) m of
      Inl e \<Rightarrow> Inl e
    | Inr x \<Rightarrow> (case encode_all pb ms of Inl e \<Rightarrow> Inl e | Inr xs \<Rightarrow> Inr (x # xs)))"

definition batch_publication :: "string \<Rightarrow> jsval \<Rightarrow> publish_options \<Rightarrow> (bytes \<times> bool) list \<Rightarrow> nat \<Rightarrow> publication" where
  "batch_publication exchange_name routing_key options prepared i =
     \<lparr>pn_index = i, pn_exchange = exchange_name, pn_key = routing_key, pn_content = fst (prepared ! i),
      pn_options = build_options options (snd (prepared ! i)) []\<rparr>"

text \<open>
  The publications of one attempt are all made before the first confirm arrives; the n-th of
  them gets the answer to the publication with its number. The results are those of
  \<open>Promise.allSettled\<close>.
\<close>

fun batch_results :: "call_env \<Rightarrow> publish_options \<Rightarrow> nat \<Rightarrow> publication list \<Rightarrow> (nat \<times> pub_error option) list" where
  "batch_results env options n [] = []"
| "batch_results env options n (pn # pns) =
     (pn_index pn, publish_routable options pn (ce_answer env n)) # batch_results env options (Suc n) pns"

definition still_failed :: "(nat \<times> pub_error option) list \<Rightarrow> nat list" where
  "still_failed results = map fst (filter (\<lambda>(i, r). r \<noteq> None) results)"

definition batch_operation :: "call_env \<Rightarrow> publisher \<Rightarrow> string \<Rightarrow> jsval \<Rightarrow> message list \<Rightarrow> publish_options \<Rightarrow>
    publish_call \<Rightarrow> publish_call \<times> (pub_error + unit)" where
  "batch_operation env pb exchange_name routing_key messages options pc =
     (let pc1 = pc\<lparr>pc_attempts := Suc (pc_attempts pc)\<rparr>
      in case ce_channel env (pc_attempts pc) of
           Inl e \<Rightarrow> (pc1, Inl (Thrown e))
         | Inr ch \<Rightarrow>
             (case (case pc_prepared pc1 of Some xs \<Rightarrow> Inr xs | None \<Rightarrow> encode_all pb messages) of
                Inl e \<Rightarrow> (pc1, Inl (Thrown e))
              | Inr prepared \<Rightarrow>
                  (let pns = map (batch_publication exchange_name routing_key options prepared) (pc_unconfirmed pc1);
                       results = batch_results env options (length (pc_sent pc1)) pns;
                       pc2 = pc1\<lparr>pc_prepared := Some prepared, pc_sent := pc_sent pc1 @ pns,
                                 pc_unconfirmed := still_failed results\<rparr>
                   in case List.find (\<lambda>r. r \<noteq> None) (map snd results) of
                        Some (Some e) \<Rightarrow> (pc2, Inl e)
                      | _ \<Rightarrow> (pc2, Inr ()))))"

text \<open>The loop of \<open>publishAsyncBatch\<close>; \<open>publishAsync\<close> is the batch of one.\<close>

fun send_all :: "call_env \<Rightarrow> string \<Rightarrow> jsval \<Rightarrow> publish_options \<Rightarrow> (string \<times> jsval) list \<Rightarrow> (nat \<times> bytes \<times> bool) list \<Rightarrow>
    publish_call \<Rightarrow> publish_call \<times> (pub_error + unit)" where
  "send_all env exchange_name routing_key options extra [] pc = (pc, Inr ())"
| "send_all env exchange_name routing_key options extra ((i, content, compressed) # xs) pc =
     (let pn = \<lparr>pn_index = i, pn_exchange = exchange_name, pn_key = routing_key, pn_content = content,
                pn_options = build_options options compressed extra\<rparr>;
          answer = ce_drain env (length (pc_sent pc));
          pc1 = (case answer of SendThrows e \<Rightarrow> pc | _ \<Rightarrow> pc\<lparr>pc_sent := pc_sent pc @ [pn]\<rparr>)
      in case publish_fire_and_forget answer of
           Some e \<Rightarrow> (pc1, Inl (Thrown e))
         | None \<Rightarrow> send_all env exchange_name routing_key options extra xs pc1)"

definition async_operation :: "call_env \<Rightarrow> publisher \<Rightarrow> string \<Rightarrow> jsval \<Rightarrow> message list \<Rightarrow> publish_options \<Rightarrow>
    (string \<times> jsval) list \<Rightarrow> publish_call \<Rightarrow> publish_call \<times> (pub_error + unit)" where
  "async_operation env pb exchange_name routing_key messages options extra pc =
     (let pc1 = pc\<lparr>pc_attempts := Suc (pc_attempts pc)\<rparr>
      in case ce_channel env (pc_attempts pc) of
           Inl e \<Rightarrow> (pc1, Inl (Thrown e))
         | Inr ch \<Rightarrow>
             (case encode_all pb messages of
                Inl e \<Rightarrow> (pc1, Inl (Thrown e))
              | Inr prepared \<Rightarrow> send_all env exchange_name routing_key options extra (enumerate 0 prepared) pc1))"

section \<open>The calls\<close>

text \<open>What a policy answers: the operation's value, an error, or that every attempt failed.\<close>

datatype policy_result = Resolved | Rejected pub_error | RetryExhausted pub_error

type_synonym call_op = "publish_call \<Rightarrow> publish_call \<times> (pub_error + unit)"

record policies =
  retry_in_breaker :: "nat \<Rightarrow> rat \<Rightarrow> call_op \<Rightarrow> publish_call \<Rightarrow> publish_call \<times> policy_result"
  breaker_alone :: "call_op \<Rightarrow> publish_call \<Rightarrow> publish_call \<times> policy_result"

definition publish_policy :: "policies \<Rightarrow> publish_options \<Rightarrow> call_op \<Rightarrow> publish_call \<Rightarrow> publish_call \<times> policy_result" where
  "publish_policy pol options =
     retry_in_breaker pol
       (nat (max 1 (case po_max_retries options of Some n \<Rightarrow> n | None \<Rightarrow> 3)))
       (case po_retry_delay options of Some d \<Rightarrow> d | None \<Rightarrow> 1000)"

fun run_protected :: "policy_result \<Rightarrow> pub_error + unit" where
  "run_protected Resolved = Inr ()"
| "run_protected (Rejected e) = Inl e"
| "run_protected (RetryExhausted cause) = Inl cause"

text \<open>
  Every call: its own checks, the preflight, then the operation under the policy. \<open>now\<close> is the
  time of the rate check and \<open>channel\<close> what the connection probe gives. The result is the
  publisher (whose limiter may have moved), what was published, and the promise's outcome.
\<close>

definition after_preflight :: "publisher \<times> (pub_error + rat) \<Rightarrow> nat \<Rightarrow> (publisher \<Rightarrow> publish_call \<Rightarrow> publish_call \<times> policy_result) \<Rightarrow>
    publisher \<times> publish_call \<times> (pub_error + unit)" where
  "after_preflight pre n run = (case pre of
      (pb, Inl e) \<Rightarrow> (pb, pc_new n, Inl e)
    | (pb, Inr delay) \<Rightarrow> (case run pb (pc_new n) of (pc, r) \<Rightarrow> (pb, pc, run_protected r)))"

definition publish :: "policies \<Rightarrow> call_env \<Rightarrow> exchange \<Rightarrow> jsval + nat \<Rightarrow> rat \<Rightarrow> jsval \<Rightarrow> message \<Rightarrow> publish_options \<Rightarrow> publisher \<Rightarrow>
    publisher \<times> publish_call \<times> (pub_error + unit)" where
  "publish pol env ex channel now routing_key message options pb =
     after_preflight (preflight ex routing_key options (key_text routing_key) (rate_cost options) channel now pb) 1
       (\<lambda>pb1. publish_policy pol options (publish_operation env pb1 (ex_name ex) routing_key message options []))"

definition publish_batch :: "policies \<Rightarrow> call_env \<Rightarrow> exchange \<Rightarrow> jsval + nat \<Rightarrow> rat \<Rightarrow> jsval \<Rightarrow> message list \<Rightarrow> publish_options \<Rightarrow>
    publisher \<Rightarrow> publisher \<times> publish_call \<times> (pub_error + unit)" where
  "publish_batch pol env ex channel now routing_key messages options pb =
     (if messages = [] then (pb, pc_new 0, Inl (Thrown (error_object ''Messages must be a non-empty array.'')))
      else after_preflight
             (preflight ex routing_key options (key_text routing_key) (of_nat (length messages) * rate_cost options) channel now pb)
             (length messages)
             (\<lambda>pb1. publish_policy pol options (batch_operation env pb1 (ex_name ex) routing_key messages options)))"

definition mandatory_refused :: "string \<Rightarrow> jsval" where
  "mandatory_refused method = error_object (''The 'mandatory' option needs a broker confirm to report the return '' @
     [CHR 0xE2, CHR 0x80, CHR 0x94] @ '' '' @ method @
     '' is fire-and-forget. Use publish(), publishBatch() or publishDelayed() instead.'')"

text \<open>The catch of the two fire-and-forget calls: it describes the error for the log and rethrows it.\<close>

definition async_rejected :: "string \<Rightarrow> pub_error \<Rightarrow> pub_error" where
  "async_rejected prefix error = (case error of
      Thrown e \<Rightarrow> (case describe_line prefix e of Inl escaped \<Rightarrow> Thrown escaped | Inr line \<Rightarrow> Thrown e)
    | _ \<Rightarrow> error)"

definition async_policy :: "policies \<Rightarrow> string \<Rightarrow> call_op \<Rightarrow> publish_call \<Rightarrow> publish_call \<times> policy_result" where
  "async_policy pol prefix op pc = (case breaker_alone pol op pc of
      (pc1, Rejected e) \<Rightarrow> (pc1, Rejected (async_rejected prefix e))
    | (pc1, RetryExhausted e) \<Rightarrow> (pc1, RetryExhausted e)
    | (pc1, Resolved) \<Rightarrow> (pc1, Resolved))"

definition publish_async :: "policies \<Rightarrow> call_env \<Rightarrow> exchange \<Rightarrow> jsval + nat \<Rightarrow> rat \<Rightarrow> jsval \<Rightarrow> message \<Rightarrow> publish_options \<Rightarrow>
    publisher \<Rightarrow> publisher \<times> publish_call \<times> (pub_error + unit)" where
  "publish_async pol env ex channel now routing_key message options pb =
     (if po_mandatory options then (pb, pc_new 1, Inl (Thrown (mandatory_refused ''publishAsync'')))
      else after_preflight (preflight ex routing_key options (''async:'' @ key_text routing_key) (rate_cost options) channel now pb) 1
             (\<lambda>pb1. async_policy pol ''Failed to publish message asynchronously: '' (async_operation env pb1 (ex_name ex) routing_key [message] options [(''x-async'', JBool True)])))"

definition publish_async_batch :: "policies \<Rightarrow> call_env \<Rightarrow> exchange \<Rightarrow> jsval + nat \<Rightarrow> rat \<Rightarrow> jsval \<Rightarrow> message list \<Rightarrow>
    publish_options \<Rightarrow> publisher \<Rightarrow> publisher \<times> publish_call \<times> (pub_error + unit)" where
  "publish_async_batch pol env ex channel now routing_key messages options pb =
     (if po_mandatory options then (pb, pc_new (length messages), Inl (Thrown (mandatory_refused ''publishAsyncBatch'')))
      else if messages = [] then (pb, pc_new 0, Inl (Thrown (error_object ''Messages must be a non-empty array.'')))
      else after_preflight
             (preflight ex routing_key options (''async-batch:'' @ key_text routing_key) (of_nat (length messages) * rate_cost options) channel now pb)
             (length messages)
             (\<lambda>pb1. async_policy pol ''Failed to publish batch asynchronously: '' (async_operation env pb1 (ex_name ex) routing_key messages options [(''x-async-batch'', JBool True)])))"

definition publish_delayed :: "policies \<Rightarrow> call_env \<Rightarrow> exchange \<Rightarrow> jsval + nat \<Rightarrow> rat \<Rightarrow> jsval \<Rightarrow> message \<Rightarrow> jsval \<Rightarrow> publish_options \<Rightarrow>
    publisher \<Rightarrow> publisher \<times> publish_call \<times> (pub_error + unit)" where
  "publish_delayed pol env ex channel now routing_key message delay_ms options pb =
     (case delay_ms of
        JNum (Fin d) \<Rightarrow>
          if d < 0 then (pb, pc_new 1, Inl (Thrown (error_object ''Delay must be a non-negative number of milliseconds'')))
          else after_preflight (preflight ex routing_key options (''delayed:'' @ key_text routing_key) (rate_cost options) channel now pb) 1
                 (\<lambda>pb1. publish_policy pol options
                    (publish_operation env pb1 (pb_delay_exchange pb1) routing_key message options [(''x-delay'', JNum (Fin d))]))
      | _ \<Rightarrow> (pb, pc_new 1, Inl (Thrown (error_object ''Delay must be a non-negative number of milliseconds''))))"

section \<open>What the policy promises\<close>

text \<open>
  The documented behaviour of breakwater that the calls rely on: the operation runs at most
  \<open>n\<close> times, one run after another; the first success is the answer; a failure is followed by
  another run, or by the rejection with its error, or when no run is left by the envelope
  around it; and an open circuit rejects without a run.
\<close>

inductive policy_run :: "nat \<Rightarrow> call_op \<Rightarrow> publish_call \<Rightarrow> publish_call \<Rightarrow> policy_result \<Rightarrow> bool" where
  open_circuit: "policy_run n op s s (Rejected e)"
| succeeds: "op s = (s', Inr ()) \<Longrightarrow> policy_run (Suc n) op s s' Resolved"
| fails: "op s = (s', Inl e) \<Longrightarrow> policy_run (Suc n) op s s' (Rejected e)"
| exhausted: "op s = (s', Inl e) \<Longrightarrow> policy_run (Suc 0) op s s' (RetryExhausted e)"
| again: "op s = (s', Inl e) \<Longrightarrow> policy_run n op s' s'' r \<Longrightarrow> policy_run (Suc n) op s s'' r"

definition policies_ok :: "policies \<Rightarrow> bool" where
  "policies_ok pol \<longleftrightarrow>
     (\<forall>n d op s. policy_run n op s (fst (retry_in_breaker pol n d op s)) (snd (retry_in_breaker pol n d op s))) \<and>
     (\<forall>op s. policy_run 1 op s (fst (breaker_alone pol op s)) (snd (breaker_alone pol op s)))"

fun retry_loop :: "nat \<Rightarrow> call_op \<Rightarrow> publish_call \<Rightarrow> publish_call \<times> policy_result" where
  "retry_loop 0 op s = (s, Rejected (Thrown JUndef))"
| "retry_loop (Suc n) op s = (case op s of
      (s', Inr _) \<Rightarrow> (s', Resolved)
    | (s', Inl e) \<Rightarrow> if n = 0 then (s', RetryExhausted e) else retry_loop n op s')"

definition sample_policies :: policies where
  "sample_policies = \<lparr>retry_in_breaker = (\<lambda>n d. retry_loop n), breaker_alone = retry_loop 1\<rparr>"

lemma retry_loop_run: "policy_run n op s (fst (retry_loop n op s)) (snd (retry_loop n op s))"
  by (induction n op s rule: retry_loop.induct) (auto intro: policy_run.intros split: prod.split sum.split)

lemma sample_policies_ok: "policies_ok sample_policies"
  by (auto simp: policies_ok_def sample_policies_def retry_loop_run simp del: retry_loop.simps)

lemma policy_run_keeps:
  assumes "policy_run n op s s' r" "I s" "\<And>s. I s \<Longrightarrow> I (fst (op s))"
  shows "I s'"
  using assms by (induction rule: policy_run.induct) (metis fst_conv)+

lemma policy_run_resolved:
  assumes "policy_run n op s s' r" "r = Resolved" "I s" "\<And>s. I s \<Longrightarrow> I (fst (op s))"
  shows "\<exists>s1. I s1 \<and> op s1 = (s', Inr ())"
  using assms by (induction rule: policy_run.induct) (auto, metis fst_conv)

lemma policy_run_attempts:
  assumes "policy_run n op s s' r" "\<And>s. pc_attempts (fst (op s)) = Suc (pc_attempts s)"
  shows "pc_attempts s' \<le> pc_attempts s + n"
  using assms
proof (induction rule: policy_run.induct)
  case (again op s s' e n s'' r)
  then have "pc_attempts s' = Suc (pc_attempts s)" by (metis fst_conv)
  with again show ?case by simp
qed (metis fst_conv add_Suc_right le_add1 not_less_eq_eq order_refl add.commute add_0 le_add2)+

section \<open>Batches\<close>

text \<open>How often position \<open>i\<close> has been published, and confirmed, in a list of publications.\<close>

definition sends_of :: "nat \<Rightarrow> publication list \<Rightarrow> nat" where
  "sends_of i pns = length (filter (\<lambda>pn. pn_index pn = i) pns)"

definition confirmations :: "call_env \<Rightarrow> publish_options \<Rightarrow> nat \<Rightarrow> publication list \<Rightarrow> nat \<Rightarrow> nat" where
  "confirmations env options n pns i =
     length (filter (\<lambda>(j, pn). pn_index pn = i \<and> publish_routable options pn (ce_answer env j) = None) (enumerate n pns))"

lemma sends_of_append [simp]: "sends_of i (xs @ ys) = sends_of i xs + sends_of i ys"
  by (simp add: sends_of_def)

lemma confirmations_append:
  "confirmations env options n (xs @ ys) i = confirmations env options n xs i + confirmations env options (n + length xs) ys i"
  by (simp add: confirmations_def enumerate_append_eq)

lemma batch_results_fst: "map fst (batch_results env options n pns) = map pn_index pns"
  by (induction env options n pns rule: batch_results.induct) simp_all

lemma still_failed_subset: "set (still_failed results) \<subseteq> set (map fst results)"
  by (auto simp: still_failed_def)

lemma still_failed_distinct: "distinct (map fst results) \<Longrightarrow> distinct (still_failed results)"
  unfolding still_failed_def by (induction results) auto

lemma attempt_counts:
  assumes "distinct us" "\<And>i. pn_index (f i) = i"
  shows "sends_of i (map f us) = (if i \<in> set us then 1 else 0)"
    and "confirmations env options n (map f us) i =
      (if i \<in> set us \<and> i \<notin> set (still_failed (batch_results env options n (map f us))) then 1 else 0)"
proof -
  show "sends_of i (map f us) = (if i \<in> set us then 1 else 0)"
    using assms by (induction us) (auto simp: sends_of_def)
  show "confirmations env options n (map f us) i =
      (if i \<in> set us \<and> i \<notin> set (still_failed (batch_results env options n (map f us))) then 1 else 0)"
    using assms(1)
  proof (induction us arbitrary: n)
    case (Cons u us)
    have "set (still_failed (batch_results env options (Suc n) (map f us))) \<subseteq> set us"
      using still_failed_subset [of "batch_results env options (Suc n) (map f us)"] assms(2)
      by (auto simp: batch_results_fst comp_def)
    moreover have "confirmations env options n (map f (u # us)) i =
        (if u = i \<and> publish_routable options (f u) (ce_answer env n) = None then 1 else 0) +
        confirmations env options (Suc n) (map f us) i"
      by (auto simp add: confirmations_def assms(2))
    ultimately show ?case
      using Cons by (auto simp: still_failed_def assms(2))
  qed (simp add: confirmations_def)
qed

definition batch_inv :: "call_env \<Rightarrow> publisher \<Rightarrow> message list \<Rightarrow> publish_options \<Rightarrow> publish_call \<Rightarrow> bool" where
  "batch_inv env pb messages options pc \<longleftrightarrow>
     distinct (pc_unconfirmed pc) \<and> set (pc_unconfirmed pc) \<subseteq> {0 ..< length messages} \<and>
     (\<forall>i < length messages. confirmations env options 0 (pc_sent pc) i = (if i \<in> set (pc_unconfirmed pc) then 0 else 1)) \<and>
     (\<forall>i. sends_of i (pc_sent pc) \<le> pc_attempts pc) \<and>
     (\<forall>xs. pc_prepared pc = Some xs \<longrightarrow> encode_all pb messages = Inr xs) \<and>
     (\<forall>pn \<in> set (pc_sent pc). pn_index pn < length messages \<and>
        (\<exists>compressed. encode (pb_platform pb) (pb_codec pb) (messages ! pn_index pn) = Inr (pn_content pn, compressed) \<and>
           pn_options pn = build_options options compressed []))"

lemma encode_all_nth:
  "encode_all pb ms = Inr xs \<Longrightarrow> length xs = length ms \<and> (\<forall>i < length ms. encode (pb_platform pb) (pb_codec pb) (ms ! i) = Inr (xs ! i))"
proof (induction ms arbitrary: xs)
  case (Cons m ms)
  then show ?case by (auto simp: nth_Cons split: sum.splits nat.splits)
qed simp

lemma batch_new_inv: "batch_inv env pb messages options (pc_new (length messages))"
  by (simp add: batch_inv_def pc_new_def confirmations_def sends_of_def)

lemma batch_operation_attempts: "pc_attempts (fst (batch_operation env pb x k messages options pc)) = Suc (pc_attempts pc)"
  by (auto simp: batch_operation_def Let_def split: sum.split option.split)

lemma batch_operation_inv:
  assumes "batch_inv env pb messages options pc"
  shows "batch_inv env pb messages options (fst (batch_operation env pb x k messages options pc))"
proof -
  let ?pc1 = "pc\<lparr>pc_attempts := Suc (pc_attempts pc)\<rparr>"
  have pc1: "batch_inv env pb messages options ?pc1"
    using assms unfolding batch_inv_def by (auto intro: le_SucI)
  show ?thesis
  proof (cases "ce_channel env (pc_attempts pc)")
    case (Inl e)
    with pc1 show ?thesis by (simp add: batch_operation_def Let_def)
  next
    case (Inr ch)
    show ?thesis
    proof (cases "case pc_prepared pc of Some xs \<Rightarrow> Inr xs | None \<Rightarrow> encode_all pb messages")
      case (Inl e)
      with pc1 Inr show ?thesis by (simp add: batch_operation_def Let_def)
    next
      case prep: (Inr prepared)
      have enc: "encode_all pb messages = Inr prepared"
        using prep assms by (auto simp: batch_inv_def split: option.splits)
      note nth = encode_all_nth [OF enc]
      let ?f = "batch_publication x k options prepared"
      let ?us = "pc_unconfirmed pc" and ?n = "length (pc_sent pc)"
      let ?pns = "map ?f ?us"
      let ?failed = "still_failed (batch_results env options ?n ?pns)"
      have f: "\<And>i. pn_index (?f i) = i" by (simp add: batch_publication_def)
      have us: "distinct ?us" "set ?us \<subseteq> {0 ..< length messages}"
        using assms by (simp_all add: batch_inv_def)
      have keys: "map fst (batch_results env options ?n ?pns) = ?us"
        by (simp add: batch_results_fst comp_def f)
      have failed: "distinct ?failed" "set ?failed \<subseteq> set ?us"
        using us(1) keys still_failed_distinct still_failed_subset by metis+
      have result: "fst (batch_operation env pb x k messages options pc) =
          ?pc1\<lparr>pc_prepared := Some prepared, pc_sent := pc_sent pc @ ?pns, pc_unconfirmed := ?failed\<rparr>"
        using Inr prep by (simp add: batch_operation_def Let_def split: option.split)
      have "confirmations env options 0 (pc_sent pc @ ?pns) i = (if i \<in> set ?failed then 0 else 1)"
        if "i < length messages" for i
        using assms that failed attempt_counts(2) [OF us(1) f, of env options ?n i]
        by (auto simp: confirmations_append batch_inv_def)
      moreover have "sends_of i (pc_sent pc @ ?pns) \<le> Suc (pc_attempts pc)" for i
        using assms attempt_counts(1) [OF us(1) f, of i] by (auto simp: batch_inv_def intro: le_SucI)
      moreover have "pn_index pn < length messages \<and>
          (\<exists>compressed. encode (pb_platform pb) (pb_codec pb) (messages ! pn_index pn) = Inr (pn_content pn, compressed) \<and>
             pn_options pn = build_options options compressed [])"
        if "pn \<in> set (pc_sent pc @ ?pns)" for pn
      proof (cases "pn \<in> set (pc_sent pc)")
        case True
        with assms show ?thesis by (simp add: batch_inv_def)
      next
        case False
        with that obtain i where "i \<in> set ?us" "pn = ?f i" by auto
        moreover from this us have "i < length messages" by auto
        ultimately show ?thesis
          using nth by (auto simp: batch_publication_def intro!: exI [of _ "snd (prepared ! i)"])
      qed
      ultimately show ?thesis
        using failed us enc unfolding result by (auto simp: batch_inv_def)
    qed
  qed
qed

lemma find_none: "List.find (\<lambda>r. r \<noteq> None) rs = None \<longleftrightarrow> set rs \<subseteq> {None}"
  by (induction rs) auto

lemma batch_operation_success:
  assumes "batch_operation env pb x k messages options pc = (pc', Inr ())" shows "pc_unconfirmed pc' = []"
proof -
  have settled: "still_failed results = []" if "\<forall>e. List.find (\<lambda>r. r \<noteq> None) (map snd results) \<noteq> Some (Some e)" for results
  proof -
    have "List.find (\<lambda>r. r \<noteq> None) (map snd results) = None"
    proof (cases "List.find (\<lambda>r. r \<noteq> None) (map snd results)")
      case (Some r)
      then have "r \<noteq> None" by (auto simp: find_Some_iff)
      with Some that show ?thesis by auto
    qed simp
    then have "set (map snd results) \<subseteq> {None}" by (rule iffD1 [OF find_none])
    then show ?thesis by (auto simp: still_failed_def filter_empty_conv)
  qed
  show ?thesis
    using assms settled
    by (auto simp: batch_operation_def Let_def split: sum.splits option.splits intro!: settled)
qed

text \<open>
  C1: A batch is retried without repeating what the broker has confirmed. Under a policy that keeps
  breakwater's contract, whatever the broker answers to each publication and whenever the
  channel is unavailable: no position is published again once it is confirmed (each has at
  most one confirmed publication), no position is published more often than there are
  attempts, every publication carries the encoding of its own message, and a batch that
  resolves has had every message confirmed exactly once.
\<close>

theorem batch_confirms_each_once:
  assumes "policies_ok pol" and "publish_batch pol env ex channel now routing_key messages options pb = (pb', pc, res)"
  shows "(\<forall>i < length messages. confirmations env options 0 (pc_sent pc) i \<le> 1 \<and>
      sends_of i (pc_sent pc) \<le> nat (max 1 (case po_max_retries options of Some n \<Rightarrow> n | None \<Rightarrow> 3))) \<and>
    (\<forall>pn \<in> set (pc_sent pc). \<exists>compressed.
       encode (pb_platform pb') (pb_codec pb') (messages ! pn_index pn) = Inr (pn_content pn, compressed) \<and>
       pn_options pn = build_options options compressed []) \<and>
    (res = Inr () \<longrightarrow> (\<forall>i < length messages. confirmations env options 0 (pc_sent pc) i = 1))"
proof (cases "pc_sent pc = [] \<and> res \<noteq> Inr ()")
  case True
  then show ?thesis by (simp add: confirmations_def sends_of_def)
next
  case False
  let ?n = "nat (max 1 (case po_max_retries options of Some n \<Rightarrow> n | None \<Rightarrow> 3))"
  let ?op = "batch_operation env pb' (ex_name ex) routing_key messages options"
  have "messages \<noteq> []" using assms(2) False by (auto simp: publish_batch_def pc_new_def)
  with assms(2) False obtain r where r: "publish_policy pol options ?op (pc_new (length messages)) = (pc, r)" "res = run_protected r"
    by (auto simp: publish_batch_def after_preflight_def pc_new_def split: prod.splits sum.splits)
  let ?d = "case po_retry_delay options of Some d \<Rightarrow> d | None \<Rightarrow> 1000"
  have run: "policy_run ?n ?op (pc_new (length messages)) pc r"
    using assms(1) r(1) unfolding policies_ok_def publish_policy_def by (metis fst_conv snd_conv)
  have inv: "batch_inv env pb' messages options pc"
    by (rule policy_run_keeps [OF run, where I = "batch_inv env pb' messages options"])
      (simp_all add: batch_new_inv batch_operation_inv)
  have "pc_attempts pc \<le> 0 + ?n"
    using policy_run_attempts [OF run] batch_operation_attempts by (simp add: pc_new_def)
  then have bound: "sends_of i (pc_sent pc) \<le> ?n" for i
    using inv by (auto simp: batch_inv_def intro: le_trans)
  have "pc_unconfirmed pc = []" if "res = Inr ()"
  proof -
    from that r(2) have "r = Resolved" by (cases r) simp_all
    with policy_run_resolved [OF run, where I = "\<lambda>_. True"] show ?thesis
      using batch_operation_success by metis
  qed
  with inv bound show ?thesis by (auto simp: batch_inv_def)
qed

definition sample_publisher :: publisher where
  "sample_publisher = \<lparr>pb_platform = sample_platform, pb_codec = sample_codec, pb_limiter = None,
     pb_max_priority = Fin 10, pb_delay_exchange = ''delay''\<rparr>"

definition sample_publish_options :: publish_options where
  "sample_publish_options = \<lparr>po_mandatory = True, po_priority = JUndef, po_rate_key = JUndef, po_rate_cost = None,
     po_max_retries = None, po_retry_delay = None,
     po_fields = [(''mandatory'', JBool True), (''headers'', JObj True [(''x-compressed'', JBool True), (''h'', JNull)])]\<rparr>"

definition sample_exchange :: exchange where
  "sample_exchange = \<lparr>ex_name = ''x'', ex_type = ''direct''\<rparr>"

text \<open>The broker nacks the second publication and confirms the others; the channel is gone once.\<close>

definition sample_env :: call_env where
  "sample_env = \<lparr>ce_channel = (\<lambda>n. if n = 1 then Inl JNull else Inr 0),
     ce_answer = (\<lambda>n. if n = 1 then Nacked JNull else Acked), ce_drain = (\<lambda>n. if n = 1 then ClosedWaiting else Drained)\<rparr>"

theorem batch_confirms_each_once_witness:
  "\<exists>pb' pc. publish_batch sample_policies sample_env sample_exchange (Inr 0) 0 (JStr ''k'')
       [MBuffer [1], MBuffer [2], MBuffer [3]] sample_publish_options sample_publisher = (pb', pc, Inr ()) \<and>
     map pn_index (pc_sent pc) = [0, 1, 2, 1] \<and>
     (\<forall>i \<in> {0, 1, 2}. confirmations sample_env sample_publish_options 0 (pc_sent pc) i = 1)"
proof -
  define r where "r = publish_batch sample_policies sample_env sample_exchange (Inr 0) 0 (JStr ''k'')
       [MBuffer [1], MBuffer [2], MBuffer [3]] sample_publish_options sample_publisher"
  have "snd (snd r) = Inr ()" "map pn_index (pc_sent (fst (snd r))) = [0, 1, 2, 1]"
    unfolding r_def by code_simp+
  moreover from this have "publish_batch sample_policies sample_env sample_exchange (Inr 0) 0 (JStr ''k'')
       [MBuffer [1], MBuffer [2], MBuffer [3]] sample_publish_options sample_publisher = (fst r, fst (snd r), Inr ())"
    by (metis prod.collapse r_def)
  moreover from batch_confirms_each_once [OF sample_policies_ok this]
  have "\<forall>i < length [MBuffer [1], MBuffer [2], MBuffer [3]].
      confirmations sample_env sample_publish_options 0 (pc_sent (fst (snd r))) i = 1" by blast
  then have "\<forall>i \<in> {0, 1, 2}. confirmations sample_env sample_publish_options 0 (pc_sent (fst (snd r))) i = 1" by simp
  ultimately show ?thesis by (intro exI [of _ "fst r"] exI [of _ "fst (snd r)"] conjI)
qed

section \<open>Single publications\<close>

lemma field_spread_keep: "list_all (\<lambda>(k', v). k' \<noteq> k) fs \<Longrightarrow> field (spread m fs) k = field m k"
  by (induction m fs rule: spread.induct) auto

lemma built_headers:
  "field (build_options options compressed extra) ''headers'' = JObj True (spread (map_set ''x-compressed'' (JBool compressed)
     (spread [] (own_fields (field (po_fields options) ''headers'')))) extra)"
  by (simp add: build_options_def)

lemma built_compressed_flag:
  assumes "list_all (\<lambda>(k, v). k \<noteq> ''x-compressed'') extra"
  shows "opt_prop (field (build_options options compressed extra) ''headers'') ''x-compressed'' = JBool compressed"
  using field_spread_keep [OF assms] by (simp only: built_headers opt_prop_field field_set) simp

text \<open>What holds while a single publication is retried: all publications so far have failed.\<close>

definition single_inv :: "call_env \<Rightarrow> publisher \<Rightarrow> string \<Rightarrow> message \<Rightarrow> publish_options \<Rightarrow> (string \<times> jsval) list \<Rightarrow> publish_call \<Rightarrow> bool" where
  "single_inv env pb x message options extra pc \<longleftrightarrow>
     length (pc_sent pc) \<le> pc_attempts pc \<and>
     (\<forall>j. Suc j < length (pc_sent pc) \<longrightarrow> publish_routable options (pc_sent pc ! j) (ce_answer env j) \<noteq> None) \<and>
     (\<forall>pn \<in> set (pc_sent pc). pn_exchange pn = x \<and> (\<exists>compressed. encode (pb_platform pb) (pb_codec pb) message = Inr (pn_content pn, compressed) \<and>
        pn_options pn = build_options options compressed extra))"

definition all_failed :: "call_env \<Rightarrow> publish_options \<Rightarrow> publish_call \<Rightarrow> bool" where
  "all_failed env options pc \<longleftrightarrow> (\<forall>j < length (pc_sent pc). publish_routable options (pc_sent pc ! j) (ce_answer env j) \<noteq> None)"

lemma publish_operation_step:
  assumes "single_inv env pb x message options extra pc" "all_failed env options pc"
    and "publish_operation env pb x k message options extra pc = (pc', res)"
  shows "single_inv env pb x message options extra pc'"
    and "pc_attempts pc' = Suc (pc_attempts pc)"
    and "res \<noteq> Inr () \<Longrightarrow> all_failed env options pc'"
    and "res = Inr () \<Longrightarrow> pc_sent pc' \<noteq> [] \<and>
      publish_routable options (last (pc_sent pc')) (ce_answer env (length (pc_sent pc') - 1)) = None"
  using assms
  by (auto simp: publish_operation_def Let_def single_inv_def all_failed_def nth_append less_Suc_eq
      intro: le_SucI split: sum.splits option.splits prod.splits)

lemma policy_run_single:
  assumes "policy_run n (publish_operation env pb x k message options extra) pc pc' r"
    and "single_inv env pb x message options extra pc" "all_failed env options pc"
  shows "single_inv env pb x message options extra pc' \<and> pc_attempts pc' \<le> pc_attempts pc + n \<and>
    (r \<noteq> Resolved \<longrightarrow> all_failed env options pc') \<and>
    (r = Resolved \<longrightarrow> pc_sent pc' \<noteq> [] \<and>
      publish_routable options (last (pc_sent pc')) (ce_answer env (length (pc_sent pc') - 1)) = None)"
  using assms
proof (induction n "publish_operation env pb x k message options extra" pc pc' r rule: policy_run.induct)
  case (again s s' e n s'' r)
  note step = publish_operation_step [OF again.prems again.hyps(1)]
  from step(3) have "all_failed env options s'" by simp
  with again.hyps(3) [OF step(1)] step(2) show ?case by auto
next
  case (succeeds s s' n)
  from publish_operation_step [OF succeeds.prems succeeds.hyps(1)] show ?case by simp
next
  case (fails s s' e n)
  from publish_operation_step [OF fails.prems fails.hyps(1)] show ?case by simp
next
  case (exhausted s s' e)
  from publish_operation_step [OF exhausted.prems exhausted.hyps(1)] show ?case by simp
qed simp

lemma single_new_inv: "single_inv env pb x message options extra (pc_new n)" "all_failed env options (pc_new n)"
  by (simp_all add: single_inv_def all_failed_def pc_new_def)

text \<open>The answers of the broker under which \<open>publishRoutable\<close> resolves.\<close>

lemma good_answer:
  "publish_routable options pn answer = None \<longleftrightarrow> answer = Acked \<or> answer = Unrouted \<and> \<not> po_mandatory options"
  by (cases answer) (auto simp: publish_routable_def)

text \<open>
  C37: A publication is confirmed or rejected, never both and never in silence. Under a policy that
  keeps breakwater's contract, \<open>publish\<close> makes at most as many publications as attempts. A
  publication is good when the broker confirmed it and, with \<open>mandatory\<close>, did not return it;
  without \<open>mandatory\<close>, the default, a confirmed message that no queue took is good as well.
  The call resolves exactly when the last publication was good, and no earlier one was: nothing
  is published after a good one, and when the call rejects, none was.
\<close>

theorem publish_resolves_iff_confirmed:
  assumes "policies_ok pol" and "publish pol env ex channel now routing_key message options pb = (pb', pc, res)"
  shows "length (pc_sent pc) \<le> nat (max 1 (case po_max_retries options of Some n \<Rightarrow> n | None \<Rightarrow> 3)) \<and>
    (\<forall>j. Suc j < length (pc_sent pc) \<longrightarrow> ce_answer env j \<noteq> Acked \<and> (ce_answer env j = Unrouted \<longrightarrow> po_mandatory options)) \<and>
    (res = Inr () \<longleftrightarrow> pc_sent pc \<noteq> [] \<and>
       (ce_answer env (length (pc_sent pc) - 1) = Acked \<or>
        ce_answer env (length (pc_sent pc) - 1) = Unrouted \<and> \<not> po_mandatory options))"
proof (cases "pc = pc_new 1 \<and> res \<noteq> Inr ()")
  case True
  then show ?thesis by (simp add: pc_new_def)
next
  case False
  let ?n = "nat (max 1 (case po_max_retries options of Some n \<Rightarrow> n | None \<Rightarrow> 3))"
  let ?op = "publish_operation env pb' (ex_name ex) routing_key message options []"
  obtain r where r: "publish_policy pol options ?op (pc_new 1) = (pc, r)" "res = run_protected r"
    using assms(2) False by (auto simp: publish_def after_preflight_def split: prod.splits sum.splits)
  have run: "policy_run ?n ?op (pc_new 1) pc r"
    using assms(1) r(1) unfolding policies_ok_def publish_policy_def by (metis fst_conv snd_conv)
  have res: "res = Inr () \<longleftrightarrow> r = Resolved" using r(2) by (cases r) simp_all
  from policy_run_single [OF run single_new_inv]
  have *: "length (pc_sent pc) \<le> ?n" "\<forall>j. Suc j < length (pc_sent pc) \<longrightarrow> publish_routable options (pc_sent pc ! j) (ce_answer env j) \<noteq> None"
    "r \<noteq> Resolved \<longrightarrow> all_failed env options pc" "r = Resolved \<longrightarrow> pc_sent pc \<noteq> [] \<and>
      publish_routable options (last (pc_sent pc)) (ce_answer env (length (pc_sent pc) - 1)) = None"
    by (auto simp: single_inv_def pc_new_def)
  have "\<not> all_failed env options pc" if "pc_sent pc \<noteq> []"
    "publish_routable options (last (pc_sent pc)) (ce_answer env (length (pc_sent pc) - 1)) = None"
  proof -
    from that(1) have "length (pc_sent pc) - 1 < length (pc_sent pc)" by simp
    with that show ?thesis unfolding all_failed_def last_conv_nth [OF that(1)] by blast
  qed
  then have iff: "res = Inr () \<longleftrightarrow> pc_sent pc \<noteq> [] \<and>
       publish_routable options (last (pc_sent pc)) (ce_answer env (length (pc_sent pc) - 1)) = None"
    using * res by blast
  with *(1,2) show ?thesis unfolding good_answer by blast
qed

theorem publish_resolves_iff_confirmed_witness:
  "let env = sample_env\<lparr>ce_answer := (\<lambda>n. if n = 0 then Unrouted else Acked)\<rparr>;
       r = publish sample_policies env sample_exchange (Inr 0) 0 (JStr ''k'') (MBuffer [1]) sample_publish_options sample_publisher
   in snd (snd r) = Inr () \<and> length (pc_sent (fst (snd r))) = 2 \<and> ce_answer env 1 = Acked"
proof -
  define env where "env = sample_env\<lparr>ce_answer := (\<lambda>n. if n = 0 then Unrouted else Acked)\<rparr>"
  define r where "r = publish sample_policies env sample_exchange (Inr 0) 0 (JStr ''k'') (MBuffer [1]) sample_publish_options sample_publisher"
  have *: "snd (snd r) = Inr ()" "length (pc_sent (fst (snd r))) = 2"
    unfolding r_def env_def by code_simp+
  then have "publish sample_policies env sample_exchange (Inr 0) 0 (JStr ''k'') (MBuffer [1]) sample_publish_options sample_publisher =
      (fst r, fst (snd r), Inr ())"
    by (metis prod.collapse r_def)
  from publish_resolves_iff_confirmed [OF sample_policies_ok this]
  have "ce_answer env (length (pc_sent (fst (snd r))) - 1) = Acked"
    by (simp add: sample_publish_options_def)
  then have "ce_answer env 1 = Acked" using *(2) by simp
  with * show ?thesis unfolding Let_def env_def [symmetric] r_def [symmetric] by blast
qed

section \<open>From the publisher to the consumer\<close>

text \<open>A broker hands a consumer the content and the headers that were published.\<close>

definition carries :: "delivery \<Rightarrow> publication \<Rightarrow> bool" where
  "carries d pn \<longleftrightarrow> dl_content d = pn_content pn \<and> dl_headers d = field (pn_options pn) ''headers''"

lemma built_decodes:
  assumes "platform_ok pf" "\<forall>s. serializer c v = Inr (SerString s) \<longrightarrow> deserializer c s = Inr v"
    and "\<forall>b. serializer c v \<noteq> Inr (SerBuffer b)"
    and "encode pf c (MValue v) = Inr (pn_content pn, compressed)"
    and "pn_options pn = build_options options compressed extra" "carries d pn"
    and "list_all (\<lambda>(k, v). k \<noteq> ''x-compressed'') extra"
  shows "decode pf c (dl_content d) (truthy (dl_header d ''x-compressed'')) = Inr (received_value c v)"
  using decode_encode_value [OF assms(1-4)] built_compressed_flag [OF assms(7), of options compressed] assms(5,6)
  by (simp add: carries_def dl_header_def)

lemma after_preflight_run:
  assumes "after_preflight pre n run = (pb', pc, res)" "pc_sent pc \<noteq> []"
  shows "fst pre = pb' \<and> (\<exists>r. run pb' (pc_new n) = (pc, r) \<and> res = run_protected r)"
  using assms by (auto simp: after_preflight_def pc_new_def split: prod.splits sum.splits)

lemma preflight_keeps:
  "pb_platform (fst (preflight ex k opts key c chan t p)) = pb_platform p"
  "pb_codec (fst (preflight ex k opts key c chan t p)) = pb_codec p"
  by (simp_all add: preflight_def apply_rate_limit_def split_def split: option.split sum.split)

lemma publish_runs:
  assumes "publish pol env ex channel now routing_key message options pb = (pb', pc, res)" "pc_sent pc \<noteq> []"
  shows "pb_platform pb' = pb_platform pb \<and> pb_codec pb' = pb_codec pb \<and>
    (\<exists>r. publish_policy pol options (publish_operation env pb' (ex_name ex) routing_key message options []) (pc_new 1) = (pc, r))"
  using after_preflight_run [OF assms(1) [unfolded publish_def] assms(2)] preflight_keeps by blast

lemma publish_delayed_runs:
  assumes "publish_delayed pol env ex channel now routing_key message delay_ms options pb = (pb', pc, res)" "pc_sent pc \<noteq> []"
  shows "pb_platform pb' = pb_platform pb \<and> pb_codec pb' = pb_codec pb \<and>
    (\<exists>d r. publish_policy pol options (publish_operation env pb' (pb_delay_exchange pb') routing_key message options
       [(''x-delay'', JNum (Fin d))]) (pc_new 1) = (pc, r))"
proof -
  obtain d where "delay_ms = JNum (Fin d)" "0 \<le> d"
    using assms by (auto simp: publish_delayed_def pc_new_def split: jsval.splits jsnum.splits if_splits)
  with assms(1) have "after_preflight (preflight ex routing_key options (''delayed:'' @ key_text routing_key) (rate_cost options) channel now pb) 1
       (\<lambda>pb1. publish_policy pol options (publish_operation env pb1 (pb_delay_exchange pb1) routing_key message options [(''x-delay'', JNum (Fin d))])) =
     (pb', pc, res)"
    by (simp add: publish_delayed_def)
  from after_preflight_run [OF this assms(2)] preflight_keeps show ?thesis by blast
qed

text \<open>
  C10: End-to-end round trip of \<open>publishDelayed\<close> and \<open>publish\<close> with the consume pipeline. For a
  value whose serialized string, if it has one, the deserializer reads back (so not \<open>NaN\<close> under
  JSON) and a platform that inflates what it deflates: every delivery that carries one of the
  call's publications decodes, with the flag the pipeline reads from its headers, to the value
  that was published, if that is not a string; a string, which is sent as it is, decodes to what
  the deserializer reads in it (\<open>'42'\<close> to the number, under JSON), and to itself if the
  deserializer rejects it. This holds for any options, in particular with an \<open>x-compressed\<close>
  header of the application's own, which the publisher overrides.
\<close>

theorem published_value_is_received:
  assumes "policies_ok pol" and "platform_ok (pb_platform pb)"
    and "\<forall>s. serializer (pb_codec pb) v = Inr (SerString s) \<longrightarrow> deserializer (pb_codec pb) s = Inr v"
    and "\<forall>b. serializer (pb_codec pb) v \<noteq> Inr (SerBuffer b)"
    and "(pb', pc, res) \<in> {publish pol env ex channel now routing_key (MValue v) options pb,
           publish_delayed pol env ex channel now routing_key (MValue v) delay_ms options pb}"
    and "pn \<in> set (pc_sent pc)" "carries d pn"
  shows "decode (pb_platform pb) (pb_codec pb) (dl_content d) (truthy (dl_header d ''x-compressed'')) =
    Inr (case v of
        JStr s \<Rightarrow> (case deserializer (pb_codec pb) s of Inr w \<Rightarrow> w | Inl _ \<Rightarrow> JStr s)
      | _ \<Rightarrow> v)"
proof -
  have "\<exists>x extra r. list_all (\<lambda>(k, v). k \<noteq> ''x-compressed'') extra \<and> pb_platform pb' = pb_platform pb \<and> pb_codec pb' = pb_codec pb \<and>
      publish_policy pol options (publish_operation env pb' x routing_key (MValue v) options extra) (pc_new 1) = (pc, r)"
  proof -
    have sent: "pc_sent pc \<noteq> []" using assms(6) by auto
    have no_extra: "list_all (\<lambda>(k, v). k \<noteq> ''x-compressed'') ([] :: (string \<times> jsval) list)"
      "list_all (\<lambda>(k, v). k \<noteq> ''x-compressed'') [(''x-delay'', JNum (Fin d))]" for d
      by simp_all
    from assms(5) consider "publish pol env ex channel now routing_key (MValue v) options pb = (pb', pc, res)"
      | "publish_delayed pol env ex channel now routing_key (MValue v) delay_ms options pb = (pb', pc, res)" by auto
    then show ?thesis
    proof cases
      case 1
      from publish_runs [OF 1 sent] no_extra(1) show ?thesis by blast
    next
      case 2
      from publish_delayed_runs [OF 2 sent] no_extra(2) show ?thesis by blast
    qed
  qed
  then obtain x extra r where pb': "list_all (\<lambda>(k, v). k \<noteq> ''x-compressed'') extra" "pb_platform pb' = pb_platform pb"
      "pb_codec pb' = pb_codec pb" "publish_policy pol options (publish_operation env pb' x routing_key (MValue v) options extra) (pc_new 1) = (pc, r)"
    by blast
  then have "policy_run (nat (max 1 (case po_max_retries options of Some n \<Rightarrow> n | None \<Rightarrow> 3)))
      (publish_operation env pb' x routing_key (MValue v) options extra) (pc_new 1) pc r"
    using assms(1) unfolding policies_ok_def publish_policy_def by (metis fst_conv snd_conv)
  from policy_run_single [OF this single_new_inv] obtain compressed where
    "encode (pb_platform pb') (pb_codec pb') (MValue v) = Inr (pn_content pn, compressed)"
    "pn_options pn = build_options options compressed extra"
    using assms(6) by (auto simp: single_inv_def)
  then show ?thesis
    using built_decodes [OF assms(2-4) _ _ assms(7) pb'(1)] pb'(2,3) by (simp add: received_value_def)
qed

text \<open>A run without an error makes a delivery carry a value whose own header says it is compressed.\<close>

theorem published_value_is_received_witness:
  "let r = publish sample_policies sample_env sample_exchange (Inr 0) 0 (JStr ''k'') (MValue (JBool True))
             sample_publish_options sample_publisher;
       pn = hd (pc_sent (fst (snd r)));
       d = (plain_delivery 1)\<lparr>dl_content := pn_content pn, dl_headers := field (pn_options pn) ''headers''\<rparr>
   in pc_sent (fst (snd r)) \<noteq> [] \<and>
      decode sample_platform sample_codec (dl_content d) (truthy (dl_header d ''x-compressed'')) = Inr (JBool True)"
proof -
  define r where "r = publish sample_policies sample_env sample_exchange (Inr 0) 0 (JStr ''k'') (MValue (JBool True))
             sample_publish_options sample_publisher"
  define pn where "pn = hd (pc_sent (fst (snd r)))"
  define d where "d = (plain_delivery 1)\<lparr>dl_content := pn_content pn, dl_headers := field (pn_options pn) ''headers''\<rparr>"
  have sent: "pc_sent (fst (snd r)) \<noteq> []" unfolding r_def by code_simp
  then have pn: "pn \<in> set (pc_sent (fst (snd r)))" "carries d pn" by (simp_all add: pn_def d_def carries_def)
  have pb: "pb_platform sample_publisher = sample_platform" "pb_codec sample_publisher = sample_codec"
    by (simp_all add: sample_publisher_def)
  have ser: "\<forall>s. serializer sample_codec (JBool True) = Inr (SerString s) \<longrightarrow> deserializer sample_codec s = Inr (JBool True)"
    "\<forall>b. serializer sample_codec (JBool True) \<noteq> Inr (SerBuffer b)"
    unfolding sample_codec_serializer by (auto simp: sample_codec_def)
  have "(fst r, fst (snd r), snd (snd r)) \<in> {publish sample_policies sample_env sample_exchange (Inr 0) 0 (JStr ''k'') (MValue (JBool True))
      sample_publish_options sample_publisher, publish_delayed sample_policies sample_env sample_exchange (Inr 0) 0 (JStr ''k'')
      (MValue (JBool True)) JUndef sample_publish_options sample_publisher}"
    by (simp add: r_def)
  note published_value_is_received [OF sample_policies_ok _ _ _ this pn, unfolded pb, OF sample_platform_ok ser]
  with sent show ?thesis
    unfolding Let_def r_def [symmetric] pn_def [symmetric] d_def [symmetric] by simp
qed

section \<open>Checks come first\<close>

text \<open>
  The order of the checks. An invalid routing key or priority and an unavailable channel reject
  the call with the publisher unchanged: no token of the rate limiter is spent on a
  publication that cannot be made. The rate limiter is consulted last, with the whole cost at
  once, and only an admission lets the call go on; a call that a check rejects publishes
  nothing and does not run under the circuit breaker.
\<close>

theorem checks_before_tokens_before_publishing:
  fixes cost now :: rat and ex :: exchange and routing_key :: jsval and options :: publish_options
    and channel :: "jsval + nat" and rate_key :: string and pb :: publisher
  defines "pre \<equiv> preflight ex routing_key options rate_key cost channel now pb"
  defines "valid \<equiv> validate_routing_key routing_key ex = None \<and> validate_priority options pb = None \<and> isl channel = False"
  shows "(\<not> valid \<longrightarrow> (\<exists>e. pre = (pb, Inl (Thrown e)))) \<and>
    ((\<exists>delay. snd pre = Inr delay) \<longleftrightarrow> valid \<and>
       (case pb_limiter pb of None \<Rightarrow> True
        | Some l \<Rightarrow> \<exists>delay. snd (snd (check_rate_limit (js_coalesce (po_rate_key options) (JStr rate_key)) cost now l)) = Inr (Some delay))) \<and>
    (\<forall>e. snd pre = Inl e \<longrightarrow> after_preflight pre n run = (fst pre, pc_new n, Inl e))"
proof -
  have "\<not> valid \<longrightarrow> (\<exists>e. pre = (pb, Inl (Thrown e)))"
    by (auto simp: pre_def valid_def preflight_def isl_def split: option.split sum.split)
  moreover have "(\<exists>delay. snd pre = Inr delay) \<longleftrightarrow> valid \<and>
       (case pb_limiter pb of None \<Rightarrow> True
        | Some l \<Rightarrow> \<exists>delay. snd (snd (check_rate_limit (js_coalesce (po_rate_key options) (JStr rate_key)) cost now l)) = Inr (Some delay))"
    by (auto simp: pre_def valid_def preflight_def isl_def apply_rate_limit_def split_def split: option.split sum.split)
  moreover have "\<forall>e. snd pre = Inl e \<longrightarrow> after_preflight pre n run = (fst pre, pc_new n, Inl e)"
    by (auto simp: after_preflight_def split_def split: sum.splits)
  ultimately show ?thesis by blast
qed

theorem checks_before_tokens_before_publishing_witness:
  "let pre = preflight sample_exchange (JStr ''k'') sample_publish_options ''k'' 1 (Inl JNull) 0
       (sample_publisher\<lparr>pb_max_priority := Fin 3\<rparr>)
   in (\<exists>e. pre = (sample_publisher\<lparr>pb_max_priority := Fin 3\<rparr>, Inl (Thrown e)))"
  using checks_before_tokens_before_publishing [of "JStr ''k''" sample_exchange sample_publish_options
      "sample_publisher\<lparr>pb_max_priority := Fin 3\<rparr>" "Inl JNull" "''k''" 1 0]
  by (simp add: Let_def)

section \<open>Fire and forget\<close>

lemma send_all_prefix:
  assumes "send_all env x k options extra (enumerate i prepared) pc = (pc', res)"
  shows "\<exists>m \<le> length prepared. map (\<lambda>pn. (pn_index pn, pn_content pn)) (pc_sent pc') =
      map (\<lambda>pn. (pn_index pn, pn_content pn)) (pc_sent pc) @ map (\<lambda>j. (i + j, fst (prepared ! j))) [0 ..< m] \<and>
      (res = Inr () \<longrightarrow> m = length prepared)"
  using assms
proof (induction prepared arbitrary: i pc)
  case (Cons p ps)
  obtain content compressed where p: "p = (content, compressed)" by (cases p)
  let ?pn = "\<lparr>pn_index = i, pn_exchange = x, pn_key = k, pn_content = content, pn_options = build_options options compressed extra\<rparr>"
  let ?answer = "ce_drain env (length (pc_sent pc))"
  let ?pc1 = "pc\<lparr>pc_sent := pc_sent pc @ [?pn]\<rparr>"
  show ?case
  proof (cases "publish_fire_and_forget ?answer")
    case (Some e)
    with Cons.prems p have "res \<noteq> Inr ()" "pc' = pc \<or> pc' = ?pc1"
      by (auto simp: Let_def split: drain_answer.splits)
    then show ?thesis by (auto simp: p intro: exI [of _ 0] exI [of _ 1])
  next
    case None
    then have "send_all env x k options extra (enumerate (Suc i) ps) ?pc1 = (pc', res)"
      using Cons.prems p by (auto simp: Let_def publish_fire_and_forget_def split: drain_answer.splits)
    from Cons.IH [OF this] obtain m where m: "m \<le> length ps" "res = Inr () \<longrightarrow> m = length ps"
      "map (\<lambda>pn. (pn_index pn, pn_content pn)) (pc_sent pc') =
        map (\<lambda>pn. (pn_index pn, pn_content pn)) (pc_sent ?pc1) @ map (\<lambda>j. (Suc i + j, fst (ps ! j))) [0 ..< m]"
      by blast
    have "map (\<lambda>j. (i + j, fst ((p # ps) ! j))) [0 ..< Suc m] = (i, content) # map (\<lambda>j. (Suc i + j, fst (ps ! j))) [0 ..< m]"
      unfolding p by (rule nth_equalityI) (auto simp: nth_append nth_Cons' less_Suc_eq simp del: upt_Suc)
    with m show ?thesis by (intro exI [of _ "Suc m"]) simp
  qed
qed simp

lemma async_policy_run:
  assumes "policies_ok pol" "async_policy pol prefix op pc = (pc', r)"
  shows "pc' = pc \<and> r \<noteq> Resolved \<or> (\<exists>res. op pc = (pc', res) \<and> (r = Resolved \<longleftrightarrow> res = Inr ()))"
proof -
  obtain r0 where r0: "breaker_alone pol op pc = (pc', r0)" "r = Resolved \<longleftrightarrow> r0 = Resolved"
    using assms(2) by (auto simp: async_policy_def split: prod.splits policy_result.splits)
  then have "policy_run (Suc 0) op pc pc' r0"
    using assms(1) unfolding policies_ok_def by (metis One_nat_def fst_conv snd_conv)
  then show ?thesis
    using r0(2) by (auto elim!: policy_run.cases)
qed

text \<open>
  A fire-and-forget batch reaches the broker in order and without gaps: whatever the channel
  does, what has been published is a prefix of the messages, each with the encoding of its
  message; a batch that resolves has published all of them, once each; and a call that asks
  for \<open>mandatory\<close> is refused before anything is checked or published.
\<close>

theorem async_batch_publishes_a_prefix:
  assumes "policies_ok pol" and "publish_async_batch pol env ex channel now routing_key messages options pb = (pb', pc, res)"
  shows "\<exists>m \<le> length messages. map pn_index (pc_sent pc) = [0 ..< m] \<and>
    (\<forall>j < m. \<exists>compressed. encode (pb_platform pb') (pb_codec pb') (messages ! j) = Inr (pn_content (pc_sent pc ! j), compressed)) \<and>
    (res = Inr () \<longrightarrow> m = length messages) \<and> (po_mandatory options \<longrightarrow> m = 0 \<and> pb' = pb \<and> res \<noteq> Inr ())"
proof (cases "pc_sent pc = [] \<and> res \<noteq> Inr ()")
  case True
  then show ?thesis using assms(2) by (intro exI [of _ 0]) (auto simp: publish_async_batch_def split: if_splits)
next
  case False
  let ?op = "async_operation env pb' (ex_name ex) routing_key messages options [(''x-async-batch'', JBool True)]"
  from False assms(2) have opts: "\<not> po_mandatory options" "messages \<noteq> []"
    by (auto simp: publish_async_batch_def pc_new_def split: if_splits)
  with False assms(2) obtain r where r: "async_policy pol ''Failed to publish batch asynchronously: '' ?op (pc_new (length messages)) = (pc, r)"
      "res = run_protected r"
    by (auto simp: publish_async_batch_def after_preflight_def pc_new_def split: prod.splits sum.splits)
  have res: "res = Inr () \<longleftrightarrow> r = Resolved" using r(2) by (cases r) simp_all
  from async_policy_run [OF assms(1) r(1)] False res obtain res1 where
    op: "?op (pc_new (length messages)) = (pc, res1)" "res = Inr () \<longleftrightarrow> res1 = Inr ()"
    by (auto simp: pc_new_def)
  let ?pc1 = "(pc_new (length messages))\<lparr>pc_attempts := Suc 0\<rparr>"
  show ?thesis
  proof (cases "\<exists>prepared. encode_all pb' messages = Inr prepared \<and>
      send_all env (ex_name ex) routing_key options [(''x-async-batch'', JBool True)] (enumerate 0 prepared) ?pc1 = (pc, res1)")
    case True
    then obtain prepared where prepared: "encode_all pb' messages = Inr prepared"
      "send_all env (ex_name ex) routing_key options [(''x-async-batch'', JBool True)] (enumerate 0 prepared) ?pc1 = (pc, res1)" by blast
    from send_all_prefix [OF prepared(2)] obtain m where m: "m \<le> length prepared" "res1 = Inr () \<longrightarrow> m = length prepared"
      "map (\<lambda>pn. (pn_index pn, pn_content pn)) (pc_sent pc) = map (\<lambda>j. (j, fst (prepared ! j))) [0 ..< m]"
      by (auto simp: pc_new_def)
    from encode_all_nth [OF prepared(1)] have enc: "length prepared = length messages"
      "\<forall>i < length messages. encode (pb_platform pb') (pb_codec pb') (messages ! i) = Inr (prepared ! i)" by auto
    have len: "length (pc_sent pc) = m" using arg_cong [OF m(3), of length] by simp
    have "pn_index (pc_sent pc ! j) = j \<and> pn_content (pc_sent pc ! j) = fst (prepared ! j)" if "j < m" for j
      using arg_cong [OF m(3), of "\<lambda>xs. xs ! j"] that len by simp
    note nth = this
    have "map pn_index (pc_sent pc) = [0 ..< m]"
      using nth len by (intro nth_equalityI) simp_all
    moreover have "\<exists>compressed. encode (pb_platform pb') (pb_codec pb') (messages ! j) = Inr (pn_content (pc_sent pc ! j), compressed)"
      if "j < m" for j
      using nth [OF that] enc m(1) that by (intro exI [of _ "snd (prepared ! j)"]) simp
    ultimately have "map pn_index (pc_sent pc) = [0 ..< m]"
      "\<forall>j < m. \<exists>compressed. encode (pb_platform pb') (pb_codec pb') (messages ! j) = Inr (pn_content (pc_sent pc ! j), compressed)"
      by blast+
    with m enc op(2) opts show ?thesis by auto
  next
    case False
    with op(1) have "pc_sent pc = [] \<and> res1 \<noteq> Inr ()"
      by (auto simp: async_operation_def Let_def pc_new_def split: sum.splits)
    with op(2) \<open>\<not> (pc_sent pc = [] \<and> res \<noteq> Inr ())\<close> show ?thesis by blast
  qed
qed

theorem async_batch_publishes_a_prefix_witness:
  "\<exists>pb' pc res. publish_async_batch sample_policies sample_env sample_exchange (Inr 0) 0 (JStr ''k'')
       [MBuffer [1], MBuffer [2], MBuffer [3]] (sample_publish_options\<lparr>po_mandatory := False\<rparr>) sample_publisher = (pb', pc, res) \<and>
     res \<noteq> Inr () \<and> map pn_index (pc_sent pc) = [0 ..< 2]"
proof -
  define r where "r = publish_async_batch sample_policies sample_env sample_exchange (Inr 0) 0 (JStr ''k'')
       [MBuffer [1], MBuffer [2], MBuffer [3]] (sample_publish_options\<lparr>po_mandatory := False\<rparr>) sample_publisher"
  have *: "snd (snd r) \<noteq> Inr ()" "length (pc_sent (fst (snd r))) = 2" unfolding r_def by code_simp+
  have r: "publish_async_batch sample_policies sample_env sample_exchange (Inr 0) 0 (JStr ''k'')
       [MBuffer [1], MBuffer [2], MBuffer [3]] (sample_publish_options\<lparr>po_mandatory := False\<rparr>) sample_publisher =
     (fst r, fst (snd r), snd (snd r))" by (simp add: r_def)
  from async_batch_publishes_a_prefix [OF sample_policies_ok r] obtain m where m: "map pn_index (pc_sent (fst (snd r))) = [0 ..< m]" by blast
  from arg_cong [OF m, of length] *(2) have "m = 2" by simp
  with m have "map pn_index (pc_sent (fst (snd r))) = [0 ..< 2]" by (simp only:)
  with r *(1) show ?thesis by blast
qed

text \<open>
  The catch of \<open>publishAsync\<close> describes the error for the log before it rethrows it. A value
  that cannot be described (an object without a prototype) makes that fail, so the caller gets
  a TypeError in place of the value the serializer threw.
\<close>

theorem async_error_replaced:
  "async_rejected ''Failed to publish message asynchronously: '' (Thrown (JObj False [])) = Thrown type_error"
  by (simp add: async_rejected_def describe_line_def describe_error_def)

end
