(* ===== verification/Subscription_Options.thy ===== *)
theory Subscription_Options
  imports Consume_Pipeline Publisher
begin

text \<open>
  What \<open>#subscribeCore\<close> of \<open>src/consumers/consumer-manager.js\<close> makes of the arguments of
  \<open>subscribe\<close> and \<open>subscribeSequential\<close> before anything is registered: the checks, the retry
  policy, the acknowledgement mode, the prefetch, and the arguments the broker gets.
\<close>

section \<open>Arguments\<close>

definition validate_subscribe_args :: "jsval \<Rightarrow> bool \<Rightarrow> jsval option" where
  "validate_subscribe_args queue callable =
     (if (case queue of JStr s \<Rightarrow> list_all js_space s | _ \<Rightarrow> True)
      then Some (error_object ''Queue name must be a non-empty string'')
      else if \<not> callable then Some (error_object ''Callback must be a function'')
      else None)"

text \<open>The defaults of the two ways to subscribe; \<open>client\<close> is the prefetch of the client.\<close>

record subscribe_hooks =
  hk_prefetch :: jsval
  hk_policy :: jsval

definition plain_hooks :: "jsval \<Rightarrow> subscribe_hooks" where
  "plain_hooks client = \<lparr>hk_prefetch = client, hk_policy = JStr ''none''\<rparr>"

definition sequential_hooks :: subscribe_hooks where
  "sequential_hooks = \<lparr>hk_prefetch = JNum (Fin 1), hk_policy = JStr ''once''\<rparr>"

text \<open>What is left of the options without \<open>retryPolicy\<close>, with the decision on \<open>noAck\<close>.\<close>

definition consume_arguments :: "wire_options \<Rightarrow> bool \<Rightarrow> wire_options" where
  "consume_arguments options no_ack = map_set ''noAck'' (JBool no_ack) (spread [] (map_del ''retryPolicy'' options))"

record prepared_subscription =
  sc_subscription :: subscription
  sc_prefetch :: "jsval option"
  sc_arguments :: wire_options

text \<open>
  A subscription as its deliveries need it, the prefetch set on its channel if any, and the
  arguments of the consume call. The listeners are those of the client.
\<close>

definition subscribe_core :: "(jsval \<Rightarrow> string) \<Rightarrow> platform \<Rightarrow> codec \<Rightarrow> listener_result list \<Rightarrow> listener_result list \<Rightarrow>
    subscribe_hooks \<Rightarrow> jsval \<Rightarrow> bool \<Rightarrow> wire_options \<Rightarrow> jsval + prepared_subscription" where
  "subscribe_core json pf cd on_processed on_failed hooks queue callable options =
     (case validate_subscribe_args queue callable of
        Some e \<Rightarrow> Inl e
      | None \<Rightarrow>
          (case resolve_retry_policy json (field options ''retryPolicy'') (hk_policy hooks) of
             Inl e \<Rightarrow> Inl e
           | Inr policy \<Rightarrow>
               (let no_ack = (field options ''noAck'' = JBool True);
                    prefetch_count = js_coalesce (field options ''prefetchCount'') (hk_prefetch hooks)
                in Inr \<lparr>sc_subscription = \<lparr>sb_queue = key_text queue, sb_no_ack = no_ack, sb_policy = policy, sb_platform = pf,
                          sb_codec = cd, sb_on_processed = on_processed, sb_on_failed = on_failed\<rparr>,
                        sc_prefetch = (if no_ack then None else Some prefetch_count),
                        sc_arguments = consume_arguments options no_ack\<rparr>)))"


section \<open>The broker and the library agree\<close>

lemma consume_arguments_field:
  assumes "wf_map options"
  shows "field (consume_arguments options no_ack) k =
    (if k = ''noAck'' then JBool no_ack else if k = ''retryPolicy'' then JUndef else field options k)"
proof -
  have "field (spread [] (map_del ''retryPolicy'' options)) k = (if k = ''retryPolicy'' then JUndef else field options k)"
    unfolding field_spread_empty [OF wf_map_del [OF assms]] by (simp add: field_def map_get_del)
  then show ?thesis by (simp add: consume_arguments_def)
qed

text \<open>
  C22: The library settles a delivery exactly when the broker waits for it, whatever options the
  caller gave. A subscription that is accepted has a queue name that is not blank, sends the
  broker every option of the caller but \<open>retryPolicy\<close>, and \<open>noAck\<close> as a boolean; if the broker
  was told to expect acknowledgements, a delivery whose handler leaves the settlement to the
  library is settled by exactly one call and a prefetch was set; if not, by none.
\<close>

theorem settles_iff_broker_expects:
  assumes "subscribe_core json pf cd on_processed on_failed hooks queue callable options = Inr p" and "wf_map options"
    and "\<forall>error. snd (delivery_outcome (sc_subscription p) d handler) = Some error \<longrightarrow> describable error"
    and "fst (delivery_outcome (sc_subscription p) d handler) = []"
  shows "queue = JStr (sb_queue (sc_subscription p)) \<and> \<not> list_all js_space (sb_queue (sc_subscription p)) \<and>
    (\<forall>k. field (sc_arguments p) k = (if k = ''noAck'' then JBool (field options ''noAck'' = JBool True)
       else if k = ''retryPolicy'' then JUndef else field options k)) \<and>
    length (broker_calls (snd (consume_delivery (sc_subscription p) ch d handler None tm))) =
      (if field (sc_arguments p) ''noAck'' = JBool True then 0 else 1) \<and>
    (sc_prefetch p = None \<longleftrightarrow> field (sc_arguments p) ''noAck'' = JBool True)"
proof -
  have valid: "validate_subscribe_args queue callable = None"
    and p: "\<exists>policy. p = \<lparr>sc_subscription = \<lparr>sb_queue = key_text queue, sb_no_ack = (field options ''noAck'' = JBool True),
        sb_policy = policy, sb_platform = pf, sb_codec = cd, sb_on_processed = on_processed, sb_on_failed = on_failed\<rparr>,
      sc_prefetch = (if field options ''noAck'' = JBool True then None
        else Some (js_coalesce (field options ''prefetchCount'') (hk_prefetch hooks))),
      sc_arguments = consume_arguments options (field options ''noAck'' = JBool True)\<rparr>"
    using assms(1) by (auto simp: subscribe_core_def Let_def split: option.splits sum.splits)
  have "\<exists>s. queue = JStr s \<and> \<not> list_all js_space s"
    using valid by (auto simp: validate_subscribe_args_def split: if_splits jsval.splits)
  then have named: "queue = JStr (sb_queue (sc_subscription p)) \<and> \<not> list_all js_space (sb_queue (sc_subscription p))"
    using p by (auto simp: key_text_def)
  have no_ack: "sb_no_ack (sc_subscription p) = (field options ''noAck'' = JBool True)"
    "sc_arguments p = consume_arguments options (field options ''noAck'' = JBool True)"
    "sc_prefetch p = None \<longleftrightarrow> field options ''noAck'' = JBool True"
    using p by (auto split: if_splits)
  have "length (broker_calls (snd (consume_delivery (sc_subscription p) ch d handler None tm))) =
      (if sb_no_ack (sc_subscription p) then 0 else 1)"
    using consume_delivery_outcome [OF assms(3), of ch None tm] assms(4)
    by (auto simp: settle_ack_def attach_ack_controls_def split: option.splits)
  with named no_ack show ?thesis by (simp add: consume_arguments_field [OF assms(2)])
qed

theorem settles_iff_broker_expects_witness:
  "\<exists>p. subscribe_core (\<lambda>v. []) sample_platform sample_codec [] [Throws JNull] sequential_hooks (JStr ''orders'') True
         [(''noAck'', JStr ''true''), (''exclusive'', JBool True)] = Inr p \<and>
     field (sc_arguments p) ''noAck'' = JBool False \<and> field (sc_arguments p) ''exclusive'' = JBool True \<and>
     length (broker_calls (snd (consume_delivery (sc_subscription p) 3 (plain_delivery 7) (\<lambda>c d. \<lparr>hr_ops = [], hr_error = None\<rparr>) None sample_times))) = 1"
proof -
  define options where "options = [(''noAck'', JStr ''true''), (''exclusive'', JBool True)]"
  have core: "subscribe_core (\<lambda>v. []) sample_platform sample_codec [] [Throws JNull] sequential_hooks (JStr ''orders'') True options =
      Inr \<lparr>sc_subscription = sample_subscription, sc_prefetch = Some (JNum (Fin 1)), sc_arguments = consume_arguments options False\<rparr>"
    by (simp add: subscribe_core_def validate_subscribe_args_def js_space_def options_def field_def sequential_hooks_def
        resolve_retry_policy_def js_coalesce_def key_text_def sample_subscription_def Let_def)
  have out: "delivery_outcome sample_subscription (plain_delivery 7) (\<lambda>c d. \<lparr>hr_ops = [], hr_error = None\<rparr>) = ([], None)"
    using sample_decode by (simp add: delivery_outcome_def)
  have "wf_map options" by (simp add: options_def)
  note main = settles_iff_broker_expects [OF core this, of "plain_delivery 7" "\<lambda>c d. \<lparr>hr_ops = [], hr_error = None\<rparr>" 3 sample_times]
  have "field (consume_arguments options False) ''noAck'' = JBool False" "field (consume_arguments options False) ''exclusive'' = JBool True"
    unfolding consume_arguments_field [OF \<open>wf_map options\<close>] by (simp_all add: options_def field_def)
  with main core out show ?thesis unfolding options_def [symmetric] by simp
qed

end
