(* ===== verification/Connection.thy ===== *)
theory Connection
  imports Utils
begin

text \<open>
  \<open>src/connection/connection.js\<close>: one AMQP connection, dialled over a list of endpoints,
  with reconnection after a loss. \<open>amqp.connect\<close>, the closing of a connection and the timer
  answer as events; AMQP connections are numbered in the order in which they are opened.
  Listeners of the emitted events return (\<open>Utils\<close> shows what the contained emission does with
  the others); the log is not modelled.
\<close>

section \<open>State\<close>

datatype conn_state = Disconnected | Connecting | Connected | Reconnecting | Disconnecting | Failed

text \<open>
  \<open>#connectPromise\<close> is the dial in flight: waiting for the answer of the \<open>k\<close>-th endpoint
  tried, or for the closing of a connection that came too late. The callers that wait for it
  are numbered calls of \<open>connect\<close> and the reconnection timer.
\<close>

datatype dial = Dialing nat | ClosingLate

datatype caller = User nat | Retry

record connection =
  cn_username :: string
  cn_password :: string
  cn_protocol :: string
  cn_vhost :: string
  cn_endpoints :: "string list"
  cn_current :: nat
  cn_conn :: "nat option"
  cn_timer :: "rat option"
  cn_attempt :: nat
  cn_interval :: rat
  cn_max_interval :: rat
  cn_max_attempts :: jsnum
  cn_state :: conn_state
  cn_shutting :: bool
  cn_reconnecting :: bool
  cn_dial :: "dial option"
  cn_waiters :: "caller list"
  cn_live :: "nat list"
  cn_closing :: "nat list"
  cn_next :: nat

datatype cn_out =
    DialUrl string
  | CloseConnection nat
  | StateChanged conn_state
  | EmitConnected string
  | EmitDisconnected
  | EmitReconnectFailed
  | EmitReconnected
  | ArmTimer rat
  | ConnectResult nat "nat option"
  | DisconnectDone

record connection_options =
  co_username :: string
  co_password :: string
  co_protocol :: "string option"
  co_vhost :: string
  co_endpoints :: "string list"
  co_interval :: "rat option"
  co_max_interval :: "rat option"
  co_max_attempts :: jsval

text \<open>An empty string stands for an endpoint or a virtual host that is absent.\<close>

definition cn_new :: "connection_options \<Rightarrow> jsval + connection" where
  "cn_new opts =
     (case non_negative_number (co_max_attempts opts) ''maxReconnectAttempts'' PosInf of
        Inl e \<Rightarrow> Inl e
      | Inr max_attempts \<Rightarrow>
          (let protocol = str_or (co_protocol opts) ''amqp''
           in if protocol \<notin> {''amqp'', ''amqps''}
              then Inl (error_object ''Invalid protocol. Must be one of: amqp, amqps'')
              else if co_endpoints opts = [] \<or> (\<exists>e \<in> set (co_endpoints opts). e = [])
              then Inl (error_object ''At least one valid RabbitMQ endpoint must be provided'')
              else Inr \<lparr>cn_username = co_username opts, cn_password = co_password opts, cn_protocol = protocol,
                cn_vhost = co_vhost opts, cn_endpoints = co_endpoints opts, cn_current = 0, cn_conn = None,
                cn_timer = None, cn_attempt = 0, cn_interval = num_or (co_interval opts) 1000,
                cn_max_interval = num_or (co_max_interval opts) 15000, cn_max_attempts = max_attempts,
                cn_state = Disconnected, cn_shutting = False, cn_reconnecting = False, cn_dial = None,
                cn_waiters = [], cn_live = [], cn_closing = [], cn_next = 0\<rparr>))"

section \<open>The connection string\<close>

text \<open>\<open>encodeURIComponent\<close> on a string given by its UTF-8 bytes.\<close>

definition uri_unreserved :: "char \<Rightarrow> bool" where
  "uri_unreserved c \<longleftrightarrow> c \<in> set (CHR 0x27 # ''ABCDEFGHIJKLMNOPQRSTUVWXYZabcdefghijklmnopqrstuvwxyz0123456789-_.!~*()'')"

definition hex_char :: "nat \<Rightarrow> char" where
  "hex_char n = ''0123456789ABCDEF'' ! n"

definition encode_char :: "char \<Rightarrow> string" where
  "encode_char c = (if uri_unreserved c then [c] else [CHR ''%'', hex_char (of_char c div 16), hex_char (of_char c mod 16)])"

definition encode_uri_component :: "string \<Rightarrow> string" where
  "encode_uri_component s = concat (map encode_char s)"

definition build_connection_string :: "connection \<Rightarrow> string \<Rightarrow> string" where
  "build_connection_string p endpoint =
     (let credentials = encode_uri_component (cn_username p) @ '':'' @ encode_uri_component (cn_password p);
          vhost = (if cn_vhost p \<noteq> [] then ''/'' @ encode_uri_component (cn_vhost p) else [])
      in cn_protocol p @ ''://'' @ credentials @ ''@'' @ endpoint @ vhost)"

section \<open>Operations\<close>

definition set_connection_state :: "conn_state \<Rightarrow> connection \<Rightarrow> connection \<times> cn_out list" where
  "set_connection_state st p = (if cn_state p = st then (p, []) else (p\<lparr>cn_state := st\<rparr>, [StateChanged st]))"

definition backoff :: "connection \<Rightarrow> rat" where
  "backoff p = min (cn_interval p * 2 ^ min (cn_attempt p) 4) (cn_max_interval p)"

definition attempts_spent :: "connection \<Rightarrow> bool" where
  "attempts_spent p = (cn_max_attempts p \<noteq> PosInf \<and> num_le (cn_max_attempts p) (Fin (of_nat (cn_attempt p))))"

definition schedule_reconnect :: "connection \<Rightarrow> connection \<times> cn_out list" where
  "schedule_reconnect p =
     (if attempts_spent p
      then chain (set_connection_state Failed (p\<lparr>cn_timer := None, cn_reconnecting := False\<rparr>)) (\<lambda>q. (q, [EmitReconnectFailed]))
      else (p\<lparr>cn_timer := Some (backoff p)\<rparr>, [ArmTimer (backoff p)]))"

definition start_reconnection :: "connection \<Rightarrow> connection \<times> cn_out list" where
  "start_reconnection p =
     (if cn_shutting p then (p, [])
      else if \<not> cn_reconnecting p
      then chain (set_connection_state Reconnecting (p\<lparr>cn_reconnecting := True\<rparr>))
             (\<lambda>q. chain (q, [EmitDisconnected]) schedule_reconnect)
      else schedule_reconnect p)"

text \<open>\<open>#doConnect\<close> is over: its promise settles and everyone who waits for it goes on.\<close>

fun answer_caller :: "nat option \<Rightarrow> caller \<Rightarrow> cn_out list" where
  "answer_caller res (User n) = [ConnectResult n res]"
| "answer_caller res Retry = (if res \<noteq> None then [EmitReconnected] else [])"

definition settle_connect :: "nat option \<Rightarrow> connection \<Rightarrow> connection \<times> cn_out list" where
  "settle_connect res p = (p\<lparr>cn_dial := None, cn_waiters := []\<rparr>, concat (map (answer_caller res) (cn_waiters p)))"

text \<open>The loop over the endpoints: its test, an attempt, and what follows the last one.\<close>

definition dial_exhausted :: "connection \<Rightarrow> connection \<times> cn_out list" where
  "dial_exhausted p =
     (let p1 = p\<lparr>cn_conn := None\<rparr>
      in chain (if \<not> cn_shutting p1 then start_reconnection p1 else set_connection_state Disconnected p1) (settle_connect None))"

definition dial_endpoint :: "nat \<Rightarrow> connection \<Rightarrow> connection \<times> cn_out list" where
  "dial_endpoint k p =
     (if k < length (cn_endpoints p)
      then (p\<lparr>cn_dial := Some (Dialing k)\<rparr>, [DialUrl (build_connection_string p (cn_endpoints p ! cn_current p))])
      else dial_exhausted p)"

definition do_connect :: "connection \<Rightarrow> connection \<times> cn_out list" where
  "do_connect p =
     (if cn_state p = Connected \<and> cn_conn p \<noteq> None then settle_connect (cn_conn p) p
      else chain (set_connection_state Connecting (p\<lparr>cn_shutting := False\<rparr>)) (dial_endpoint 0))"

definition connect :: "caller \<Rightarrow> connection \<Rightarrow> connection \<times> cn_out list" where
  "connect c p =
     (let p1 = p\<lparr>cn_waiters := cn_waiters p @ [c]\<rparr>
      in if cn_dial p1 = None then do_connect p1 else (p1, []))"

definition dial_failed :: "nat \<Rightarrow> connection \<Rightarrow> connection \<times> cn_out list" where
  "dial_failed k p = dial_endpoint (Suc k) (p\<lparr>cn_current := (cn_current p + 1) mod length (cn_endpoints p)\<rparr>)"

definition dial_ok :: "connection \<Rightarrow> connection \<times> cn_out list" where
  "dial_ok p =
     (let c = cn_next p; p1 = p\<lparr>cn_next := Suc (cn_next p)\<rparr>
      in if cn_shutting p1 then (p1\<lparr>cn_dial := Some ClosingLate\<rparr>, [CloseConnection c])
         else chain (set_connection_state Connected (p1\<lparr>cn_conn := Some c, cn_live := c # cn_live p1,
                       cn_timer := None, cn_reconnecting := False, cn_attempt := 0\<rparr>))
                (\<lambda>q. chain (q, [EmitConnected (cn_endpoints q ! cn_current q)]) (settle_connect (Some c))))"

definition late_closed :: "connection \<Rightarrow> connection \<times> cn_out list" where
  "late_closed p = chain (set_connection_state Disconnected p) (settle_connect None)"

definition attempt_reconnect :: "connection \<Rightarrow> connection \<times> cn_out list" where
  "attempt_reconnect p =
     (if cn_state p = Connected then (p, []) else connect Retry (p\<lparr>cn_attempt := Suc (cn_attempt p)\<rparr>))"

definition connection_lost :: "nat \<Rightarrow> connection \<Rightarrow> connection \<times> cn_out list" where
  "connection_lost c p =
     (let p1 = p\<lparr>cn_live := removeAll c (cn_live p)\<rparr>
      in if \<not> cn_shutting p1 then start_reconnection (p1\<lparr>cn_conn := None\<rparr>) else (p1, []))"

definition disconnected_now :: "connection \<Rightarrow> connection \<times> cn_out list" where
  "disconnected_now p = chain (set_connection_state Disconnected p) (\<lambda>q. (q, [DisconnectDone]))"

definition disconnect :: "connection \<Rightarrow> connection \<times> cn_out list" where
  "disconnect p =
     (let p1 = p\<lparr>cn_shutting := True, cn_reconnecting := False, cn_timer := None\<rparr>
      in if cn_state p1 = Disconnected then (p1, [DisconnectDone])
         else chain (set_connection_state Disconnecting p1)
           (\<lambda>q. case cn_conn q of
              Some c \<Rightarrow> (q\<lparr>cn_live := removeAll c (cn_live q), cn_closing := cn_closing q @ [c]\<rparr>, [CloseConnection c])
            | None \<Rightarrow> disconnected_now q))"

text \<open>The \<open>finally\<close> of \<open>disconnect\<close> and what follows it.\<close>

definition close_done :: "nat \<Rightarrow> connection \<Rightarrow> connection \<times> cn_out list" where
  "close_done c p = disconnected_now (p\<lparr>cn_closing := remove1 c (cn_closing p), cn_conn := None\<rparr>)"

section \<open>Events\<close>

datatype cn_event =
    Connect nat
  | DialOk
  | DialFailed
  | LateClosed
  | TimerFires
  | ConnectionLost nat
  | Disconnect
  | CloseDone nat

fun cn_step :: "connection \<Rightarrow> cn_event \<Rightarrow> connection \<times> cn_out list" where
  "cn_step p (Connect n) = connect (User n) p"
| "cn_step p DialOk = (case cn_dial p of Some (Dialing k) \<Rightarrow> dial_ok p | _ \<Rightarrow> (p, []))"
| "cn_step p DialFailed = (case cn_dial p of Some (Dialing k) \<Rightarrow> dial_failed k p | _ \<Rightarrow> (p, []))"
| "cn_step p LateClosed = (if cn_dial p = Some ClosingLate then late_closed p else (p, []))"
| "cn_step p TimerFires = (if cn_timer p = None then (p, []) else attempt_reconnect (p\<lparr>cn_timer := None\<rparr>))"
| "cn_step p (ConnectionLost c) = (if c \<in> set (cn_live p) then connection_lost c p else (p, []))"
| "cn_step p Disconnect = disconnect p"
| "cn_step p (CloseDone c) = (if c \<in> set (cn_closing p) then close_done c p else (p, []))"

section \<open>The state machine\<close>

lemma fst_set_connection_state [simp]: "fst (set_connection_state st p) = p\<lparr>cn_state := st\<rparr>"
  by (simp add: set_connection_state_def)

lemma fst_settle_connect [simp]: "fst (settle_connect res p) = p\<lparr>cn_dial := None, cn_waiters := []\<rparr>"
  by (simp add: settle_connect_def)

lemma fst_schedule_reconnect:
  "fst (schedule_reconnect p) =
     (if attempts_spent p then p\<lparr>cn_timer := None, cn_reconnecting := False, cn_state := Failed\<rparr>
      else p\<lparr>cn_timer := Some (backoff p)\<rparr>)"
  by (simp add: schedule_reconnect_def)

lemma attempts_spent_cong [simp]:
  "attempts_spent (p\<lparr>cn_reconnecting := b, cn_state := st\<rparr>) = attempts_spent p"
  "backoff (p\<lparr>cn_reconnecting := b, cn_state := st\<rparr>) = backoff p"
  "attempts_spent (p\<lparr>cn_conn := c\<rparr>) = attempts_spent p" "backoff (p\<lparr>cn_conn := c\<rparr>) = backoff p"
  "attempts_spent (p\<lparr>cn_live := l, cn_conn := c\<rparr>) = attempts_spent p"
  "backoff (p\<lparr>cn_live := l, cn_conn := c\<rparr>) = backoff p"
  "attempts_spent (p\<lparr>cn_conn := c, cn_reconnecting := b\<rparr>) = attempts_spent p"
  "backoff (p\<lparr>cn_conn := c, cn_reconnecting := b\<rparr>) = backoff p"
  "attempts_spent (p\<lparr>cn_live := l\<rparr>) = attempts_spent p" "backoff (p\<lparr>cn_live := l\<rparr>) = backoff p"
  by (simp_all add: attempts_spent_def backoff_def)

lemma fst_start_reconnection:
  "fst (start_reconnection p) =
     (if cn_shutting p then p
      else if attempts_spent p then p\<lparr>cn_timer := None, cn_reconnecting := False, cn_state := Failed\<rparr>
      else p\<lparr>cn_timer := Some (backoff p), cn_reconnecting := True, cn_state := (if cn_reconnecting p then cn_state p else Reconnecting)\<rparr>)"
  by (simp add: start_reconnection_def fst_schedule_reconnect)

lemmas cn_result_simps = fst_schedule_reconnect fst_start_reconnection

text \<open>
  What holds between any two events: whoever waits for a dial waits for one that is in flight; in
  the states of connecting and reconnecting no shutdown has been asked for, and a dial is in
  flight or the timer is armed; a connected client holds a connection whose loss it listens for.
\<close>

definition waiters_ok :: "connection \<Rightarrow> bool" where
  "waiters_ok p \<longleftrightarrow> (cn_dial p = None \<longrightarrow> cn_waiters p = [])"

definition trying_ok :: "connection \<Rightarrow> bool" where
  "trying_ok p \<longleftrightarrow> (cn_state p \<in> {Connecting, Reconnecting} \<longrightarrow>
     \<not> cn_shutting p \<and> (cn_dial p \<noteq> None \<or> cn_timer p \<noteq> None))"

definition connected_ok :: "connection \<Rightarrow> bool" where
  "connected_ok p \<longleftrightarrow> (cn_state p = Connected \<longrightarrow> cn_dial p = None \<and> cn_timer p = None \<and> \<not> cn_reconnecting p \<and>
     \<not> cn_shutting p \<and> (\<exists>c \<in> set (cn_live p). cn_conn p = Some c))"

definition endpoints_ok :: "connection \<Rightarrow> bool" where
  "endpoints_ok p \<longleftrightarrow> cn_current p < length (cn_endpoints p)"

definition cn_inv :: "connection \<Rightarrow> bool" where
  "cn_inv p \<longleftrightarrow> waiters_ok p \<and> trying_ok p \<and> connected_ok p \<and> endpoints_ok p"

lemmas cn_inv_defs = cn_inv_def waiters_ok_def trying_ok_def connected_ok_def endpoints_ok_def

lemma cn_new_inv: "cn_new opts = Inr p \<Longrightarrow> cn_inv p"
  by (auto simp: cn_new_def Let_def cn_inv_defs split: sum.splits if_splits)

lemma dial_exhausted_inv: "endpoints_ok p \<Longrightarrow> cn_state p \<noteq> Connected \<Longrightarrow> cn_inv (fst (dial_exhausted p))"
  by (auto simp: dial_exhausted_def Let_def cn_result_simps cn_inv_defs)

lemma dial_endpoint_inv:
  assumes "endpoints_ok p" "cn_state p \<noteq> Connected" "trying_ok (p\<lparr>cn_dial := Some (Dialing k)\<rparr>)"
  shows "cn_inv (fst (dial_endpoint k p))"
proof (cases "k < length (cn_endpoints p)")
  case True
  with assms show ?thesis by (simp add: dial_endpoint_def cn_inv_defs)
next
  case False
  with assms dial_exhausted_inv [of p] show ?thesis by (simp add: dial_endpoint_def)
qed

lemma connect_inv:
  assumes "cn_inv (p\<lparr>cn_timer := t\<rparr>)" "cn_state p = Connected \<longrightarrow> cn_inv p" shows "cn_inv (fst (connect c p))"
proof (cases "cn_dial p")
  case None
  show ?thesis
  proof (cases "cn_state p = Connected \<and> cn_conn p \<noteq> None")
    case True
    with assms None show ?thesis by (simp add: connect_def do_connect_def Let_def cn_inv_defs)
  next
    case False
    let ?q = "p\<lparr>cn_waiters := cn_waiters p @ [c], cn_shutting := False, cn_state := Connecting\<rparr>"
    have "cn_inv (fst (dial_endpoint 0 ?q))"
      using assms by (intro dial_endpoint_inv) (simp_all add: cn_inv_defs)
    with False None show ?thesis by (auto simp add: connect_def do_connect_def Let_def)
  qed
next
  case (Some d)
  with assms show ?thesis by (auto simp: connect_def Let_def cn_inv_defs)
qed

lemma dial_failed_inv:
  assumes "cn_inv p" "cn_dial p = Some d" shows "cn_inv (fst (dial_failed k p))"
proof -
  have "(cn_current p + 1) mod length (cn_endpoints p) < length (cn_endpoints p)"
    using assms by (intro mod_less_divisor) (auto simp: cn_inv_defs)
  then show ?thesis
    using assms unfolding dial_failed_def
    by (intro dial_endpoint_inv) (auto simp: cn_inv_defs)
qed

lemma dial_ok_inv: "cn_inv p \<Longrightarrow> cn_dial p = Some d \<Longrightarrow> cn_inv (fst (dial_ok p))"
  by (auto simp: dial_ok_def Let_def cn_inv_defs)

lemma late_closed_inv: "cn_inv p \<Longrightarrow> cn_inv (fst (late_closed p))"
  by (auto simp: late_closed_def cn_inv_defs)

lemma attempt_reconnect_inv: "cn_inv p \<Longrightarrow> cn_inv (fst (attempt_reconnect (p\<lparr>cn_timer := None\<rparr>)))"
  using connect_inv [of "cn_timer p" "p\<lparr>cn_timer := None, cn_attempt := Suc (cn_attempt p)\<rparr>" Retry]
  by (auto simp: attempt_reconnect_def cn_inv_defs)

lemma connection_lost_inv: "cn_inv p \<Longrightarrow> cn_inv (fst (connection_lost c p))"
  by (auto simp: connection_lost_def Let_def cn_result_simps cn_inv_defs)

lemma disconnected_now_inv: "waiters_ok p \<Longrightarrow> endpoints_ok p \<Longrightarrow> cn_inv (fst (disconnected_now p))"
  by (simp add: disconnected_now_def cn_inv_defs)

lemma disconnect_inv: "cn_inv p \<Longrightarrow> cn_inv (fst (disconnect p))"
  by (auto simp: disconnect_def Let_def cn_inv_defs disconnected_now_def split: option.splits)

lemma close_done_inv: "cn_inv p \<Longrightarrow> cn_inv (fst (close_done c p))"
  unfolding close_done_def by (rule disconnected_now_inv) (simp_all add: cn_inv_defs)

lemma cn_step_inv: "cn_inv p \<Longrightarrow> cn_inv (fst (cn_step p e))"
proof (cases e)
  case (Connect n)
  assume "cn_inv p"
  then have "cn_inv (p\<lparr>cn_timer := cn_timer p\<rparr>)" by simp
  from connect_inv [OF this] \<open>cn_inv p\<close> Connect show ?thesis by simp
qed (auto simp: dial_ok_inv dial_failed_inv late_closed_inv attempt_reconnect_inv connection_lost_inv
      disconnect_inv close_done_inv split: option.splits dial.splits)

interpretation cnm: event_machine cn_step "\<lambda>e. True" cn_inv
  by unfold_locales (rule cn_step_inv)

lemma start_reconnection_outcome:
  "\<not> cn_shutting p \<Longrightarrow> \<not> cn_reconnecting p \<Longrightarrow>
     cn_state (fst (start_reconnection p)) = Reconnecting \<and> cn_timer (fst (start_reconnection p)) = Some (backoff p) \<or>
     cn_state (fst (start_reconnection p)) = Failed \<and> attempts_spent p"
  by (simp add: fst_start_reconnection)

text \<open>
  C4: Reconnection never stalls. Whatever calls, answers, losses and timer callbacks happen, in the
  states \<open>connecting\<close> and \<open>reconnecting\<close> a dial is in flight or the timer is armed; whoever
  waits for \<open>connect\<close> waits for a dial in flight; and in the state \<open>connected\<close> the client holds
  a connection whose loss it hears of, and losing it arms the timer, unless the configured
  attempts are spent, which ends in the state \<open>failed\<close>.
\<close>

theorem reconnection_never_stalls:
  fixes es :: "cn_event list"
  assumes "cn_new opts = Inr p0"
  defines "p \<equiv> fst (run_machine cn_step p0 es)"
  shows "(cn_state p \<in> {Connecting, Reconnecting} \<longrightarrow> cn_dial p \<noteq> None \<or> cn_timer p \<noteq> None) \<and>
    (cn_waiters p \<noteq> [] \<longrightarrow> cn_dial p \<noteq> None) \<and>
    (cn_state p = Connected \<longrightarrow> (\<exists>c q. cn_conn p = Some c \<and> q = fst (cn_step p (ConnectionLost c)) \<and> cn_conn q = None \<and>
       (cn_state q = Reconnecting \<and> cn_timer q = Some (backoff p) \<or> cn_state q = Failed \<and> attempts_spent p)))"
proof -
  have inv: "cn_inv p"
    unfolding p_def by (rule cnm.run_inv) (simp_all add: cn_new_inv [OF assms(1)] list_all_iff)
  have "\<exists>c q. cn_conn p = Some c \<and> q = fst (cn_step p (ConnectionLost c)) \<and> cn_conn q = None \<and>
       (cn_state q = Reconnecting \<and> cn_timer q = Some (backoff p) \<or> cn_state q = Failed \<and> attempts_spent p)"
    if "cn_state p = Connected"
  proof -
    from inv that obtain c where c: "cn_conn p = Some c" "c \<in> set (cn_live p)" "\<not> cn_shutting p" "\<not> cn_reconnecting p"
      by (auto simp: cn_inv_defs)
    then show ?thesis by (simp add: connection_lost_def Let_def fst_start_reconnection)
  qed
  moreover have "cn_state p \<in> {Connecting, Reconnecting} \<longrightarrow> cn_dial p \<noteq> None \<or> cn_timer p \<noteq> None"
    "cn_waiters p \<noteq> [] \<longrightarrow> cn_dial p \<noteq> None"
    using inv by (auto simp: cn_inv_defs)
  ultimately show ?thesis by blast
qed

definition cn_sample_options :: connection_options where
  "cn_sample_options = \<lparr>co_username = ''u'', co_password = ''p'', co_protocol = None, co_vhost = [],
     co_endpoints = [''a'', ''b''], co_interval = Some 1, co_max_interval = Some 3, co_max_attempts = JNum (Fin 2)\<rparr>"

definition cn_sample :: connection where
  "cn_sample = projr (cn_new cn_sample_options)"

lemma cn_sample: "cn_new cn_sample_options = Inr cn_sample"
  by (simp add: cn_sample_def cn_new_def cn_sample_options_def str_or_def Let_def non_negative_number_def)

theorem reconnection_never_stalls_witness:
  "\<exists>c q. cn_conn (fst (run_machine cn_step cn_sample [Connect 0, DialFailed, DialOk])) = Some c \<and>
     q = fst (cn_step (fst (run_machine cn_step cn_sample [Connect 0, DialFailed, DialOk])) (ConnectionLost c)) \<and>
     cn_conn q = None \<and> cn_state q = Reconnecting"
proof -
  let ?p = "fst (run_machine cn_step cn_sample [Connect 0, DialFailed, DialOk])"
  have "cn_state ?p = Connected" "\<not> attempts_spent ?p" by code_simp+
  then show ?thesis using reconnection_never_stalls [OF cn_sample, of "[Connect 0, DialFailed, DialOk]"] by blast
qed

section \<open>Every call of connect is answered once\<close>

fun cn_settles :: "cn_out \<Rightarrow> nat multiset" where
  "cn_settles (ConnectResult n r) = {#n#}"
| "cn_settles _ = {#}"

fun caller_calls :: "caller \<Rightarrow> nat multiset" where
  "caller_calls (User n) = {#n#}"
| "caller_calls Retry = {#}"

fun cn_entered :: "connection \<Rightarrow> cn_event \<Rightarrow> nat multiset" where
  "cn_entered p (Connect n) = {#n#}"
| "cn_entered p _ = {#}"

definition cn_waiting :: "connection \<Rightarrow> nat multiset" where
  "cn_waiting p = sum_list (map caller_calls (cn_waiters p))"

abbreviation answered :: "cn_out list \<Rightarrow> nat multiset" where
  "answered out \<equiv> total_settled cn_settles out"

lemma answer_callers: "answered (concat (map (answer_caller r) cs)) = sum_list (map caller_calls cs)"
proof (induction cs)
  case (Cons c cs)
  then show ?case by (cases c) simp_all
qed simp

lemma answered_quiet [simp]:
  "answered (snd (set_connection_state st p)) = {#}" "answered (snd (schedule_reconnect p)) = {#}"
  "answered (snd (start_reconnection p)) = {#}" "answered (snd (disconnected_now p)) = {#}"
  by (simp_all add: set_connection_state_def schedule_reconnect_def start_reconnection_def disconnected_now_def)

lemma settle_answers: "answered (snd (settle_connect r p)) = cn_waiting p"
  by (simp add: settle_connect_def answer_callers cn_waiting_def)

lemma cn_waiting_update [simp]:
  "cn_waiting (p\<lparr>cn_state := st\<rparr>) = cn_waiting p"
  "cn_waiting (fst (start_reconnection p)) = cn_waiting p"
  by (simp_all add: cn_waiting_def fst_start_reconnection)

lemma dial_exhausted_answers:
  "answered (snd (dial_exhausted p)) = cn_waiting p" "cn_waiters (fst (dial_exhausted p)) = []"
  by (simp_all add: dial_exhausted_def Let_def settle_answers) (simp_all add: cn_waiting_def)

lemma dial_endpoint_answers:
  "cn_waiting p = cn_waiting (fst (dial_endpoint k p)) + answered (snd (dial_endpoint k p))"
  by (simp add: dial_endpoint_def dial_exhausted_answers) (simp add: cn_waiting_def dial_exhausted_answers)

lemma connect_answers:
  "cn_waiting p + caller_calls c = cn_waiting (fst (connect c p)) + answered (snd (connect c p))"
proof -
  let ?p1 = "p\<lparr>cn_waiters := cn_waiters p @ [c]\<rparr>"
  have "cn_waiting ?p1 = cn_waiting (fst (do_connect ?p1)) + answered (snd (do_connect ?p1))"
    using dial_endpoint_answers [of "?p1\<lparr>cn_shutting := False, cn_state := Connecting\<rparr>" 0]
    by (simp add: do_connect_def settle_answers) (simp add: cn_waiting_def)
  moreover have "cn_waiting ?p1 = cn_waiting p + caller_calls c" by (simp add: cn_waiting_def)
  ultimately show ?thesis by (simp add: connect_def Let_def)
qed

lemma connect_calls: "fst (connect c p) = (if cn_dial p = None then fst (do_connect (p\<lparr>cn_waiters := cn_waiters p @ [c]\<rparr>)) else p\<lparr>cn_waiters := cn_waiters p @ [c]\<rparr>)"
  by (simp add: connect_def Let_def)

lemma cn_step_answers:
  "cn_waiting p + cn_entered p e = cn_waiting (fst (cn_step p e)) + answered (snd (cn_step p e))"
proof (cases e)
  case (Connect n)
  then show ?thesis using connect_answers [of p "User n"] by simp
next
  case TimerFires
  then show ?thesis
    using connect_answers [of "p\<lparr>cn_timer := None, cn_attempt := Suc (cn_attempt p)\<rparr>" Retry]
    by (simp add: attempt_reconnect_def) (simp add: cn_waiting_def)
next
  case DialOk
  then show ?thesis
    by (simp add: dial_ok_def Let_def settle_answers split: option.splits dial.splits) (simp add: cn_waiting_def)
next
  case DialFailed
  show ?thesis
    using DialFailed dial_endpoint_answers [of "p\<lparr>cn_current := (cn_current p + 1) mod length (cn_endpoints p)\<rparr>"]
    by (simp add: dial_failed_def split: option.splits dial.splits) (simp add: cn_waiting_def)
next
  case LateClosed
  then show ?thesis by (simp add: late_closed_def settle_answers) (simp add: cn_waiting_def)
next
  case (ConnectionLost c)
  then show ?thesis by (simp add: connection_lost_def Let_def) (simp add: cn_waiting_def)
next
  case Disconnect
  then show ?thesis
    by (simp add: disconnect_def Let_def split: option.splits) (simp add: cn_waiting_def disconnected_now_def)
next
  case (CloseDone c)
  then show ?thesis by (simp add: close_done_def) (simp add: cn_waiting_def disconnected_now_def)
qed

interpretation cnl: ledger_machine cn_step "\<lambda>e. True" cn_inv cn_waiting cn_entered cn_settles
  by unfold_locales (rule cn_step_answers)

text \<open>
  Calls of \<open>connect\<close> are funnelled into one dial and none is forgotten: in every run the
  calls made are exactly those answered plus those waiting for the dial in flight, and when
  no dial is in flight every call has been answered exactly once.
\<close>

theorem connect_answers_every_call:
  fixes es :: "cn_event list"
  assumes "cn_new opts = Inr p0"
  defines "r \<equiv> run_machine cn_step p0 es"
  shows "total_entered cn_step cn_entered p0 es = cn_waiting (fst r) + total_settled cn_settles (snd r) \<and>
    (cn_dial (fst r) = None \<longrightarrow> total_entered cn_step cn_entered p0 es = total_settled cn_settles (snd r))"
proof -
  have p0: "cn_inv p0" by (rule cn_new_inv [OF assms(1)])
  have "cn_inv (fst r)" unfolding r_def by (rule cnm.run_inv) (simp_all add: p0 list_all_iff)
  then have "cn_dial (fst r) = None \<longrightarrow> cn_waiting (fst r) = {#}" by (simp add: cn_inv_defs cn_waiting_def)
  moreover have "cn_waiting p0 = {#}"
    using assms(1) by (auto simp: cn_new_def Let_def cn_waiting_def split: sum.splits if_splits)
  ultimately show ?thesis
    using cnl.run_conserves [OF p0, of es] by (simp add: list_all_iff r_def)
qed

theorem connect_answers_every_call_witness:
  "let r = run_machine cn_step cn_sample [Connect 0, Connect 1, DialFailed, DialOk, Connect 2]
   in total_settled cn_settles (snd r) = {#0, 1, 2#} \<and> cn_dial (fst r) = None"
proof -
  define es where "es = [Connect 0, Connect 1, DialFailed, DialOk, Connect 2]"
  have "cn_dial (fst (run_machine cn_step cn_sample es)) = None" unfolding es_def by code_simp
  moreover have "total_entered cn_step cn_entered cn_sample es = {#0, 1, 2#}"
    unfolding es_def by (simp only: total_entered.simps cn_entered.simps) simp
  ultimately show ?thesis
    using connect_answers_every_call [OF cn_sample, of es] unfolding Let_def es_def [symmetric] by metis
qed

section \<open>Shutdown\<close>

definition shut_down :: "nat option \<Rightarrow> connection \<Rightarrow> bool" where
  "shut_down c p \<longleftrightarrow> cn_shutting p \<and> cn_timer p = None \<and> cn_state p \<in> {Disconnecting, Disconnected} \<and> cn_conn p \<in> {None, c}"

fun not_connecting :: "cn_event \<Rightarrow> bool" where
  "not_connecting (Connect n) = False"
| "not_connecting _ = True"

text \<open>Nothing that announces, hands out or prepares a connection.\<close>

fun winding_down :: "cn_out \<Rightarrow> bool" where
  "winding_down (StateChanged st) = (st \<in> {Disconnecting, Disconnected})"
| "winding_down (EmitConnected e) = False"
| "winding_down EmitDisconnected = False"
| "winding_down EmitReconnectFailed = False"
| "winding_down EmitReconnected = False"
| "winding_down (ArmTimer d) = False"
| "winding_down (ConnectResult n res) = (res = None)"
| "winding_down _ = True"

lemma winding_down_settle: "list_all winding_down (snd (settle_connect None p))"
proof -
  have "list_all winding_down (answer_caller None c)" for c by (cases c) simp_all
  then show ?thesis by (auto simp: settle_connect_def list_all_iff)
qed

lemma winding_down_set: "st \<in> {Disconnecting, Disconnected} \<Longrightarrow> list_all winding_down (snd (set_connection_state st p))"
  by (auto simp: set_connection_state_def)

lemma shut_down_endpoint:
  assumes "shut_down c p"
  shows "shut_down c (fst (dial_endpoint k p)) \<and> list_all winding_down (snd (dial_endpoint k p))"
  using assms by (auto simp: dial_endpoint_def dial_exhausted_def Let_def shut_down_def winding_down_settle winding_down_set)

lemma shut_down_step:
  assumes p: "shut_down c p" and e: "not_connecting e"
  shows "shut_down c (fst (cn_step p e)) \<and> list_all winding_down (snd (cn_step p e))"
proof (cases e)
  case DialFailed
  have "shut_down c (p\<lparr>cn_current := (cn_current p + 1) mod length (cn_endpoints p)\<rparr>)"
    using p by (simp add: shut_down_def)
  from shut_down_endpoint [OF this] DialFailed p show ?thesis
    by (simp add: dial_failed_def split: option.splits dial.splits)
next
  case DialOk
  with p show ?thesis by (auto simp: dial_ok_def Let_def shut_down_def split: option.splits dial.splits)
next
  case Disconnect
  with p show ?thesis
    by (auto simp: disconnect_def Let_def shut_down_def disconnected_now_def winding_down_set split: option.splits)
qed (use p e in \<open>auto simp: late_closed_def connection_lost_def close_done_def disconnected_now_def shut_down_def
  Let_def winding_down_settle winding_down_set\<close>)

text \<open>
  C33: A shutdown stays a shutdown. After \<open>disconnect\<close>, in whatever state it is called, and as
  long as nobody calls \<open>connect\<close> again: no answer of a dial in flight, no loss and no timer
  callback announces or installs a connection, arms the timer or answers a caller with a
  connection; a dial that succeeds late has its connection closed.
\<close>

theorem disconnect_is_a_fence:
  fixes p :: connection
  assumes "list_all not_connecting es"
  defines "r \<equiv> run_machine cn_step p (Disconnect # es)"
  shows "cn_state (fst r) \<in> {Disconnecting, Disconnected} \<and> cn_timer (fst r) = None \<and>
    cn_conn (fst r) \<in> {None, cn_conn p} \<and> list_all winding_down (snd r) \<and>
    (case cn_dial (fst r) of Some (Dialing k) \<Rightarrow> snd (cn_step (fst r) DialOk) = [CloseConnection (cn_next (fst r))] | _ \<Rightarrow> True)"
proof -
  have first: "shut_down (cn_conn p) (fst (cn_step p Disconnect)) \<and> list_all winding_down (snd (cn_step p Disconnect))"
    by (auto simp: disconnect_def Let_def shut_down_def disconnected_now_def winding_down_set split: option.splits)
  have "shut_down (cn_conn p) (fst (run_machine cn_step q es)) \<and> list_all winding_down (snd (run_machine cn_step q es))"
    if "shut_down (cn_conn p) q" for q
    using assms(1) that by (induction es arbitrary: q) (simp_all add: shut_down_step)
  from this [of "fst (cn_step p Disconnect)"] first
  have "shut_down (cn_conn p) (fst r)" "list_all winding_down (snd r)" by (simp_all add: r_def)
  then show ?thesis by (simp add: shut_down_def dial_ok_def Let_def split: option.splits dial.splits)
qed

theorem disconnect_is_a_fence_witness:
  "let r = run_machine cn_step (fst (cn_step cn_sample (Connect 0))) [Disconnect, DialOk, LateClosed]
   in cn_state (fst r) = Disconnected \<and> list_all winding_down (snd r) \<and> CloseConnection 0 \<in> set (snd r)"
proof -
  define p where "p = fst (cn_step cn_sample (Connect 0))"
  define r where "r = run_machine cn_step p [Disconnect, DialOk, LateClosed]"
  have "cn_state (fst r) = Disconnected" "CloseConnection 0 \<in> set (snd r)"
    unfolding r_def p_def by code_simp+
  then show ?thesis
    using disconnect_is_a_fence [of "[DialOk, LateClosed]" p] unfolding Let_def p_def [symmetric] r_def [symmetric] by simp
qed

section \<open>Dialling the endpoints\<close>

definition armed :: "cn_out list \<Rightarrow> rat list" where
  "armed out = concat (map (\<lambda>x. case x of ArmTimer d \<Rightarrow> [d] | _ \<Rightarrow> []) out)"

definition dialled :: "cn_out list \<Rightarrow> string list" where
  "dialled out = concat (map (\<lambda>x. case x of DialUrl u \<Rightarrow> [u] | _ \<Rightarrow> []) out)"

lemma armed_simps [simp]:
  "armed [] = []" "armed (ArmTimer d # out) = d # armed out" "armed (DialUrl u # out) = armed out"
  "armed (StateChanged st # out) = armed out" "armed (EmitDisconnected # out) = armed out"
  "armed (EmitReconnectFailed # out) = armed out" "armed (out @ out') = armed out @ armed out'"
  "armed (map DialUrl us) = []"
  by (simp_all add: armed_def comp_def)

lemma dialled_simps [simp]:
  "dialled [] = []" "dialled (ArmTimer d # out) = dialled out" "dialled (DialUrl u # out) = u # dialled out"
  "dialled (StateChanged st # out) = dialled out" "dialled (EmitDisconnected # out) = dialled out"
  "dialled (EmitConnected e # out) = dialled out"
  "dialled (EmitReconnectFailed # out) = dialled out" "dialled (out @ out') = dialled out @ dialled out'"
  "dialled (map DialUrl us) = us"
  by (simp_all add: dialled_def comp_def)

lemma settle_quiet [simp]: "armed (snd (settle_connect res p)) = []" "dialled (snd (settle_connect res p)) = []"
proof -
  have "armed (answer_caller res c) = []" "dialled (answer_caller res c) = []" for c
    by (cases c; simp add: armed_def dialled_def)+
  then have "armed (concat (map (answer_caller res) cs)) = []" "dialled (concat (map (answer_caller res) cs)) = []" for cs
    by (induction cs) simp_all
  then show "armed (snd (settle_connect res p)) = []" "dialled (snd (settle_connect res p)) = []"
    by (simp_all add: settle_connect_def)
qed

lemma set_state_quiet [simp]: "armed (snd (set_connection_state st p)) = []" "dialled (snd (set_connection_state st p)) = []"
  by (simp_all add: set_connection_state_def)

text \<open>The endpoints in the order in which a dial tries them.\<close>

abbreviation urls :: "connection \<Rightarrow> string list" where
  "urls p \<equiv> map (build_connection_string p) (rotate (cn_current p) (cn_endpoints p))"

lemma url_static:
  "build_connection_string (p\<lparr>cn_current := c\<rparr>) = build_connection_string p"
  "build_connection_string (p\<lparr>cn_dial := d\<rparr>) = build_connection_string p"
  "build_connection_string (p\<lparr>cn_waiters := w, cn_shutting := s, cn_state := st\<rparr>) = build_connection_string p"
  "build_connection_string (p\<lparr>cn_current := c, cn_dial := d\<rparr>) = build_connection_string p"
  by (simp_all add: build_connection_string_def fun_eq_iff Let_def)

lemma failed_dials:
  assumes "cn_dial q = Some (Dialing 0)" "endpoints_ok q" "j < length (cn_endpoints q)"
  shows "run_machine cn_step q (replicate j DialFailed) =
    (q\<lparr>cn_current := (cn_current q + j) mod length (cn_endpoints q), cn_dial := Some (Dialing j)\<rparr>,
     map DialUrl (take j (tl (urls q))))"
  using assms(3)
proof (induction j)
  case 0
  have "q\<lparr>cn_current := cn_current q, cn_dial := Some (Dialing 0)\<rparr> = q" using assms(1) by simp
  then show ?case using assms by (simp add: endpoints_ok_def)
next
  case (Suc j)
  let ?n = "length (cn_endpoints q)"
  have url: "take (Suc j) (tl (urls q)) = take j (tl (urls q)) @ [build_connection_string q (cn_endpoints q ! ((cn_current q + Suc j) mod ?n))]"
    using Suc.prems by (simp add: take_Suc_conv_app_nth nth_tl nth_rotate)
  have "run_machine cn_step q (replicate (Suc j) DialFailed) = run_machine cn_step q (replicate j DialFailed @ [DialFailed])"
    by (simp add: replicate_append_same)
  also have "\<dots> = (q\<lparr>cn_current := (cn_current q + Suc j) mod ?n, cn_dial := Some (Dialing (Suc j))\<rparr>,
     map DialUrl (take (Suc j) (tl (urls q))))"
    using Suc by (simp add: run_machine_append run_machine.simps(2) dial_failed_def dial_endpoint_def url url_static mod_Suc_eq)
  finally show ?case .
qed

lemma all_dials_fail:
  assumes "cn_dial q = Some (Dialing 0)" "endpoints_ok q"
  defines "q0 \<equiv> q\<lparr>cn_dial := Some (Dialing (length (cn_endpoints q) - 1))\<rparr>"
  shows "run_machine cn_step q (replicate (length (cn_endpoints q)) DialFailed) =
    (fst (dial_exhausted q0), map DialUrl (tl (urls q)) @ snd (dial_exhausted q0))"
proof -
  obtain k where k: "length (cn_endpoints q) = Suc k"
    using assms(2) by (cases "length (cn_endpoints q)") (simp_all add: endpoints_ok_def)
  have cur: "Suc ((cn_current q + k) mod Suc k) mod Suc k = cn_current q"
    using assms(2) k by (simp add: mod_Suc_eq endpoints_ok_def) (metis add_Suc_right mod_add_self2 mod_less)
  have "run_machine cn_step q (replicate (length (cn_endpoints q)) DialFailed) =
      run_machine cn_step q (replicate k DialFailed @ [DialFailed])"
    by (simp add: k replicate_append_same)
  also have "\<dots> = (fst (dial_exhausted q0), map DialUrl (tl (urls q)) @ snd (dial_exhausted q0))"
    using failed_dials [OF assms(1,2), of k] k cur
    by (simp add: run_machine_append run_machine.simps(2) dial_failed_def dial_endpoint_def q0_def split_def Let_def)
  finally show ?thesis .
qed

text \<open>A client that is neither connected nor dialling, whose \<open>connect\<close> dials the current endpoint.\<close>

definition idle :: "connection \<Rightarrow> bool" where
  "idle p \<longleftrightarrow> cn_dial p = None \<and> cn_waiters p = [] \<and> cn_state p \<noteq> Connected \<and> endpoints_ok p"

definition dialling :: "caller \<Rightarrow> connection \<Rightarrow> connection" where
  "dialling c p = p\<lparr>cn_waiters := [c], cn_shutting := False, cn_state := Connecting, cn_dial := Some (Dialing 0)\<rparr>"

lemma dialling_fields [simp]:
  "cn_endpoints (dialling c p) = cn_endpoints p" "cn_current (dialling c p) = cn_current p"
  "cn_dial (dialling c p) = Some (Dialing 0)" "cn_waiters (dialling c p) = [c]"
  "\<not> cn_shutting (dialling c p)" "cn_next (dialling c p) = cn_next p" "cn_state (dialling c p) = Connecting"
  "cn_attempt (dialling c p) = cn_attempt p"
  "build_connection_string (dialling c p) = build_connection_string p"
  by (simp_all add: build_connection_string_def fun_eq_iff Let_def dialling_def)

lemma urls_hd: "endpoints_ok p \<Longrightarrow> urls p = build_connection_string p (cn_endpoints p ! cn_current p) # tl (urls p)"
proof -
  assume "endpoints_ok p"
  then have c: "cn_current p < length (cn_endpoints p)" by (simp add: endpoints_ok_def)
  then have "cn_endpoints p \<noteq> []" by auto
  with c have "rotate (cn_current p) (cn_endpoints p) \<noteq> []"
    "hd (rotate (cn_current p) (cn_endpoints p)) = cn_endpoints p ! cn_current p"
    by (simp_all add: hd_rotate_conv_nth)
  then show ?thesis by (cases "rotate (cn_current p) (cn_endpoints p)") auto
qed

lemma dial_exhausted_outcome:
  assumes "\<not> cn_shutting p"
  shows "cn_conn (fst (dial_exhausted p)) = None"
    "cn_timer (fst (dial_exhausted p)) \<noteq> None \<or> cn_state (fst (dial_exhausted p)) = Failed"
    "dialled (snd (dial_exhausted p)) = []"
    "armed (snd (dial_exhausted p)) = (if attempts_spent p then [] else [backoff p])"
    "EmitReconnectFailed \<in> set (snd (dial_exhausted p)) \<longleftrightarrow> attempts_spent p"
    "User c \<in> set (cn_waiters p) \<Longrightarrow> ConnectResult c None \<in> set (snd (dial_exhausted p))"
proof -
  have quiet: "EmitReconnectFailed \<notin> set (snd (settle_connect res q))" for res q
  proof -
    have "EmitReconnectFailed \<notin> set (answer_caller res c)" for c by (cases c) simp_all
    then show ?thesis by (auto simp: settle_connect_def)
  qed
  show "cn_conn (fst (dial_exhausted p)) = None"
    "cn_timer (fst (dial_exhausted p)) \<noteq> None \<or> cn_state (fst (dial_exhausted p)) = Failed"
    "dialled (snd (dial_exhausted p)) = []"
    using assms by (simp_all add: dial_exhausted_def Let_def fst_start_reconnection start_reconnection_def schedule_reconnect_def)
  show "armed (snd (dial_exhausted p)) = (if attempts_spent p then [] else [backoff p])"
    using assms by (simp add: dial_exhausted_def Let_def start_reconnection_def schedule_reconnect_def)
  show "EmitReconnectFailed \<in> set (snd (dial_exhausted p)) \<longleftrightarrow> attempts_spent p"
    using assms quiet by (auto simp add: dial_exhausted_def Let_def start_reconnection_def schedule_reconnect_def set_connection_state_def)
  show "ConnectResult c None \<in> set (snd (dial_exhausted p))" if "User c \<in> set (cn_waiters p)"
    using assms that by (force simp: dial_exhausted_def Let_def settle_connect_def fst_start_reconnection)
qed

lemma idle_connect:
  assumes "idle p"
  shows "fst (connect c p) = dialling c p" "armed (snd (connect c p)) = []"
    "dialled (snd (connect c p)) = [build_connection_string p (cn_endpoints p ! cn_current p)]"
  using assms by (auto simp: idle_def connect_def do_connect_def Let_def dial_endpoint_def endpoints_ok_def dialling_def
    url_static)

text \<open>
  \<open>connect\<close> fails over: if the first \<open>j\<close> endpoints refuse, counting from the current one and
  around the list, and the next accepts, the caller gets that connection, and exactly those
  endpoints have been dialled, in that order. If all refuse, each has been dialled exactly
  once, the caller gets nothing and the client goes on by itself: the timer is armed or the
  attempts are spent.
\<close>

theorem connect_fails_over:
  assumes "idle p" and "j < length (cn_endpoints p)"
  shows "(let r = run_machine cn_step p (Connect c # replicate j DialFailed @ [DialOk])
     in cn_state (fst r) = Connected \<and> cn_conn (fst r) = Some (cn_next p) \<and>
        ConnectResult c (Some (cn_next p)) \<in> set (snd r) \<and>
        dialled (snd r) = take (Suc j) (urls p)) \<and>
    (let r = run_machine cn_step p (Connect c # replicate (length (cn_endpoints p)) DialFailed)
     in cn_conn (fst r) = None \<and> ConnectResult c None \<in> set (snd r) \<and> dialled (snd r) = urls p \<and>
        (cn_timer (fst r) \<noteq> None \<or> cn_state (fst r) = Failed))"
proof -
  let ?q = "dialling (User c) p"
  let ?last = "?q\<lparr>cn_dial := Some (Dialing (length (cn_endpoints p) - 1))\<rparr>"
  have q: "cn_dial ?q = Some (Dialing 0)" "endpoints_ok ?q" "cn_endpoints ?q = cn_endpoints p"
    "urls ?q = urls p" "cn_waiters ?q = [User c]" "\<not> cn_shutting ?q" "cn_next ?q = cn_next p"
    using assms(1) by (simp_all add: idle_def endpoints_ok_def)
  note first = idle_connect [OF assms(1), of "User c"]
  have hd: "take (Suc j) (urls p) = build_connection_string p (cn_endpoints p ! cn_current p) # take j (tl (urls p))"
    using assms(1) by (subst urls_hd) (simp_all add: idle_def)
  have urls: "urls p = build_connection_string p (cn_endpoints p ! cn_current p) # tl (urls p)"
    using assms(1) by (intro urls_hd) (simp add: idle_def)
  have "run_machine cn_step ?q (replicate j DialFailed) =
    (?q\<lparr>cn_current := (cn_current ?q + j) mod length (cn_endpoints p), cn_dial := Some (Dialing j)\<rparr>, map DialUrl (take j (tl (urls p))))"
    using failed_dials [OF q(1,2), of j] assms(2) q(3,4) by simp
  then have ok: "let r = run_machine cn_step p (Connect c # replicate j DialFailed @ [DialOk])
     in cn_state (fst r) = Connected \<and> cn_conn (fst r) = Some (cn_next p) \<and>
        ConnectResult c (Some (cn_next p)) \<in> set (snd r) \<and> dialled (snd r) = take (Suc j) (urls p)"
    using q first hd
    by (simp add: run_machine_append Let_def dial_ok_def split_def) (simp add: settle_connect_def)
  have "run_machine cn_step ?q (replicate (length (cn_endpoints p)) DialFailed) =
    (fst (dial_exhausted ?last), map DialUrl (tl (urls p)) @ snd (dial_exhausted ?last))"
    using all_dials_fail [OF q(1,2)] q(3,4) by simp
  moreover have "\<not> cn_shutting ?last" "User c \<in> set (cn_waiters ?last)" using q by simp_all
  note dial_exhausted_outcome [OF this(1)] dial_exhausted_outcome(6) [OF this]
  ultimately have "let r = run_machine cn_step p (Connect c # replicate (length (cn_endpoints p)) DialFailed)
     in cn_conn (fst r) = None \<and> ConnectResult c None \<in> set (snd r) \<and>
        dialled (snd r) = build_connection_string p (cn_endpoints p ! cn_current p) # tl (urls p) \<and>
        (cn_timer (fst r) \<noteq> None \<or> cn_state (fst r) = Failed)"
    using first by (simp add: Let_def)
  then have "let r = run_machine cn_step p (Connect c # replicate (length (cn_endpoints p)) DialFailed)
     in cn_conn (fst r) = None \<and> ConnectResult c None \<in> set (snd r) \<and> dialled (snd r) = urls p \<and>
        (cn_timer (fst r) \<noteq> None \<or> cn_state (fst r) = Failed)"
    unfolding urls [symmetric] .
  with ok show ?thesis by blast
qed

theorem connect_fails_over_witness:
  "let r = run_machine cn_step cn_sample (Connect 7 # replicate 1 DialFailed @ [DialOk])
   in cn_conn (fst r) = Some 0 \<and> ConnectResult 7 (Some 0) \<in> set (snd r) \<and>
      dialled (snd r) = [''amqp://u:p@a'', ''amqp://u:p@b'']"
proof -
  have idle: "idle cn_sample" "1 < length (cn_endpoints cn_sample)" unfolding idle_def endpoints_ok_def by code_simp+
  have "cn_next cn_sample = 0" "take (Suc 1) (urls cn_sample) = [''amqp://u:p@a'', ''amqp://u:p@b'']" by code_simp+
  then show ?thesis using connect_fails_over [OF idle, of 7] by (simp only: Let_def)
qed

lemma spent_after_failure:
  fixes c :: caller
  assumes "idle p" "cn_max_attempts p = Fin (of_nat M)"
  defines "r \<equiv> run_machine cn_step (dialling c p) (replicate (length (cn_endpoints p)) DialFailed)"
  shows "armed (snd r) = (if M \<le> cn_attempt p then [] else [backoff p])"
    "EmitReconnectFailed \<in> set (snd r) \<longleftrightarrow> M \<le> cn_attempt p"
    "idle (fst r)" "cn_attempt (fst r) = cn_attempt p" "cn_endpoints (fst r) = cn_endpoints p"
    "cn_max_attempts (fst r) = Fin (of_nat M)" "cn_interval (fst r) = cn_interval p"
    "cn_max_interval (fst r) = cn_max_interval p"
    "cn_timer (fst r) = (if M \<le> cn_attempt p then None else Some (backoff p))"
    "M \<le> cn_attempt p \<Longrightarrow> cn_state (fst r) = Failed"
proof -
  let ?q = "dialling c p"
  let ?last = "?q\<lparr>cn_dial := Some (Dialing (length (cn_endpoints p) - 1))\<rparr>"
  have spent: "attempts_spent ?last \<longleftrightarrow> M \<le> cn_attempt p" "backoff ?last = backoff p"
    using assms(2) by (auto simp: attempts_spent_def backoff_def dialling_def)
  have r: "r = (fst (dial_exhausted ?last), map DialUrl (tl (urls ?q)) @ snd (dial_exhausted ?last))"
    using all_dials_fail [of ?q] assms(1) by (simp add: r_def idle_def endpoints_ok_def)
  have last: "\<not> cn_shutting ?last" by simp
  have no_dial: "EmitReconnectFailed \<notin> set (map DialUrl us)" for us by auto
  show "armed (snd r) = (if M \<le> cn_attempt p then [] else [backoff p])"
    "EmitReconnectFailed \<in> set (snd r) \<longleftrightarrow> M \<le> cn_attempt p"
    using r dial_exhausted_outcome [OF last] spent no_dial by auto
  have fst: "fst r = fst (settle_connect None (fst (start_reconnection (?last\<lparr>cn_conn := None\<rparr>))))"
    by (simp add: r dial_exhausted_def Let_def dialling_def)
  show "idle (fst r)" "cn_attempt (fst r) = cn_attempt p" "cn_endpoints (fst r) = cn_endpoints p"
    "cn_max_attempts (fst r) = Fin (of_nat M)" "cn_interval (fst r) = cn_interval p"
    "cn_max_interval (fst r) = cn_max_interval p"
    using assms(1,2) unfolding fst by (simp_all add: fst_start_reconnection idle_def endpoints_ok_def dialling_def)
  show "cn_timer (fst r) = (if M \<le> cn_attempt p then None else Some (backoff p))"
    "M \<le> cn_attempt p \<Longrightarrow> cn_state (fst r) = Failed"
    using spent unfolding fst by (simp_all add: fst_start_reconnection)
qed

lemma timer_dials:
  assumes "idle p" "cn_timer p \<noteq> None"
  shows "fst (cn_step p TimerFires) = dialling Retry (p\<lparr>cn_timer := None, cn_attempt := Suc (cn_attempt p)\<rparr>)"
    "armed (snd (cn_step p TimerFires)) = []" "EmitReconnectFailed \<notin> set (snd (cn_step p TimerFires))"
proof -
  let ?p1 = "p\<lparr>cn_timer := None, cn_attempt := Suc (cn_attempt p)\<rparr>"
  have "idle ?p1" using assms(1) by (simp add: idle_def endpoints_ok_def)
  note first = idle_connect [OF this, of Retry]
  have "cn_step p TimerFires = connect Retry ?p1"
    using assms by (auto simp add: attempt_reconnect_def idle_def)
  with first show "fst (cn_step p TimerFires) = dialling Retry ?p1" "armed (snd (cn_step p TimerFires)) = []" by simp_all
  show "EmitReconnectFailed \<notin> set (snd (cn_step p TimerFires))"
    using assms by (auto simp: attempt_reconnect_def idle_def connect_def do_connect_def dial_endpoint_def endpoints_ok_def
        set_connection_state_def Let_def)
qed

lemma outage_rounds:
  assumes "idle p" "cn_timer p \<noteq> None" "cn_max_attempts p = Fin (of_nat M)" "cn_attempt p + m = M" "0 < m"
  defines "r \<equiv> run_machine cn_step p (concat (replicate m (TimerFires # replicate (length (cn_endpoints p)) DialFailed)))"
  shows "armed (snd r) = map (\<lambda>a. min (cn_interval p * 2 ^ min a 4) (cn_max_interval p)) [Suc (cn_attempt p) ..< M] \<and>
    cn_state (fst r) = Failed \<and> cn_timer (fst r) = None \<and> cn_dial (fst r) = None \<and> EmitReconnectFailed \<in> set (snd r)"
  using assms(1-5) unfolding r_def
proof (induction m arbitrary: p)
  case (Suc m)
  let ?n = "length (cn_endpoints p)"
  let ?p1 = "p\<lparr>cn_timer := None, cn_attempt := Suc (cn_attempt p)\<rparr>"
  let ?r1 = "run_machine cn_step (dialling Retry ?p1) (replicate ?n DialFailed)"
  let ?rest = "concat (replicate m (TimerFires # replicate ?n DialFailed))"
  have p1: "idle ?p1" "cn_max_attempts ?p1 = Fin (of_nat M)" "cn_endpoints ?p1 = cn_endpoints p"
    using Suc.prems by (simp_all add: idle_def endpoints_ok_def)
  note fires = timer_dials [OF Suc.prems(1,2)] and down = spent_after_failure [OF p1(1,2), of Retry, unfolded p1(3)]
  have backoff: "backoff ?p1 = min (cn_interval p * 2 ^ min (Suc (cn_attempt p)) 4) (cn_max_interval p)"
    by (simp add: backoff_def)
  have run: "fst (run_machine cn_step p (concat (replicate (Suc m) (TimerFires # replicate ?n DialFailed)))) = fst (run_machine cn_step (fst ?r1) ?rest)"
    "armed (snd (run_machine cn_step p (concat (replicate (Suc m) (TimerFires # replicate ?n DialFailed))))) =
      armed (snd ?r1) @ armed (snd (run_machine cn_step (fst ?r1) ?rest))"
    "EmitReconnectFailed \<in> set (snd (run_machine cn_step p (concat (replicate (Suc m) (TimerFires # replicate ?n DialFailed))))) \<longleftrightarrow>
      EmitReconnectFailed \<in> set (snd ?r1) \<or> EmitReconnectFailed \<in> set (snd (run_machine cn_step (fst ?r1) ?rest))"
    using fires by (simp_all del: cn_step.simps add: run_machine_append split_def Let_def)
  show ?case
  proof (cases m)
    case 0
    with Suc.prems have "M \<le> cn_attempt ?p1" "[Suc (cn_attempt p) ..< M] = []" by simp_all
    with down 0 show ?thesis unfolding run by (simp add: idle_def)
  next
    case (Suc m')
    have less: "\<not> M \<le> cn_attempt ?p1" using Suc \<open>cn_attempt p + Suc m = M\<close> by simp
    have upt: "[Suc (cn_attempt p) ..< M] = Suc (cn_attempt p) # [Suc (Suc (cn_attempt p)) ..< M]"
      using less by (simp add: upt_conv_Cons)
    have "cn_attempt (fst ?r1) + m = M" using down(4) \<open>cn_attempt p + Suc m = M\<close> by simp
    moreover have "cn_timer (fst ?r1) \<noteq> None" "0 < m" using down(9) less Suc by simp_all
    ultimately show ?thesis
      using Suc.IH [of "fst ?r1"] down less unfolding run by (simp add: upt backoff)
  qed
qed simp

text \<open>
  An outage spends exactly the retry budget. A client configured with \<open>M\<close> reconnection attempts
  whose endpoints all refuse dials once, waits and dials again \<open>M\<close> times with the delays
  \<open>min (interval * 2 ^ min a 4) max_interval\<close> for \<open>a = 0, \<dots>, M - 1\<close>, announces
  \<open>reconnectFailed\<close> and ends in the state \<open>failed\<close> with no timer armed; with \<open>M = 0\<close> it
  never waits.
\<close>

theorem outage_spends_retry_budget:
  fixes c :: nat
  assumes "cn_new opts = Inr p0" and "co_max_attempts opts = JNum (Fin (of_nat M))"
  defines "dead \<equiv> replicate (length (co_endpoints opts)) DialFailed"
  defines "r \<equiv> run_machine cn_step p0 (Connect c # dead @ concat (replicate M (TimerFires # dead)))"
  shows "armed (snd r) = map (\<lambda>a. min (num_or (co_interval opts) 1000 * 2 ^ min a 4) (num_or (co_max_interval opts) 15000)) [0 ..< M] \<and>
    cn_state (fst r) = Failed \<and> cn_timer (fst r) = None \<and> cn_dial (fst r) = None \<and> EmitReconnectFailed \<in> set (snd r)"
proof -
  have p0: "idle p0" "cn_max_attempts p0 = Fin (of_nat M)" "cn_attempt p0 = 0" "cn_interval p0 = num_or (co_interval opts) 1000"
    "cn_max_interval p0 = num_or (co_max_interval opts) 15000" "cn_endpoints p0 = co_endpoints opts"
    using assms(1,2) by (auto simp: cn_new_def Let_def idle_def endpoints_ok_def non_negative_number_def split: if_splits)
  define r1 where "r1 = run_machine cn_step (dialling (User c) p0) dead"
  define rest where "rest = concat (replicate M (TimerFires # dead))"
  define r2 where "r2 = run_machine cn_step (fst r1) rest"
  note down = spent_after_failure [OF p0(1,2), of "User c", unfolded p0(3,6), folded dead_def, folded r1_def]
  have backoff: "backoff p0 = min (num_or (co_interval opts) 1000 * 2 ^ min 0 4) (num_or (co_max_interval opts) 15000)"
    using p0 by (simp add: backoff_def)
  have run: "fst r = fst r2" "armed (snd r) = armed (snd r1) @ armed (snd r2)"
    "set (snd r1) \<union> set (snd r2) \<subseteq> set (snd r)"
    using idle_connect [OF p0(1), of "User c"]
    by (auto simp: r_def r1_def r2_def rest_def [symmetric] run_machine_append split_def Let_def)
  show ?thesis
  proof (cases "M = 0")
    case True
    then have "r2 = (fst r1, [])" by (simp add: r2_def rest_def)
    with True down run show ?thesis by (auto simp: idle_def)
  next
    case False
    then have upt: "[0 ..< M] = 0 # [Suc 0 ..< M]" by (simp add: upt_conv_Cons)
    have "cn_timer (fst r1) \<noteq> None" "cn_attempt (fst r1) + M = M" "0 < M" using down False by simp_all
    from outage_rounds [OF down(3) this(1) down(6) this(2,3), unfolded down(4,5,7,8) p0(4,5,6), folded dead_def, folded rest_def, folded r2_def]
    have R: "armed (snd r2) = map (\<lambda>a. min (num_or (co_interval opts) 1000 * 2 ^ min a 4) (num_or (co_max_interval opts) 15000)) [Suc 0 ..< M]"
      "cn_state (fst r2) = Failed" "cn_timer (fst r2) = None" "cn_dial (fst r2) = None" "EmitReconnectFailed \<in> set (snd r2)"
      by blast+
    have "armed (snd r1) = [backoff p0]" using down(1) False by simp
    then have "armed (snd r) = map (\<lambda>a. min (num_or (co_interval opts) 1000 * 2 ^ min a 4) (num_or (co_max_interval opts) 15000)) [0 ..< M]"
      unfolding run(2) R(1) upt by (simp only: backoff list.map append.simps)
    with R run show ?thesis by auto
  qed
qed

theorem outage_spends_retry_budget_witness:
  "let dead = [DialFailed, DialFailed];
       r = run_machine cn_step cn_sample (Connect 0 # dead @ concat (replicate 2 (TimerFires # dead)))
   in armed (snd r) = [1, 2] \<and> cn_state (fst r) = Failed"
proof -
  have "co_max_attempts cn_sample_options = JNum (Fin (of_nat 2))" "length (co_endpoints cn_sample_options) = 2"
    "co_interval cn_sample_options = Some 1" "co_max_interval cn_sample_options = Some 3"
    by (simp_all add: cn_sample_options_def)
  then show ?thesis
    using outage_spends_retry_budget [OF cn_sample, of 2 0] by (simp add: Let_def num_or_def numeral_2_eq_2)
qed

section \<open>Reading a connection string back\<close>

text \<open>The reader of a URL: the parts between the separators, each percent-decoded.\<close>

definition hex_digit :: "char \<Rightarrow> nat" where
  "hex_digit c = (if of_char c < (58::nat) then of_char c - 48 else of_char c - 55)"

fun decode_uri_component :: "string \<Rightarrow> string" where
  "decode_uri_component (c # a # b # s) =
     (if c = CHR ''%'' then char_of (16 * hex_digit a + hex_digit b) # decode_uri_component s
      else c # decode_uri_component (a # b # s))"
| "decode_uri_component s = s"

definition read_url :: "string \<Rightarrow> string \<times> string \<times> string \<times> string \<times> string" where
  "read_url url =
     (let protocol = takeWhile (\<lambda>c. c \<noteq> CHR '':'') url; rest = drop 3 (dropWhile (\<lambda>c. c \<noteq> CHR '':'') url);
          user = takeWhile (\<lambda>c. c \<noteq> CHR '':'') rest; rest1 = tl (dropWhile (\<lambda>c. c \<noteq> CHR '':'') rest);
          password = takeWhile (\<lambda>c. c \<noteq> CHR ''@'') rest1; rest2 = tl (dropWhile (\<lambda>c. c \<noteq> CHR ''@'') rest1);
          endpoint = takeWhile (\<lambda>c. c \<noteq> CHR ''/'') rest2; vhost = tl (dropWhile (\<lambda>c. c \<noteq> CHR ''/'') rest2)
      in (protocol, decode_uri_component user, decode_uri_component password, endpoint, decode_uri_component vhost))"

definition reserved_free :: "char \<Rightarrow> bool" where
  "reserved_free c \<longleftrightarrow> c \<noteq> CHR '':'' \<and> c \<noteq> CHR ''@'' \<and> c \<noteq> CHR ''/''"

lemma uri_unreserved_plain: "uri_unreserved c \<Longrightarrow> reserved_free c \<and> c \<noteq> CHR ''%''"
  by (auto simp: uri_unreserved_def reserved_free_def)

lemma less_16_cases: "(d::nat) < 16 \<Longrightarrow> d \<in> {0, 1, 2, 3, 4, 5, 6, 7, 8, 9, 10, 11, 12, 13, 14, 15}"
  by (simp only: insert_iff empty_iff) presburger

lemma hex_char_facts: "d < 16 \<Longrightarrow> hex_digit (hex_char d) = d \<and> reserved_free (hex_char d)"
  by (drule less_16_cases) (auto simp: hex_digit_def hex_char_def reserved_free_def)

lemma encode_char_facts:
  "list_all reserved_free (encode_char c) \<and>
   (uri_unreserved c \<and> c \<noteq> CHR ''%'' \<or>
    char_of (16 * hex_digit (hex_char (of_char c div 16)) + hex_digit (hex_char (of_char c mod 16))) = c)"
proof -
  have "of_char c < (256::nat)" by simp
  then have "of_char c div 16 < (16::nat)" "of_char c mod 16 < (16::nat)" by linarith simp
  note hex = this [THEN hex_char_facts]
  then have "char_of (16 * hex_digit (hex_char (of_char c div 16)) + hex_digit (hex_char (of_char c mod 16))) = c"
    by (simp only: mult_div_mod_eq char_of_char conj_absorb)
  moreover have "list_all reserved_free (encode_char c)"
    using hex uri_unreserved_plain [of c] by (simp add: encode_char_def, simp add: reserved_free_def)
  ultimately show ?thesis by blast
qed

lemma decode_cons: "c \<noteq> CHR ''%'' \<Longrightarrow> decode_uri_component (c # s) = c # decode_uri_component s"
  by (cases s rule: decode_uri_component.cases) auto

lemma decode_encode [simp]: "decode_uri_component (encode_uri_component s) = s"
proof (induction s)
  case (Cons c s)
  then show ?case
    using encode_char_facts [of c]
    by (cases "uri_unreserved c") (auto simp: encode_uri_component_def encode_char_def decode_cons uri_unreserved_def)
qed (simp add: encode_uri_component_def)

lemma encoded_reserved_free: "list_all reserved_free (encode_uri_component s)"
  using encode_char_facts by (induction s) (auto simp: encode_uri_component_def)

lemma take_until [simp]:
  assumes "c \<notin> set xs"
  shows "takeWhile (\<lambda>x. x \<noteq> c) (xs @ c # ys) = xs" "dropWhile (\<lambda>x. x \<noteq> c) (xs @ c # ys) = c # ys"
    "takeWhile (\<lambda>x. x \<noteq> c) xs = xs" "dropWhile (\<lambda>x. x \<noteq> c) xs = []"
  using assms by (induction xs) auto

lemma not_in_encoded: "\<not> reserved_free c \<Longrightarrow> c \<notin> set (encode_uri_component s)"
  using encoded_reserved_free [of s] by (auto simp: list_all_iff)

text \<open>
  C34: The connection string says what was configured: for every user name, password and virtual
  host (with any of the characters \<open>: @ / %\<close>) and an endpoint without a slash, a URL
  reader recovers exactly the configured protocol, credentials, endpoint and virtual host.
\<close>

theorem connection_string_round_trip:
  assumes "cn_new opts = Inr p" and "CHR ''/'' \<notin> set endpoint"
  shows "read_url (build_connection_string p endpoint) =
    (str_or (co_protocol opts) ''amqp'', co_username opts, co_password opts, endpoint, co_vhost opts)"
proof -
  have p: "cn_protocol p = str_or (co_protocol opts) ''amqp''" "CHR '':'' \<notin> set (cn_protocol p)"
    "cn_username p = co_username opts" "cn_password p = co_password opts" "cn_vhost p = co_vhost opts"
    using assms(1) by (auto simp: cn_new_def Let_def split: sum.splits if_splits)
  have "CHR '':'' \<notin> set (encode_uri_component s)" "CHR ''@'' \<notin> set (encode_uri_component s)" for s
    by (rule not_in_encoded; simp add: reserved_free_def)+
  then show ?thesis
    using assms(2) p by (cases "cn_vhost p = []") (simp_all add: read_url_def build_connection_string_def Let_def)
qed

theorem connection_string_round_trip_witness:
  "\<exists>p. cn_new (cn_sample_options\<lparr>co_password := ''p@ss:/w%rd''\<rparr>) = Inr p \<and>
     read_url (build_connection_string p ''h:5672'') = (''amqp'', ''u'', ''p@ss:/w%rd'', ''h:5672'', [])"
proof -
  obtain p where p: "cn_new (cn_sample_options\<lparr>co_password := ''p@ss:/w%rd''\<rparr>) = Inr p"
    by (simp add: cn_new_def cn_sample_options_def str_or_def Let_def non_negative_number_def)
  from connection_string_round_trip [OF p, of "''h:5672''"] p show ?thesis
    by (simp add: cn_sample_options_def str_or_def)
qed

section \<open>Calls that race a shutdown\<close>

text \<open>
  A \<open>connect\<close> made after a \<open>disconnect\<close> while a dial is still in flight joins that dial, which
  the shutdown has doomed: the new connection is closed, the caller gets nothing, and the
  client stays disconnected with no timer armed although a connection was asked for last.
\<close>

theorem connect_during_doomed_dial_is_lost:
  "let r = run_machine cn_step cn_sample [Connect 0, Disconnect, Connect 1, DialOk, LateClosed]
   in snd r = [StateChanged Connecting, DialUrl ''amqp://u:p@a'', StateChanged Disconnecting, StateChanged Disconnected,
        DisconnectDone, CloseConnection 0, ConnectResult 0 None, ConnectResult 1 None] \<and>
      cn_state (fst r) = Disconnected \<and> cn_timer (fst r) = None \<and> cn_dial (fst r) = None \<and> cn_shutting (fst r)"
  by code_simp

text \<open>
  A \<open>connect\<close> made while \<open>disconnect\<close> awaits the closing of the old connection: if the new
  connection is established first, the end of \<open>disconnect\<close> forgets it. It stays open, nothing
  refers to it and the client reports \<open>disconnected\<close>.
\<close>

theorem disconnect_forgets_newer_connection:
  "let r = run_machine cn_step cn_sample [Connect 0, DialOk, Disconnect, Connect 1, DialOk, CloseDone 0]
   in ConnectResult 1 (Some 1) \<in> set (snd r) \<and> CloseConnection 1 \<notin> set (snd r) \<and> 1 \<in> set (cn_live (fst r)) \<and>
      cn_conn (fst r) = None \<and> cn_state (fst r) = Disconnected"
  by code_simp

text \<open>
  \<open>stryker-mutation-policy.js\<close> argues that \<open>state === 'connected'\<close> holds exactly when the
  connection is set. While \<open>disconnect\<close> awaits the close, the connection is still set in the
  state \<open>disconnecting\<close>, and a \<open>connect\<close> then dials anew where a test of the connection
  alone would have handed out the connection that is being closed.
\<close>

theorem connection_set_while_disconnecting:
  "let p = fst (run_machine cn_step cn_sample [Connect 0, DialOk, Disconnect])
   in cn_conn p = Some 0 \<and> cn_state p = Disconnecting \<and>
      snd (cn_step p (Connect 1)) = [StateChanged Connecting, DialUrl ''amqp://u:p@a'']"
  by code_simp

end
