(* ===== verification/Rpc.thy ===== *)
theory Rpc
  imports Publisher
begin

text \<open>
  \<open>src/messaging/rpc.js\<close>. The requester is a machine driven by its callers, the broker, the
  timers and the connection: requests wait for the one reply consumer, are encoded,
  registered and published, and settle by the reply, the return, the timeout, a failed
  publication or the loss of the reply route. Requests are numbered by their callers,
  correlation ids by a counter (\<open>randomUUID\<close> never repeats), channels by the pool. The
  responder is a function of one delivery. Logging is not modelled.
\<close>

section \<open>The requester: state\<close>

definition direct_reply_queue :: string where
  "direct_reply_queue = ''amq.rabbitmq.reply-to''"

definition default_timeout :: jsnum where
  "default_timeout = Fin 30000"

text \<open>
  A setup of the reply consumer in flight: the epoch it started in and the channel, once it is
  there. A request waits for the setup, then for its encoding (with the reply channel it will
  use), then in the map of pending requests, then possibly for the decoding of its reply.
\<close>

record reply_setup =
  su_epoch :: nat
  su_channel :: "nat option"

record rpc_request =
  rq_call :: nat
  rq_key :: string
  rq_timeout :: rat
  rq_options :: publish_options

record rpc =
  rp_pending :: "(nat, rpc_request) jsmap"
  rp_timers :: "nat list"
  rp_reply :: "nat option"
  rp_setup :: "reply_setup option"
  rp_waiters :: "rpc_request list"
  rp_encoding :: "(nat, rpc_request \<times> nat) jsmap"
  rp_decoding :: "(nat, rpc_request \<times> bool) jsmap"
  rp_listeners :: "nat option"
  rp_attached :: "nat list"
  rp_epoch :: nat
  rp_pool :: bool
  rp_next :: nat

definition rpc_new :: rpc where
  "rpc_new = \<lparr>rp_pending = [], rp_timers = [], rp_reply = None, rp_setup = None, rp_waiters = [], rp_encoding = [],
     rp_decoding = [], rp_listeners = None, rp_attached = [], rp_epoch = 0, rp_pool = False, rp_next = 0\<rparr>"

datatype rpc_out =
    GetReplyChannel
  | ConsumeReplies nat
  | EncodeRequest nat
  | DecodeReply nat
  | ArmTimeout nat rat
  | PublishRequest nat nat wire_options bytes
  | RpcSettled nat "jsval + jsval"

definition rpc_error :: "string \<Rightarrow> string \<Rightarrow> jsval" where
  "rpc_error code message = coded_error code message"

section \<open>The requester: operations\<close>

definition reject_call :: "jsval \<Rightarrow> rpc_request \<Rightarrow> rpc_out" where
  "reject_call e rq = RpcSettled (rq_call rq) (Inl e)"

text \<open>\<open>#settlePending\<close> with a rejection; the last component says whether there was a request.\<close>

definition settle_pending :: "nat \<Rightarrow> jsval \<Rightarrow> rpc \<Rightarrow> rpc \<times> rpc_out list" where
  "settle_pending corr e s = (case map_get (rp_pending s) corr of
      None \<Rightarrow> (s, [])
    | Some rq \<Rightarrow> (s\<lparr>rp_pending := map_del corr (rp_pending s), rp_timers := removeAll corr (rp_timers s)\<rparr>, [reject_call e rq]))"

definition reject_all_pending :: "string \<Rightarrow> rpc \<Rightarrow> rpc \<times> rpc_out list" where
  "reject_all_pending reason s =
     (s\<lparr>rp_pending := [], rp_timers := filter (\<lambda>t. t \<notin> key_set (rp_pending s)) (rp_timers s)\<rparr>,
      map (\<lambda>(corr, rq). reject_call (rpc_error ''RPC_CONNECTION_LOST'' (''RPC request aborted: '' @ reason)) rq) (rp_pending s))"

definition detach_reply_listeners :: "rpc \<Rightarrow> rpc" where
  "detach_reply_listeners s = (case rp_listeners s of
      None \<Rightarrow> s
    | Some ch \<Rightarrow> s\<lparr>rp_attached := remove1 ch (rp_attached s), rp_listeners := None\<rparr>)"

definition handle_connection_loss :: "string \<Rightarrow> rpc \<Rightarrow> rpc \<times> rpc_out list" where
  "handle_connection_loss reason s =
     reject_all_pending reason ((detach_reply_listeners (s\<lparr>rp_epoch := Suc (rp_epoch s)\<rparr>))\<lparr>rp_reply := None\<rparr>)"

definition invalidate_reply_channel :: "nat \<Rightarrow> string \<Rightarrow> rpc \<Rightarrow> rpc \<times> rpc_out list" where
  "invalidate_reply_channel ch reason s =
     (if rp_reply s \<noteq> Some ch then (s, [])
      else reject_all_pending reason ((detach_reply_listeners s)\<lparr>rp_reply := None\<rparr>))"

text \<open>A request that has the reply channel is encoded next.\<close>

definition start_encoding :: "nat \<Rightarrow> rpc_request \<Rightarrow> rpc \<Rightarrow> rpc \<times> rpc_out list" where
  "start_encoding ch rq s =
     (s\<lparr>rp_encoding := map_set (rp_next s) (rq, ch) (rp_encoding s), rp_next := Suc (rp_next s)\<rparr>, [EncodeRequest (rp_next s)])"

fun start_encodings :: "nat \<Rightarrow> rpc_request list \<Rightarrow> rpc \<Rightarrow> rpc \<times> rpc_out list" where
  "start_encodings ch [] s = (s, [])"
| "start_encodings ch (rq # rqs) s = chain (start_encoding ch rq s) (start_encodings ch rqs)"

text \<open>The setup promise settles: everyone who waits for it goes on or fails with it.\<close>

definition setup_resolved :: "nat \<Rightarrow> rpc \<Rightarrow> rpc \<times> rpc_out list" where
  "setup_resolved ch s = start_encodings ch (rp_waiters s) (s\<lparr>rp_setup := None, rp_waiters := []\<rparr>)"

definition setup_rejected :: "jsval \<Rightarrow> rpc \<Rightarrow> rpc \<times> rpc_out list" where
  "setup_rejected e s = (s\<lparr>rp_setup := None, rp_waiters := []\<rparr>, map (reject_call e) (rp_waiters s))"

definition setup_reply_consumer :: "rpc \<Rightarrow> rpc \<times> rpc_out list" where
  "setup_reply_consumer s =
     (if \<not> rp_pool s then setup_rejected not_connected_error s
      else (s\<lparr>rp_setup := Some \<lparr>su_epoch = rp_epoch s, su_channel = None\<rparr>\<rparr>, [GetReplyChannel]))"

definition ensure_reply_consumer :: "rpc_request \<Rightarrow> rpc \<Rightarrow> rpc \<times> rpc_out list" where
  "ensure_reply_consumer rq s = (case rp_reply s of
      Some ch \<Rightarrow> start_encoding ch rq s
    | None \<Rightarrow>
        (let s1 = s\<lparr>rp_waiters := rp_waiters s @ [rq]\<rparr>
         in if rp_setup s1 = None then setup_reply_consumer s1 else (s1, [])))"

definition dedicated_ready :: "jsval + nat \<Rightarrow> reply_setup \<Rightarrow> rpc \<Rightarrow> rpc \<times> rpc_out list" where
  "dedicated_ready r su s = (case r of
      Inl e \<Rightarrow> setup_rejected e s
    | Inr ch \<Rightarrow> (s\<lparr>rp_setup := Some (su\<lparr>su_channel := Some ch\<rparr>)\<rparr>, [ConsumeReplies ch]))"

definition lost_in_setup :: jsval where
  "lost_in_setup = rpc_error ''RPC_CONNECTION_LOST'' ''RPC request aborted: connection lost during reply consumer setup''"

definition consume_ready :: "jsval option \<Rightarrow> nat \<Rightarrow> nat \<Rightarrow> rpc \<Rightarrow> rpc \<times> rpc_out list" where
  "consume_ready err ch epoch s = (case err of
      Some e \<Rightarrow> setup_rejected e s
    | None \<Rightarrow>
        (let s1 = s\<lparr>rp_attached := ch # rp_attached s, rp_listeners := Some ch\<rparr>
         in if epoch \<noteq> rp_epoch s1 then setup_rejected lost_in_setup (detach_reply_listeners s1)
            else setup_resolved ch (s1\<lparr>rp_reply := Some ch\<rparr>)))"

text \<open>The wire options of a request.\<close>

definition request_options :: "rpc_request \<Rightarrow> bool \<Rightarrow> rat \<Rightarrow> nat \<Rightarrow> wire_options" where
  "request_options rq compressed now corr =
     (let defaults = [(''persistent'', JBool False), (''expiration'', JStr (num_str (Fin (of_int \<lceil>rq_timeout rq\<rceil>)))), (''mandatory'', JBool True)];
          options = (rq_options rq)\<lparr>po_fields := spread defaults (po_fields (rq_options rq))\<rparr>;
          built = build_options options compressed [(''x-rpc-deadline'', JNum (Fin (now + rq_timeout rq)))]
      in map_set ''replyTo'' (JStr direct_reply_queue) (map_set ''correlationId'' (JStr (nat_str corr)) built))"

definition encoded_request :: "jsval + (bytes \<times> bool) \<Rightarrow> rat \<Rightarrow> rpc_request \<Rightarrow> nat \<Rightarrow> rpc \<Rightarrow> rpc \<times> rpc_out list" where
  "encoded_request r now rq ch s = (case r of
      Inl e \<Rightarrow> (s, [reject_call e rq])
    | Inr (content, compressed) \<Rightarrow>
        (let corr = rp_next s
         in (s\<lparr>rp_next := Suc corr, rp_pending := map_set corr rq (rp_pending s), rp_timers := corr # rp_timers s\<rparr>,
             [ArmTimeout corr (rq_timeout rq), PublishRequest ch corr (request_options rq compressed now corr) content])))"

definition timeout_fires :: "nat \<Rightarrow> rpc \<Rightarrow> rpc \<times> rpc_out list" where
  "timeout_fires corr s =
     (let s1 = s\<lparr>rp_timers := removeAll corr (rp_timers s), rp_pending := map_del corr (rp_pending s)\<rparr>
      in case map_get (rp_pending s) corr of
           None \<Rightarrow> (s1, [])
         | Some rq \<Rightarrow> (s1, [reject_call (rpc_error ''RPC_TIMEOUT'' (''RPC request to '' @ rq_key rq @ '' timed out after '' @ num_str (Fin (rq_timeout rq)) @ ''ms'')) rq]))"

definition handle_reply :: "nat option \<Rightarrow> bool \<Rightarrow> rpc \<Rightarrow> rpc \<times> rpc_out list" where
  "handle_reply corr failed s = (case corr of
      None \<Rightarrow> (s, [])
    | Some c \<Rightarrow>
        (case map_get (rp_pending s) c of
           None \<Rightarrow> (s, [])
         | Some rq \<Rightarrow> (s\<lparr>rp_pending := map_del c (rp_pending s), rp_timers := removeAll c (rp_timers s),
                        rp_decoding := map_set (rp_next s) (rq, failed) (rp_decoding s), rp_next := Suc (rp_next s)\<rparr>,
                      [DecodeReply (rp_next s)])))"

text \<open>The outcome of a decoded reply: the content, or the error of the responder's envelope.\<close>

definition reply_outcome :: "bool \<Rightarrow> jsval + jsval \<Rightarrow> jsval + jsval" where
  "reply_outcome failed r = (case r of
      Inl e \<Rightarrow> Inl e
    | Inr content \<Rightarrow>
        if failed then Inl (JObj True [(''message'', js_or (opt_prop content ''message'') (JStr ''RPC responder failed'')), (''code'', JStr ''RPC_RESPONDER_ERROR'')])
        else Inr content)"

definition decoded_reply :: "nat \<Rightarrow> jsval + jsval \<Rightarrow> rpc \<Rightarrow> rpc \<times> rpc_out list" where
  "decoded_reply task r s = (case map_get (rp_decoding s) task of
      None \<Rightarrow> (s, [])
    | Some (rq, failed) \<Rightarrow>
        (s\<lparr>rp_decoding := map_del task (rp_decoding s)\<rparr>, [RpcSettled (rq_call rq) (reply_outcome failed r)]))"

text \<open>
  A call of \<open>request\<close>: the check of the timeout and the preflight, which touches none of this
  state and whose rejection, if any, is given.
\<close>

definition request_call :: "nat \<Rightarrow> string \<Rightarrow> jsval \<Rightarrow> publish_options \<Rightarrow> jsval option \<Rightarrow> rpc \<Rightarrow> rpc \<times> rpc_out list" where
  "request_call call key timeout options refused s =
     (case js_coalesce timeout (JNum default_timeout) of
        JNum (Fin t) \<Rightarrow>
          if t \<le> 0 then (s, [RpcSettled call (Inl (error_object ''RPC timeout must be a positive number of milliseconds''))])
          else (case refused of
                  Some e \<Rightarrow> (s, [RpcSettled call (Inl e)])
                | None \<Rightarrow> ensure_reply_consumer \<lparr>rq_call = call, rq_key = key, rq_timeout = t, rq_options = options\<rparr> s)
      | _ \<Rightarrow> (s, [RpcSettled call (Inl (error_object ''RPC timeout must be a positive number of milliseconds''))]))"

section \<open>The requester: events\<close>

datatype rpc_event =
    RequestCall nat string jsval publish_options "jsval option"
  | ReplyChannelReady "jsval + nat"
  | ReplyConsumed "jsval option"
  | RequestEncoded nat "jsval + (bytes \<times> bool)" rat
  | ReplyMessage "nat option" bool
  | ReplyDecoded nat "jsval + jsval"
  | ReplyCancelled nat
  | RequestReturned nat nat string
  | ReplyChannelClosed nat
  | RpcTimeout nat
  | RequestPublishFailed nat jsval
  | RpcConnectionLost string
  | RpcPool bool

fun rpc_step :: "rpc \<Rightarrow> rpc_event \<Rightarrow> rpc \<times> rpc_out list" where
  "rpc_step s (RequestCall call key timeout options refused) = request_call call key timeout options refused s"
| "rpc_step s (ReplyChannelReady r) = (case rp_setup s of
      Some su \<Rightarrow> if su_channel su = None then dedicated_ready r su s else (s, []) | None \<Rightarrow> (s, []))"
| "rpc_step s (ReplyConsumed err) = (case rp_setup s of
      Some su \<Rightarrow> (case su_channel su of Some ch \<Rightarrow> consume_ready err ch (su_epoch su) s | None \<Rightarrow> (s, []))
    | None \<Rightarrow> (s, []))"
| "rpc_step s (RequestEncoded task r now) = (case map_get (rp_encoding s) task of
      None \<Rightarrow> (s, [])
    | Some (rq, ch) \<Rightarrow> encoded_request r now rq ch (s\<lparr>rp_encoding := map_del task (rp_encoding s)\<rparr>))"
| "rpc_step s (ReplyMessage corr failed) = handle_reply corr failed s"
| "rpc_step s (ReplyDecoded task r) = decoded_reply task r s"
| "rpc_step s (ReplyCancelled ch) = invalidate_reply_channel ch ''reply consumer cancelled by the broker'' s"
| "rpc_step s (RequestReturned ch corr key) =
     (if ch \<in> set (rp_attached s) then settle_pending corr (rpc_error ''RPC_UNROUTABLE'' (''RPC request to '' @ key @ '' could not be routed to any queue'')) s else (s, []))"
| "rpc_step s (ReplyChannelClosed ch) =
     (if ch \<in> set (rp_attached s) then invalidate_reply_channel ch ''reply channel closed'' s else (s, []))"
| "rpc_step s (RpcTimeout corr) = (if corr \<in> set (rp_timers s) then timeout_fires corr s else (s, []))"
| "rpc_step s (RequestPublishFailed corr e) = settle_pending corr e s"
| "rpc_step s (RpcConnectionLost reason) = handle_connection_loss reason s"
| "rpc_step s (RpcPool b) = (s\<lparr>rp_pool := b\<rparr>, [])"

section \<open>Invariant\<close>

text \<open>
  A request in the map of pending requests has its timer armed, and only such requests have
  one; who waits for the setup waits for one in flight; an installed reply channel is the one
  whose close and returns are listened for, and no other channel is listened to.
\<close>

definition rpc_inv :: "rpc \<Rightarrow> bool" where
  "rpc_inv s \<longleftrightarrow> wf_map (rp_pending s) \<and> wf_map (rp_encoding s) \<and> wf_map (rp_decoding s) \<and>
     set (rp_timers s) = key_set (rp_pending s) \<and>
     key_set (rp_pending s) \<union> key_set (rp_encoding s) \<union> key_set (rp_decoding s) \<subseteq> {..<rp_next s} \<and>
     (rp_waiters s \<noteq> [] \<longrightarrow> rp_setup s \<noteq> None) \<and>
     rp_attached s = (case rp_reply s of Some ch \<Rightarrow> [ch] | None \<Rightarrow> []) \<and> rp_listeners s = rp_reply s \<and>
     (rp_setup s \<noteq> None \<longrightarrow> rp_reply s = None)"

lemma rpc_new_inv: "rpc_inv rpc_new"
  by (simp add: rpc_inv_def rpc_new_def)

lemma settle_pending_inv: "rpc_inv s \<Longrightarrow> rpc_inv (fst (settle_pending corr e s))"
  by (auto simp: rpc_inv_def settle_pending_def split: option.split)

lemma reject_all_inv: "rpc_inv s \<Longrightarrow> rpc_inv (fst (reject_all_pending reason s))"
  by (auto simp: rpc_inv_def reject_all_pending_def)

text \<open>The state after the reply route has been given up.\<close>

lemma detached_inv:
  assumes "rpc_inv s"
  shows "rpc_inv ((detach_reply_listeners s)\<lparr>rp_reply := None\<rparr>)"
  using assms by (auto simp: rpc_inv_def detach_reply_listeners_def split: option.splits)

lemma rpc_inv_epoch [simp]: "rpc_inv (s\<lparr>rp_epoch := n\<rparr>) = rpc_inv s" "rpc_inv (s\<lparr>rp_pool := b\<rparr>) = rpc_inv s"
  by (simp_all add: rpc_inv_def)

lemma connection_loss_inv: "rpc_inv s \<Longrightarrow> rpc_inv (fst (handle_connection_loss reason s))"
  unfolding handle_connection_loss_def by (intro reject_all_inv detached_inv) simp

lemma invalidate_inv: "rpc_inv s \<Longrightarrow> rpc_inv (fst (invalidate_reply_channel ch reason s))"
  by (simp add: invalidate_reply_channel_def reject_all_inv detached_inv)

lemma start_encoding_inv: "rpc_inv s \<Longrightarrow> rpc_inv (fst (start_encoding ch rq s))"
  by (auto simp: rpc_inv_def start_encoding_def lessThan_Suc)

lemma start_encodings_inv: "rpc_inv s \<Longrightarrow> rpc_inv (fst (start_encodings ch rqs s))"
  by (induction rqs arbitrary: s) (simp_all add: start_encoding_inv)

lemma setup_rejected_inv: "rpc_inv (s\<lparr>rp_setup := None, rp_waiters := []\<rparr>) \<Longrightarrow> rpc_inv (fst (setup_rejected e s))"
  by (simp add: setup_rejected_def)

lemma rpc_inv_setup_over: "rpc_inv s \<Longrightarrow> rpc_inv (s\<lparr>rp_setup := None, rp_waiters := []\<rparr>)"
  by (simp add: rpc_inv_def)

lemma ensure_inv: "rpc_inv s \<Longrightarrow> rpc_inv (fst (ensure_reply_consumer rq s))"
  by (auto simp: ensure_reply_consumer_def setup_reply_consumer_def setup_rejected_def start_encoding_inv Let_def split: option.split)
    (auto simp: rpc_inv_def)

lemma dedicated_ready_inv: "rpc_inv s \<Longrightarrow> rp_setup s = Some su \<Longrightarrow> rpc_inv (fst (dedicated_ready r su s))"
  by (auto simp: dedicated_ready_def setup_rejected_def rpc_inv_setup_over split: sum.split) (auto simp: rpc_inv_def)

lemma consume_ready_inv:
  assumes "rpc_inv s" "rp_setup s = Some su"
  shows "rpc_inv (fst (consume_ready err ch epoch s))"
proof (cases err)
  case None
  let ?s1 = "s\<lparr>rp_attached := ch # rp_attached s, rp_listeners := Some ch\<rparr>"
  have free: "rp_reply s = None" "rp_attached s = []" "rp_listeners s = None"
    using assms by (auto simp: rpc_inv_def)
  have "rpc_inv ((detach_reply_listeners ?s1)\<lparr>rp_setup := None, rp_waiters := []\<rparr>)"
    using assms free by (simp add: rpc_inv_def detach_reply_listeners_def)
  moreover have "rpc_inv (?s1\<lparr>rp_reply := Some ch, rp_setup := None, rp_waiters := []\<rparr>)"
    using assms free by (simp add: rpc_inv_def)
  ultimately show ?thesis
    using None by (simp add: consume_ready_def Let_def setup_rejected_def setup_resolved_def start_encodings_inv)
qed (use assms in \<open>simp add: consume_ready_def setup_rejected_def rpc_inv_setup_over\<close>)

lemma encoded_request_inv: "rpc_inv s \<Longrightarrow> rpc_inv (fst (encoded_request r now rq ch s))"
  by (auto simp: encoded_request_def rpc_inv_def Let_def lessThan_Suc split: sum.split)

lemma rpc_inv_encoding: "rpc_inv s \<Longrightarrow> rpc_inv (s\<lparr>rp_encoding := map_del task (rp_encoding s)\<rparr>)"
  by (auto simp: rpc_inv_def)

lemma timeout_inv: "rpc_inv s \<Longrightarrow> rpc_inv (fst (timeout_fires corr s))"
  by (auto simp: timeout_fires_def rpc_inv_def Let_def split: option.split)

lemma handle_reply_inv: "rpc_inv s \<Longrightarrow> rpc_inv (fst (handle_reply corr failed s))"
  by (auto simp: handle_reply_def rpc_inv_def lessThan_Suc split: option.split)

lemma decoded_reply_inv: "rpc_inv s \<Longrightarrow> rpc_inv (fst (decoded_reply task r s))"
  by (auto simp: decoded_reply_def rpc_inv_def split: option.split)

lemma request_call_inv: "rpc_inv s \<Longrightarrow> rpc_inv (fst (request_call call key timeout options refused s))"
  by (auto simp: request_call_def ensure_inv split: jsval.split jsnum.split option.split)

lemma rpc_step_inv: "rpc_inv s \<Longrightarrow> rpc_inv (fst (rpc_step s e))"
  by (cases e) (auto simp: request_call_inv dedicated_ready_inv consume_ready_inv encoded_request_inv rpc_inv_encoding
      handle_reply_inv decoded_reply_inv invalidate_inv settle_pending_inv timeout_inv connection_loss_inv
      split: option.split)

interpretation rpm: event_machine rpc_step "\<lambda>e. True" rpc_inv
  by unfold_locales (rule rpc_step_inv)

section \<open>Every request settles exactly once\<close>

abbreviation calls_of_map :: "('k, rpc_request \<times> 'a) jsmap \<Rightarrow> nat multiset" where
  "calls_of_map m \<equiv> image_mset (\<lambda>(rq, x). rq_call rq) (vals_of m)"

definition rpc_tracked :: "rpc \<Rightarrow> nat multiset" where
  "rpc_tracked s = mset (map rq_call (rp_waiters s)) + calls_of_map (rp_encoding s) +
     image_mset rq_call (vals_of (rp_pending s)) + calls_of_map (rp_decoding s)"

fun rpc_entered :: "rpc \<Rightarrow> rpc_event \<Rightarrow> nat multiset" where
  "rpc_entered s (RequestCall call key timeout options refused) = {#call#}"
| "rpc_entered s _ = {#}"

fun rpc_settles :: "rpc_out \<Rightarrow> nat multiset" where
  "rpc_settles (RpcSettled call r) = {#call#}"
| "rpc_settles _ = {#}"

abbreviation rpc_done :: "rpc_out list \<Rightarrow> nat multiset" where
  "rpc_done out \<equiv> total_settled rpc_settles out"

lemma rpc_done_rejects [simp]:
  "rpc_settles (reject_call e rq) = {#rq_call rq#}"
  "rpc_done (map (reject_call e) rqs) = mset (map rq_call rqs)"
proof -
  show "rpc_settles (reject_call e rq) = {#rq_call rq#}" for e rq by (simp add: reject_call_def)
  then show "rpc_done (map (reject_call e) rqs) = mset (map rq_call rqs)" by (induction rqs) simp_all
qed

lemma settle_pending_conserves:
  "rpc_inv s \<Longrightarrow> rpc_tracked s = rpc_tracked (fst (settle_pending corr e s)) + rpc_done (snd (settle_pending corr e s))"
  by (auto simp: settle_pending_def rpc_tracked_def rpc_inv_def split: option.split dest!: vals_del)

lemma rejects_map: "rpc_done (map (\<lambda>(corr, rq). reject_call e rq) m) = image_mset rq_call (vals_of m)"
  by (induction m) auto

lemma reject_all_conserves:
  "rpc_tracked s = rpc_tracked (fst (reject_all_pending reason s)) + rpc_done (snd (reject_all_pending reason s))"
  unfolding reject_all_pending_def snd_conv fst_conv rejects_map by (simp add: rpc_tracked_def)

lemma rpc_tracked_update [simp]:
  "rpc_tracked (detach_reply_listeners s) = rpc_tracked s" "rpc_tracked (s\<lparr>rp_reply := r\<rparr>) = rpc_tracked s"
  "rpc_tracked (s\<lparr>rp_epoch := n\<rparr>) = rpc_tracked s" "rpc_tracked (s\<lparr>rp_pool := b\<rparr>) = rpc_tracked s"
  "rpc_tracked (s\<lparr>rp_attached := a, rp_listeners := l\<rparr>) = rpc_tracked s"
  "rpc_tracked (s\<lparr>rp_setup := su\<rparr>) = rpc_tracked s"
  by (simp_all add: rpc_tracked_def detach_reply_listeners_def split: option.split)

lemma vals_new_key: "key_set m \<subseteq> {..<(n::nat)} \<Longrightarrow> vals_of (map_set n v m) = add_mset v (vals_of m)"
proof (rule vals_set_new)
  assume "key_set m \<subseteq> {..<n}"
  moreover have "n \<notin> {..<n}" by simp
  ultimately show "n \<notin> key_set m" by blast
qed

lemma start_encoding_conserves:
  "rpc_inv s \<Longrightarrow> rpc_tracked s + {#rq_call rq#} = rpc_tracked (fst (start_encoding ch rq s)) + rpc_done (snd (start_encoding ch rq s))"
  by (simp add: start_encoding_def rpc_tracked_def vals_new_key rpc_inv_def)

lemma start_encodings_conserves:
  "rpc_inv s \<Longrightarrow> rpc_tracked s + mset (map rq_call rqs) =
     rpc_tracked (fst (start_encodings ch rqs s)) + rpc_done (snd (start_encodings ch rqs s))"
proof (induction rqs arbitrary: s)
  case (Cons rq rqs)
  let ?s1 = "fst (start_encoding ch rq s)"
  let ?r2 = "start_encodings ch rqs ?s1"
  have "rpc_tracked s + mset (map rq_call (rq # rqs)) = (rpc_tracked s + {#rq_call rq#}) + mset (map rq_call rqs)" by simp
  also have "\<dots> = (rpc_tracked ?s1 + mset (map rq_call rqs)) + rpc_done (snd (start_encoding ch rq s))"
    unfolding start_encoding_conserves [OF Cons.prems, of rq ch] by (simp add: ac_simps)
  also have "\<dots> = rpc_tracked (fst ?r2) + (rpc_done (snd (start_encoding ch rq s)) + rpc_done (snd ?r2))"
    unfolding Cons.IH [OF start_encoding_inv [OF Cons.prems, of ch rq]] by (simp add: ac_simps)
  finally show ?case by simp
qed simp

lemma waiters_out:
  "rpc_tracked s = rpc_tracked (s\<lparr>rp_setup := None, rp_waiters := []\<rparr>) + mset (map rq_call (rp_waiters s))"
  by (simp add: rpc_tracked_def)

lemma setup_rejected_conserves:
  "rpc_tracked s = rpc_tracked (fst (setup_rejected e s)) + rpc_done (snd (setup_rejected e s))"
  using waiters_out [of s] by (simp add: setup_rejected_def)

lemma setup_resolved_conserves:
  "rpc_inv (s\<lparr>rp_setup := None, rp_waiters := []\<rparr>) \<Longrightarrow>
     rpc_tracked s = rpc_tracked (fst (setup_resolved ch s)) + rpc_done (snd (setup_resolved ch s))"
  using start_encodings_conserves [of "s\<lparr>rp_setup := None, rp_waiters := []\<rparr>" "rp_waiters s" ch] waiters_out [of s]
  by (simp add: setup_resolved_def)

lemma ensure_conserves:
  assumes "rpc_inv s"
  shows "rpc_tracked s + {#rq_call rq#} = rpc_tracked (fst (ensure_reply_consumer rq s)) + rpc_done (snd (ensure_reply_consumer rq s))"
proof (cases "rp_reply s")
  case None
  let ?s1 = "s\<lparr>rp_waiters := rp_waiters s @ [rq]\<rparr>"
  have "rpc_tracked ?s1 = rpc_tracked s + {#rq_call rq#}" by (simp add: rpc_tracked_def)
  with None setup_rejected_conserves [of ?s1] show ?thesis
    by (simp add: ensure_reply_consumer_def Let_def setup_reply_consumer_def)
next
  case (Some ch)
  with start_encoding_conserves [OF assms] show ?thesis by (simp add: ensure_reply_consumer_def)
qed

lemma consume_ready_conserves:
  assumes "rpc_inv s" "rp_setup s = Some su"
  shows "rpc_tracked s = rpc_tracked (fst (consume_ready err ch epoch s)) + rpc_done (snd (consume_ready err ch epoch s))"
proof (cases err)
  case None
  let ?s1 = "s\<lparr>rp_attached := ch # rp_attached s, rp_listeners := Some ch\<rparr>"
  have "rpc_inv (?s1\<lparr>rp_reply := Some ch, rp_setup := None, rp_waiters := []\<rparr>)"
    using assms by (auto simp: rpc_inv_def)
  from setup_resolved_conserves [of "?s1\<lparr>rp_reply := Some ch\<rparr>", OF this]
    setup_rejected_conserves [of "detach_reply_listeners ?s1" lost_in_setup]
  show ?thesis using None by (simp add: consume_ready_def Let_def)
qed (simp add: consume_ready_def setup_rejected_conserves)

lemma vals_remove: "wf_map m \<Longrightarrow> map_get m k = Some v \<Longrightarrow> vals_of m = add_mset v (vals_of (map_del k m))"
  by (rule vals_del)

lemma encoded_conserves:
  assumes "rpc_inv s" "map_get (rp_encoding s) task = Some (rq, ch)"
  shows "rpc_tracked s = rpc_tracked (fst (encoded_request r now rq ch (s\<lparr>rp_encoding := map_del task (rp_encoding s)\<rparr>))) +
    rpc_done (snd (encoded_request r now rq ch (s\<lparr>rp_encoding := map_del task (rp_encoding s)\<rparr>)))"
  using assms vals_remove [of "rp_encoding s" task]
  by (auto simp: encoded_request_def rpc_tracked_def rpc_inv_def Let_def vals_new_key split: sum.split)

lemma timeout_conserves:
  "rpc_inv s \<Longrightarrow> corr \<in> set (rp_timers s) \<Longrightarrow>
     rpc_tracked s = rpc_tracked (fst (timeout_fires corr s)) + rpc_done (snd (timeout_fires corr s))"
  by (auto simp: timeout_fires_def rpc_tracked_def rpc_inv_def Let_def map_del_absent map_get_None split: option.split dest!: vals_del)

lemma handle_reply_conserves:
  "rpc_inv s \<Longrightarrow> rpc_tracked s = rpc_tracked (fst (handle_reply corr failed s)) + rpc_done (snd (handle_reply corr failed s))"
  by (auto simp: handle_reply_def rpc_tracked_def rpc_inv_def vals_new_key split: option.split dest!: vals_del)

lemma decoded_conserves:
  "rpc_inv s \<Longrightarrow> rpc_tracked s = rpc_tracked (fst (decoded_reply task r s)) + rpc_done (snd (decoded_reply task r s))"
  by (auto simp: decoded_reply_def rpc_tracked_def rpc_inv_def split: option.split dest!: vals_del)

lemma request_call_cases:
  obtains r where "request_call call key timeout options refused s = (s, [RpcSettled call r])"
  | rq where "rq_call rq = call" "request_call call key timeout options refused s = ensure_reply_consumer rq s"
proof (cases "\<exists>t. js_coalesce timeout (JNum default_timeout) = JNum (Fin t) \<and> \<not> t \<le> 0")
  case True
  then obtain t where t: "js_coalesce timeout (JNum default_timeout) = JNum (Fin t)" "\<not> t \<le> 0" by blast
  show thesis
  proof (cases refused)
    case None
    with t show thesis
      by (intro that(2) [of "\<lparr>rq_call = call, rq_key = key, rq_timeout = t, rq_options = options\<rparr>"])
        (simp_all add: request_call_def)
  next
    case (Some e)
    with t show thesis by (intro that(1)) (simp add: request_call_def)
  qed
next
  case False
  then show thesis
    by (intro that(1)) (auto simp: request_call_def split: jsval.split jsnum.split)
qed

lemma rpc_step_conserves:
  assumes "rpc_inv s"
  shows "rpc_tracked s + rpc_entered s e = rpc_tracked (fst (rpc_step s e)) + rpc_done (snd (rpc_step s e))"
proof (cases e)
  case (RequestCall call key timeout options refused)
  show ?thesis
  proof (cases rule: request_call_cases [of call key timeout options refused s])
    case (2 rq)
    with ensure_conserves [OF assms, of rq] RequestCall show ?thesis by simp
  qed (simp add: RequestCall)
next
  case (ReplyConsumed err)
  with consume_ready_conserves [OF assms] show ?thesis by (auto split: option.split)
next
  case (ReplyChannelReady r)
  with setup_rejected_conserves [of s] show ?thesis by (auto simp: dedicated_ready_def split: option.split sum.split)
next
  case (RequestEncoded task r now)
  with encoded_conserves [OF assms] show ?thesis by (auto split: option.split)
qed (use assms reject_all_conserves [of "(detach_reply_listeners s)\<lparr>rp_reply := None\<rparr>"]
     reject_all_conserves [of "(detach_reply_listeners (s\<lparr>rp_epoch := Suc (rp_epoch s)\<rparr>))\<lparr>rp_reply := None\<rparr>"] in
   \<open>auto simp: settle_pending_conserves handle_reply_conserves decoded_conserves timeout_conserves
     invalidate_reply_channel_def handle_connection_loss_def simp del: rpc_done_rejects\<close>)

interpretation rpl: ledger_machine rpc_step "\<lambda>e. True" rpc_inv rpc_tracked rpc_entered rpc_settles
  by unfold_locales (rule rpc_step_conserves)

text \<open>
  C3: No request is lost, answered twice or left without an end. In every interleaving of requests,
  setups, encodings, replies, returns, timeouts, failed publications, cancellations and
  connection losses: the calls made are exactly the calls settled plus those on their way
  (waiting for the reply consumer, being encoded, registered, or having their reply decoded),
  each once; and every registered request has its timer armed, whose firing settles it.
\<close>

theorem rpc_settles_every_request:
  fixes es :: "rpc_event list"
  defines "r \<equiv> run_machine rpc_step rpc_new es"
  shows "total_entered rpc_step rpc_entered rpc_new es = rpc_tracked (fst r) + total_settled rpc_settles (snd r) \<and>
    (\<forall>corr. map_has (rp_pending (fst r)) corr \<longleftrightarrow> corr \<in> set (rp_timers (fst r))) \<and>
    (\<forall>corr rq. map_get (rp_pending (fst r)) corr = Some rq \<longrightarrow>
       (\<exists>e. snd (rpc_step (fst r) (RpcTimeout corr)) = [RpcSettled (rq_call rq) (Inl e)]))"
proof -
  have inv: "rpc_inv (fst r)" unfolding r_def by (rule rpm.run_inv) (simp_all add: rpc_new_inv list_all_iff)
  then have timers: "map_has (rp_pending (fst r)) corr \<longleftrightarrow> corr \<in> set (rp_timers (fst r))" for corr
    by (simp add: rpc_inv_def map_has_key)
  moreover have "\<exists>e. snd (rpc_step (fst r) (RpcTimeout corr)) = [RpcSettled (rq_call rq) (Inl e)]"
    if "map_get (rp_pending (fst r)) corr = Some rq" for corr rq
    using that timers [of corr] by (simp add: timeout_fires_def Let_def reject_call_def map_has_def)
  moreover have "rpc_tracked rpc_new = {#}" by (simp add: rpc_tracked_def rpc_new_def)
  ultimately show ?thesis
    using rpl.run_conserves [OF rpc_new_inv, of es] by (simp add: list_all_iff r_def)
qed

definition sample_request :: "nat \<Rightarrow> rpc_event" where
  "sample_request n = RequestCall n ''k'' (JNum (Fin 5)) sample_publish_options None"

theorem rpc_settles_every_request_witness:
  "let r = run_machine rpc_step rpc_new [RpcPool True, sample_request 1, sample_request 2, ReplyChannelReady (Inr 0),
        ReplyConsumed None, RequestEncoded 0 (Inr ([], False)) 10, RequestEncoded 1 (Inr ([], False)) 10, ReplyMessage (Some 2) False]
   in rpc_tracked (fst r) = {#1, 2#} \<and> total_settled rpc_settles (snd r) = {#} \<and>
      (\<exists>e. snd (rpc_step (fst r) (RpcTimeout 3)) = [RpcSettled 2 (Inl e)])"
proof -
  define es where "es = [RpcPool True, sample_request 1, sample_request 2, ReplyChannelReady (Inr 0),
        ReplyConsumed None, RequestEncoded 0 (Inr ([], False)) 10, RequestEncoded 1 (Inr ([], False)) 10, ReplyMessage (Some 2) False]"
  define r where "r = run_machine rpc_step rpc_new es"
  have "total_settled rpc_settles (snd r) = {#}"
    "map_option rq_call (map_get (rp_pending (fst r)) 3) = Some 2"
    unfolding r_def es_def by code_simp+
  moreover have "total_entered rpc_step rpc_entered rpc_new es = {#1, 2#}"
    unfolding es_def sample_request_def by (simp only: total_entered.simps rpc_entered.simps) simp
  moreover from calculation(2) obtain rq where rq: "map_get (rp_pending (fst r)) 3 = Some rq" "rq_call rq = 2" by auto
  moreover from rpc_settles_every_request [of es] rq
  have "\<exists>e. snd (rpc_step (fst r) (RpcTimeout 3)) = [RpcSettled 2 (Inl e)]"
    unfolding r_def [symmetric] by metis
  moreover from rpc_settles_every_request [of es]
  have "total_entered rpc_step rpc_entered rpc_new es = rpc_tracked (fst r) + total_settled rpc_settles (snd r)"
    unfolding r_def [symmetric] by blast
  ultimately show ?thesis
    unfolding Let_def es_def [symmetric] r_def [symmetric] by simp
qed

text \<open>
  C17: The reply route is fenced by the connection. Losing the connection rejects every registered
  request with \<open>RPC_CONNECTION_LOST\<close>, and nobody else, cancels the timers, removes the reply
  route with its listeners and makes every setup in flight stale;
  a setup that completes installs its channel exactly if the connection is still the one it
  started on, and otherwise rejects everyone who waits for it. A reply route that is installed
  is listened to, so its loss is noticed, and no other channel is.
\<close>

theorem reply_route_fenced:
  fixes es :: "rpc_event list"
  defines "s \<equiv> fst (run_machine rpc_step rpc_new es)"
  shows "rp_attached s = (case rp_reply s of Some ch \<Rightarrow> [ch] | None \<Rightarrow> []) \<and>
    (let (q, out) = rpc_step s (RpcConnectionLost reason)
     in out = map (\<lambda>(corr, rq). RpcSettled (rq_call rq)
            (Inl (rpc_error ''RPC_CONNECTION_LOST'' (''RPC request aborted: '' @ reason)))) (rp_pending s) \<and>
        rp_pending q = [] \<and> rp_timers q = [] \<and> rp_reply q = None \<and> rp_attached q = [] \<and>
        (\<forall>su. rp_setup q = Some su \<longrightarrow> su_epoch su < rp_epoch q)) \<and>
    (\<forall>su ch. rp_setup s = Some su \<and> su_channel su = Some ch \<longrightarrow>
       (let (q, out) = rpc_step s (ReplyConsumed None)
        in rp_setup q = None \<and> rp_waiters q = [] \<and>
           (if su_epoch su = rp_epoch s then rp_reply q = Some ch
            else rp_reply q = None \<and> rp_attached q = [] \<and> out = map (reject_call lost_in_setup) (rp_waiters s))))"
proof -
  have start: "rp_setup (fst (start_encodings ch rqs q)) = rp_setup q \<and> rp_waiters (fst (start_encodings ch rqs q)) = rp_waiters q \<and>
      rp_reply (fst (start_encodings ch rqs q)) = rp_reply q \<and> rp_epoch (fst (start_encodings ch rqs q)) = rp_epoch q" for ch rqs q
    by (induction rqs arbitrary: q) (simp_all add: start_encoding_def)
  let ?fresh = "\<lambda>s. \<forall>su. rp_setup s = Some su \<longrightarrow> su_epoch su \<le> rp_epoch s"
  have "?fresh (fst (rpc_step q e))" if "?fresh q" for q e
    using that start
    by (cases e) (auto simp: request_call_def ensure_reply_consumer_def setup_reply_consumer_def setup_rejected_def
        setup_resolved_def dedicated_ready_def consume_ready_def start_encoding_def encoded_request_def handle_reply_def
        decoded_reply_def invalidate_reply_channel_def handle_connection_loss_def reject_all_pending_def settle_pending_def
        detach_reply_listeners_def timeout_fires_def Let_def
        split: option.splits jsval.splits jsnum.splits sum.splits if_splits)
  then have "?fresh q \<Longrightarrow> ?fresh (fst (run_machine rpc_step q es))" for q
    by (induction es arbitrary: q) auto
  then have fresh: "?fresh s" unfolding s_def by (simp add: rpc_new_def)
  have inv: "rpc_inv s" unfolding s_def by (rule rpm.run_inv) (simp_all add: rpc_new_inv list_all_iff)
  have lost: "let (q, out) = rpc_step s (RpcConnectionLost reason)
     in out = map (\<lambda>(corr, rq). RpcSettled (rq_call rq)
            (Inl (rpc_error ''RPC_CONNECTION_LOST'' (''RPC request aborted: '' @ reason)))) (rp_pending s) \<and>
        rp_pending q = [] \<and> rp_timers q = [] \<and> rp_reply q = None \<and> rp_attached q = [] \<and>
        (\<forall>su. rp_setup q = Some su \<longrightarrow> su_epoch su < rp_epoch q)"
    using fresh inv
    by (auto simp: Let_def handle_connection_loss_def reject_all_pending_def reject_call_def detach_reply_listeners_def rpc_inv_def
        filter_empty_conv split: option.splits)
  have "let (q, out) = rpc_step s (ReplyConsumed None)
        in rp_setup q = None \<and> rp_waiters q = [] \<and>
           (if su_epoch su = rp_epoch s then rp_reply q = Some ch
            else rp_reply q = None \<and> rp_attached q = [] \<and> out = map (reject_call lost_in_setup) (rp_waiters s))"
    if "rp_setup s = Some su" "su_channel su = Some ch" for su ch
    using that inv start
    by (simp add: split_def Let_def consume_ready_def setup_resolved_def setup_rejected_def detach_reply_listeners_def rpc_inv_def)
  then show ?thesis using inv lost by (simp add: rpc_inv_def)
qed

theorem reply_route_fenced_witness:
  "let s = fst (run_machine rpc_step rpc_new [RpcPool True, sample_request 1, ReplyChannelReady (Inr 0), RpcConnectionLost ''x''])
   in rp_reply (fst (rpc_step s (ReplyConsumed None))) = None \<and>
      snd (rpc_step s (ReplyConsumed None)) = map (reject_call lost_in_setup) (rp_waiters s) \<and> rp_waiters s \<noteq> []"
proof -
  define es where "es = [RpcPool True, sample_request 1, ReplyChannelReady (Inr 0), RpcConnectionLost ''x'']"
  define s where "s = fst (run_machine rpc_step rpc_new es)"
  have "rp_setup s = Some \<lparr>su_epoch = 0, su_channel = Some 0\<rparr>" "rp_epoch s = 1" "rp_waiters s \<noteq> []"
    unfolding s_def es_def by code_simp+
  then show ?thesis
    using reply_route_fenced [of es] unfolding Let_def es_def [symmetric] s_def [symmetric] by (auto simp: split_def)
qed

section \<open>The responder\<close>

record reply_message =
  rm_to :: string
  rm_correlation :: "string option"
  rm_content :: bytes
  rm_headers :: wire_options

text \<open>
  \<open>#publishReply\<close>: \<open>channel\<close> is what \<open>getChannel\<close> gives, \<open>answer\<close> what becomes of the
  publication. The result is the error it throws, if any.
\<close>

definition publish_reply :: "platform \<Rightarrow> codec \<Rightarrow> jsval + nat \<Rightarrow> confirm_answer \<Rightarrow> string \<Rightarrow> string option \<Rightarrow> message \<Rightarrow>
    (string \<times> jsval) list \<Rightarrow> reply_message list \<times> jsval option" where
  "publish_reply pf c channel answer reply_to corr payload extra =
     (case channel of
        Inl e \<Rightarrow> ([], Some e)
      | Inr ch \<Rightarrow>
          (case encode pf c (if payload = MValue JUndef then MValue JNull else payload) of
             Inl e \<Rightarrow> ([], Some e)
           | Inr (content, compressed) \<Rightarrow>
               (let rm = \<lparr>rm_to = reply_to, rm_correlation = corr, rm_content = content,
                          rm_headers = spread [(''x-compressed'', JBool compressed)] extra\<rparr>
                in case answer of
                     PublishThrows e \<Rightarrow> ([], Some e)
                   | Nacked err \<Rightarrow> ([rm], Some (not_confirmed_error err))
                   | _ \<Rightarrow> ([rm], None))))"

text \<open>
  What surrounds a call of the responder: its codec, the application's handler (which may throw
  or return a value), the clock and the two publications it may make.
\<close>

record responder =
  rs_platform :: platform
  rs_codec :: codec
  rs_queue :: string
  rs_reply_on_error :: bool
  rs_handler :: "jsval \<Rightarrow> delivery \<Rightarrow> jsval + message"
  rs_now :: rat
  rs_channel :: "nat \<Rightarrow> jsval + nat"
  rs_answer :: "nat \<Rightarrow> confirm_answer"

definition error_flag :: "(string \<times> jsval) list" where
  "error_flag = [(''x-rpc-error'', JBool True)]"

text \<open>The envelope after a reply that could not be published; the result is what escapes.\<close>

definition reply_fallback :: "responder \<Rightarrow> string \<Rightarrow> string option \<Rightarrow> jsval \<Rightarrow> reply_message list \<times> jsval option" where
  "reply_fallback rs reply_to corr error =
     (case describe_line (''Failed to publish RPC reply on queue '' @ rs_queue rs @ '': '') error of
        Inl escaped \<Rightarrow> ([], Some escaped)
      | Inr line \<Rightarrow>
          (case (case describe_line ''Failed to publish RPC reply: '' error of
                   Inl e \<Rightarrow> ([], Some e)
                 | Inr text \<Rightarrow> publish_reply (rs_platform rs) (rs_codec rs) (rs_channel rs 1) (rs_answer rs 1) reply_to corr
                     (MValue (error_object text)) error_flag) of
             (sent, None) \<Rightarrow> (sent, None)
           | (sent, Some envelope_error) \<Rightarrow>
               (case describe_line (''Failed to publish RPC error envelope on queue '' @ rs_queue rs @ '': '') envelope_error of
                  Inl escaped \<Rightarrow> (sent, Some escaped) | Inr line \<Rightarrow> (sent, None))))"

text \<open>
  The callback of \<open>respond\<close> on a delivery with its decoded content: whether the handler was
  called, the replies published, and the error that reaches the consume pipeline.
\<close>

definition respond_delivery :: "responder \<Rightarrow> jsval \<Rightarrow> delivery \<Rightarrow> bool \<times> reply_message list \<times> jsval option" where
  "respond_delivery rs content d =
     (let deadline = js_Number (dl_header d ''x-rpc-deadline'')
      in if truthy (JNum deadline) \<and> num_lt deadline (Fin (rs_now rs)) then (False, [], None)
         else case given (dl_reply_to d) of
                None \<Rightarrow> (True, [], (case rs_handler rs content d of Inl e \<Rightarrow> Some e | Inr v \<Rightarrow> None))
              | Some reply_to \<Rightarrow>
                  (case rs_handler rs content d of
                     Inl error \<Rightarrow>
                       if \<not> rs_reply_on_error rs then (True, [], Some error)
                       else (case describe_error error of
                               Inl escaped \<Rightarrow> (True, [], Some escaped)
                             | Inr text \<Rightarrow> (True, publish_reply (rs_platform rs) (rs_codec rs) (rs_channel rs 0) (rs_answer rs 0) reply_to
                                 (dl_correlation_id d) (MValue (JObj True [(''message'', text)])) error_flag))
                   | Inr result \<Rightarrow>
                       (case publish_reply (rs_platform rs) (rs_codec rs) (rs_channel rs 0) (rs_answer rs 0) reply_to
                               (dl_correlation_id d) result [] of
                          (sent, None) \<Rightarrow> (True, sent, None)
                        | (sent, Some error) \<Rightarrow> (case reply_fallback rs reply_to (dl_correlation_id d) error of
                            (sent', r) \<Rightarrow> (True, sent @ sent', r)))))"

text \<open>What the requester makes of a reply: the flags of its headers, and the decoded content.\<close>

definition receive_reply :: "platform \<Rightarrow> codec \<Rightarrow> reply_message \<Rightarrow> jsval + jsval" where
  "receive_reply pf c rm =
     reply_outcome (truthy (field (rm_headers rm) ''x-rpc-error''))
       (decode pf c (rm_content rm) (truthy (field (rm_headers rm) ''x-compressed'')))"

section \<open>What the responder guarantees\<close>

lemma publish_reply_messages:
  "rm \<in> set (fst (publish_reply pf c channel answer reply_to corr payload extra)) \<Longrightarrow> rm_to rm = reply_to \<and> rm_correlation rm = corr"
  by (auto simp: publish_reply_def Let_def split: sum.splits confirm_answer.splits if_splits)

lemma publish_reply_sent:
  "publish_reply pf c channel answer reply_to corr payload extra = (sent, r) \<Longrightarrow> rm \<in> set sent \<Longrightarrow>
     rm_to rm = reply_to \<and> rm_correlation rm = corr"
  using publish_reply_messages [of rm pf c channel answer reply_to corr payload extra] by simp

lemma reply_fallback_messages:
  "rm \<in> set (fst (reply_fallback rs reply_to corr error)) \<Longrightarrow> rm_to rm = reply_to \<and> rm_correlation rm = corr"
  by (auto simp: reply_fallback_def split: sum.splits prod.splits option.splits dest: publish_reply_sent)

lemma reply_fallback_contained:
  assumes "describable error"
    and "\<And>text e. snd (publish_reply (rs_platform rs) (rs_codec rs) (rs_channel rs 1) (rs_answer rs 1) reply_to corr
      (MValue (error_object text)) error_flag) = Some e \<Longrightarrow> describable e"
  shows "snd (reply_fallback rs reply_to corr error) = None"
proof -
  obtain line msg where lines: "describe_line (''Failed to publish RPC reply on queue '' @ rs_queue rs @ '': '') error = Inr line"
    "describe_line ''Failed to publish RPC reply: '' error = Inr msg"
    using describable_line [OF assms(1)] by blast
  show ?thesis
  proof (cases "publish_reply (rs_platform rs) (rs_codec rs) (rs_channel rs 1) (rs_answer rs 1) reply_to corr (MValue (error_object msg)) error_flag")
    case (Pair sent r)
    show ?thesis
    proof (cases r)
      case None
      with Pair lines show ?thesis by (simp add: reply_fallback_def)
    next
      case (Some e)
      with Pair assms(2) [of msg e] have "describable e" by simp
      from describable_line [OF this] obtain l where
        "describe_line (''Failed to publish RPC error envelope on queue '' @ rs_queue rs @ '': '') e = Inr l" by blast
      with Pair Some lines show ?thesis by (simp add: reply_fallback_def)
    qed
  qed
qed

text \<open>
  C18: A request whose handler succeeded is never dead-lettered by its reply. If the errors of the
  transport and the serializer can be described: a stale request is dropped without running
  the handler; a handler that returned makes the callback return, whatever becomes of the
  reply, so the request is acknowledged; without \<open>replyOnError\<close> a handler's error reaches the
  pipeline unchanged and nothing is sent; and every reply goes to the requester's route with
  the request's correlation id.
\<close>

theorem responder_contract:
  assumes "\<forall>i payload extra e. snd (publish_reply (rs_platform rs) (rs_codec rs) (rs_channel rs i) (rs_answer rs i) reply_to (dl_correlation_id d) payload extra) = Some e \<longrightarrow> describable e"
    and "dl_reply_to d = Some reply_to" "reply_to \<noteq> []"
  shows "(num_lt (js_Number (dl_header d ''x-rpc-deadline'')) (Fin (rs_now rs)) \<and> js_Number (dl_header d ''x-rpc-deadline'') \<noteq> Fin 0 \<longrightarrow>
      respond_delivery rs content d = (False, [], None)) \<and>
    (\<forall>v. rs_handler rs content d = Inr v \<longrightarrow> snd (snd (respond_delivery rs content d)) = None) \<and>
    (\<forall>e. rs_handler rs content d = Inl e \<and> \<not> rs_reply_on_error rs \<and> fst (respond_delivery rs content d) \<longrightarrow>
       snd (respond_delivery rs content d) = ([], Some e)) \<and>
    (\<forall>rm \<in> set (fst (snd (respond_delivery rs content d))). rm_to rm = reply_to \<and> rm_correlation rm = dl_correlation_id d)"
proof -
  let ?reply = "publish_reply (rs_platform rs) (rs_codec rs) (rs_channel rs 0) (rs_answer rs 0) reply_to (dl_correlation_id d)"
  let ?fall = "reply_fallback rs reply_to (dl_correlation_id d)"
  have g: "given (dl_reply_to d) = Some reply_to" using assms(2,3) by simp
  have stale: "num_lt x y \<Longrightarrow> x \<noteq> NaN" for x y by (cases x) auto
  have fallback: "snd (?fall error) = None" if "snd (?reply v extra) = Some error" for error v extra
  proof (rule reply_fallback_contained)
    show "describable error" using assms(1) that by blast
    show "\<And>text e. snd (publish_reply (rs_platform rs) (rs_codec rs) (rs_channel rs 1) (rs_answer rs 1) reply_to (dl_correlation_id d)
      (MValue (error_object text)) error_flag) = Some e \<Longrightarrow> describable e"
      using assms(1) by blast
  qed
  have success: "snd (snd (respond_delivery rs content d)) = None" if "rs_handler rs content d = Inr v" for v
  proof (cases "?reply v []")
    case (Pair sent r)
    then show ?thesis
      using that g fallback [of v "[]"] by (cases r) (auto simp: respond_delivery_def Let_def split: prod.splits)
  qed
  have messages: "rm_to rm = reply_to \<and> rm_correlation rm = dl_correlation_id d"
    if rm: "rm \<in> set (fst (snd (respond_delivery rs content d)))" for rm
  proof (cases "rs_handler rs content d")
    case (Inl e)
    with rm g publish_reply_messages show ?thesis
      by (auto simp: respond_delivery_def Let_def split: if_splits sum.splits)
  next
    case (Inr v)
    obtain sent r where reply: "?reply v [] = (sent, r)" by fastforce
    with publish_reply_messages have sent: "x \<in> set sent \<Longrightarrow> rm_to x = reply_to \<and> rm_correlation x = dl_correlation_id d" for x
      by (metis fst_conv)
    show ?thesis
    proof (cases r)
      case None
      with rm g Inr reply sent show ?thesis by (auto simp: respond_delivery_def Let_def split: if_splits)
    next
      case (Some error)
      with rm g Inr reply have "rm \<in> set sent \<or> rm \<in> set (fst (?fall error))"
        by (auto simp: respond_delivery_def Let_def split: if_splits prod.splits)
      with sent reply_fallback_messages show ?thesis by blast
    qed
  qed
  have "num_lt (js_Number (dl_header d ''x-rpc-deadline'')) (Fin (rs_now rs)) \<and> js_Number (dl_header d ''x-rpc-deadline'') \<noteq> Fin 0 \<longrightarrow>
      respond_delivery rs content d = (False, [], None)"
    using stale by (auto simp: respond_delivery_def Let_def)
  moreover have "\<forall>e. rs_handler rs content d = Inl e \<and> \<not> rs_reply_on_error rs \<and> fst (respond_delivery rs content d) \<longrightarrow>
       snd (respond_delivery rs content d) = ([], Some e)"
    using g by (auto simp: respond_delivery_def Let_def)
  ultimately show ?thesis using success messages by blast
qed

definition sample_responder :: responder where
  "sample_responder = \<lparr>rs_platform = sample_platform, rs_codec = sample_codec, rs_queue = ''q'', rs_reply_on_error = False,
     rs_handler = (\<lambda>content d. if content = JNull then Inl (JNum (Fin 1)) else Inr (MValue content)), rs_now = 0,
     rs_channel = (\<lambda>i. Inr 0), rs_answer = (\<lambda>i. if i = 0 then Nacked JNull else Acked)\<rparr>"

definition sample_rpc_delivery :: delivery where
  "sample_rpc_delivery = (plain_delivery 1)\<lparr>dl_reply_to := Some ''r'', dl_correlation_id := Some ''7''\<rparr>"

lemma sample_encode_errors:
  assumes "encode sample_platform sample_codec m = Inl e" shows "e = JNull \<or> e = error_object ''Message must not be undefined.''"
proof (cases m)
  case (MValue v)
  with assms show ?thesis
    by (cases v) (simp_all add: encode_def to_buffer_def sample_codec_serializer split: if_splits)
qed (use assms in \<open>simp add: encode_def to_buffer_def\<close>)

lemma publish_reply_error:
  assumes "snd (publish_reply pf c (Inr ch) answer rt corr payload extra) = Some e"
  obtains m where "encode pf c m = Inl e" | "answer = PublishThrows e" | err where "answer = Nacked err" "e = not_confirmed_error err"
proof (cases "encode pf c (if payload = MValue JUndef then MValue JNull else payload)")
  case (Inl x)
  with assms that(1) show ?thesis by (simp add: publish_reply_def)
next
  case (Inr p)
  with assms that(2,3) show ?thesis by (cases answer; cases p) (simp_all add: publish_reply_def Let_def)
qed

lemma sample_reply_errors:
  assumes "snd (publish_reply sample_platform sample_codec (Inr 0) answer rt corr payload extra) = Some e" "answer = Acked \<or> answer = Nacked JNull"
  shows "describable e"
proof -
  have "describable JNull" "describable (error_object ''Message must not be undefined.'')" "describable (not_confirmed_error JNull)"
    by (simp_all add: describable_def describe_line_def describe_error_def error_object_def not_confirmed_error_def js_simps)
  with publish_reply_error [OF assms(1)] sample_encode_errors assms(2) show ?thesis
    by (metis confirm_answer.distinct confirm_answer.inject)
qed

theorem responder_contract_witness:
  "respond_delivery sample_responder JNull sample_rpc_delivery = (True, [], Some (JNum (Fin 1))) \<and>
   snd (snd (respond_delivery sample_responder (JStr ''x'') sample_rpc_delivery)) = None"
proof -
  have errors: "\<forall>i payload extra e. snd (publish_reply (rs_platform sample_responder) (rs_codec sample_responder) (rs_channel sample_responder i)
      (rs_answer sample_responder i) ''r'' (dl_correlation_id sample_rpc_delivery) payload extra) = Some e \<longrightarrow> describable e"
    using sample_reply_errors by (simp add: sample_responder_def)
  have to: "dl_reply_to sample_rpc_delivery = Some ''r''" "''r'' \<noteq> []" by (simp_all add: sample_rpc_delivery_def)
  have "fst (respond_delivery sample_responder JNull sample_rpc_delivery)" by code_simp
  moreover have "rs_handler sample_responder JNull d = Inl (JNum (Fin 1))" "\<not> rs_reply_on_error sample_responder"
    "rs_handler sample_responder (JStr ''x'') d = Inr (MValue (JStr ''x''))" for d
    by (simp_all add: sample_responder_def)
  ultimately show ?thesis
    using responder_contract [OF errors to, of JNull, THEN conjunct2, THEN conjunct2, THEN conjunct1]
      responder_contract [OF errors to, of "JStr ''x''", THEN conjunct2, THEN conjunct1]
    by (simp only: prod_eq_iff fst_conv snd_conv) simp
qed

text \<open>
  C16: Remote call round trip, for a reply whose own serialized string the deserializer reads back.
  When the reply is published and confirmed, it carries the request's correlation id and decodes
  at the requester to the value the handler returned, \<open>null\<close> for \<open>undefined\<close>; a string is sent
  as it is, so it decodes to what the deserializer reads in it, and to itself if that rejects
  it. With \<open>replyOnError\<close> the error of the handler arrives as a rejection with the code
  \<open>RPC_RESPONDER_ERROR\<close> and the handler's message.
\<close>

theorem rpc_reply_round_trip:
  assumes "platform_ok (rs_platform rs)"
    and "\<forall>s. serializer (rs_codec rs) payload = Inr (SerString s) \<longrightarrow> deserializer (rs_codec rs) s = Inr payload"
    and "\<forall>b. serializer (rs_codec rs) payload \<noteq> Inr (SerBuffer b)"
    and "dl_reply_to d = Some reply_to" "reply_to \<noteq> []" "fst (respond_delivery rs content d)"
    and "rs_channel rs 0 = Inr ch" "rs_answer rs 0 = Acked"
    and "payload = (case rs_handler rs content d of Inr (MValue v) \<Rightarrow> (if v = JUndef then JNull else v)
           | Inl e \<Rightarrow> JObj True [(''message'', text')])"
    and "encode (rs_platform rs) (rs_codec rs) (MValue payload) = Inr encoded"
  shows "(\<forall>v. rs_handler rs content d = Inr (MValue v) \<longrightarrow>
      (\<exists>rm. respond_delivery rs content d = (True, [rm], None) \<and> rm_correlation rm = dl_correlation_id d \<and>
         receive_reply (rs_platform rs) (rs_codec rs) rm = Inr (case v of
             JUndef \<Rightarrow> JNull
           | JStr s \<Rightarrow> (case deserializer (rs_codec rs) s of Inr w \<Rightarrow> w | Inl _ \<Rightarrow> JStr s)
           | _ \<Rightarrow> v))) \<and>
    (\<forall>error. rs_handler rs content d = Inl error \<and> rs_reply_on_error rs \<and> describe_error error = Inr text' \<longrightarrow>
      (\<exists>rm. respond_delivery rs content d = (True, [rm], None) \<and> rm_correlation rm = dl_correlation_id d \<and>
         receive_reply (rs_platform rs) (rs_codec rs) rm =
           Inl (JObj True [(''message'', js_or text' (JStr ''RPC responder failed'')), (''code'', JStr ''RPC_RESPONDER_ERROR'')])))"
proof -
  obtain bytes compressed where enc: "encode (rs_platform rs) (rs_codec rs) (MValue payload) = Inr (bytes, compressed)"
    using assms(10) by (cases encoded) auto
  define rm where "rm extra = \<lparr>rm_to = reply_to, rm_correlation = dl_correlation_id d, rm_content = bytes,
      rm_headers = spread [(''x-compressed'', JBool compressed)] extra\<rparr>" for extra
  have dec: "decode (rs_platform rs) (rs_codec rs) bytes compressed = Inr (received_value (rs_codec rs) payload)"
    using decode_encode_value [OF assms(1) _ _ enc] assms(2,3) by blast
  have live: "\<not> (truthy (JNum (js_Number (dl_header d ''x-rpc-deadline''))) \<and> num_lt (js_Number (dl_header d ''x-rpc-deadline'')) (Fin (rs_now rs)))"
    using assms(6) by (auto simp: respond_delivery_def Let_def split: if_splits)
  have g: "given (dl_reply_to d) = Some reply_to" using assms(4,5) by simp
  have not_undef: "(if (if v = JUndef then JNull else v) = JUndef then JNull else (if v = JUndef then JNull else v)) = (if v = JUndef then JNull else v)" for v :: jsval
    by simp
  have sent: "publish_reply (rs_platform rs) (rs_codec rs) (rs_channel rs 0) (rs_answer rs 0) reply_to (dl_correlation_id d) m extra =
      ([rm extra], None)" if "(if m = MValue JUndef then MValue JNull else m) = MValue payload" for m extra
    using that enc assms(7,8) by (simp add: publish_reply_def rm_def Let_def)
  have flags: "truthy (field (rm_headers (rm [])) ''x-rpc-error'') = False" "truthy (field (rm_headers (rm error_flag)) ''x-rpc-error'') = True"
    "truthy (field (rm_headers (rm [])) ''x-compressed'') = compressed" "truthy (field (rm_headers (rm error_flag)) ''x-compressed'') = compressed"
    by (simp_all add: rm_def error_flag_def) (simp_all add: field_def)
  have "\<exists>m. respond_delivery rs content d = (True, [m], None) \<and> rm_correlation m = dl_correlation_id d \<and>
         receive_reply (rs_platform rs) (rs_codec rs) m = Inr (case v of
             JUndef \<Rightarrow> JNull
           | JStr s \<Rightarrow> (case deserializer (rs_codec rs) s of Inr w \<Rightarrow> w | Inl _ \<Rightarrow> JStr s)
           | _ \<Rightarrow> v)"
    if v: "rs_handler rs content d = Inr (MValue v)" for v
  proof (intro exI [of _ "rm []"] conjI)
    have "(if MValue v = MValue JUndef then MValue JNull else MValue v) = MValue payload" using v assms(9) by simp
    from sent [OF this, of "[]"] show "respond_delivery rs content d = (True, [rm []], None)"
      using v g live by (auto simp: respond_delivery_def Let_def)
    have "receive_reply (rs_platform rs) (rs_codec rs) (rm []) = Inr (received_value (rs_codec rs) payload)"
      using dec flags by (simp add: receive_reply_def reply_outcome_def) (simp add: rm_def)
    then show "receive_reply (rs_platform rs) (rs_codec rs) (rm []) = Inr (case v of
        JUndef \<Rightarrow> JNull
      | JStr s \<Rightarrow> (case deserializer (rs_codec rs) s of Inr w \<Rightarrow> w | Inl _ \<Rightarrow> JStr s)
      | _ \<Rightarrow> v)"
      using v assms(9) by (cases v) (simp_all add: received_value_def)
  qed (simp add: rm_def)
  moreover have "\<exists>m. respond_delivery rs content d = (True, [m], None) \<and> rm_correlation m = dl_correlation_id d \<and>
         receive_reply (rs_platform rs) (rs_codec rs) m =
           Inl (JObj True [(''message'', js_or text' (JStr ''RPC responder failed'')), (''code'', JStr ''RPC_RESPONDER_ERROR'')])"
    if e: "rs_handler rs content d = Inl error" "rs_reply_on_error rs" "describe_error error = Inr text'" for error
  proof (intro exI [of _ "rm error_flag"] conjI)
    have payload: "payload = JObj True [(''message'', text')]" using e assms(9) by simp
    from sent [of "MValue payload" error_flag] show "respond_delivery rs content d = (True, [rm error_flag], None)"
      using e g live payload by (auto simp: respond_delivery_def Let_def)
    have "opt_prop (received_value (rs_codec rs) payload) ''message'' = text'" by (simp add: payload received_value_def)
    then show "receive_reply (rs_platform rs) (rs_codec rs) (rm error_flag) =
        Inl (JObj True [(''message'', js_or text' (JStr ''RPC responder failed'')), (''code'', JStr ''RPC_RESPONDER_ERROR'')])"
      using dec flags by (simp add: receive_reply_def reply_outcome_def) (simp add: rm_def)
  qed (simp add: rm_def)
  ultimately show ?thesis by blast
qed

theorem rpc_reply_round_trip_witness:
  "\<exists>rm. respond_delivery (sample_responder\<lparr>rs_answer := \<lambda>i. Acked\<rparr>) (JBool True) sample_rpc_delivery = (True, [rm], None) \<and>
     rm_correlation rm = Some ''7'' \<and> receive_reply sample_platform sample_codec rm = Inr (JBool True)"
proof -
  define rs where "rs = sample_responder\<lparr>rs_answer := \<lambda>i. Acked\<rparr>"
  have rs: "rs_platform rs = sample_platform" "rs_codec rs = sample_codec" "rs_channel rs 0 = Inr 0" "rs_answer rs 0 = Acked"
    "rs_handler rs (JBool True) sample_rpc_delivery = Inr (MValue (JBool True))"
    by (simp_all add: rs_def sample_responder_def)
  have "fst (respond_delivery rs (JBool True) sample_rpc_delivery)" unfolding rs_def by code_simp
  moreover have "encode sample_platform sample_codec (MValue (JBool True)) = Inr (31 # map of_char ''true'', True)"
    by (simp add: encode_def to_buffer_def sample_codec_serializer compress_if_needed_def) (simp add: sample_codec_def sample_platform_def)
  moreover have "\<forall>s. serializer sample_codec (JBool True) = Inr (SerString s) \<longrightarrow> deserializer sample_codec s = Inr (JBool True)"
    "\<forall>b. serializer sample_codec (JBool True) \<noteq> Inr (SerBuffer b)"
    unfolding sample_codec_serializer by (auto simp: sample_codec_def)
  moreover have "dl_reply_to sample_rpc_delivery = Some ''r''" "dl_correlation_id sample_rpc_delivery = Some ''7''"
    by (simp_all add: sample_rpc_delivery_def)
  ultimately have "\<exists>rm. respond_delivery rs (JBool True) sample_rpc_delivery = (True, [rm], None) \<and>
     rm_correlation rm = Some ''7'' \<and> receive_reply sample_platform sample_codec rm = Inr (JBool True)"
    using rpc_reply_round_trip [where rs = rs and d = sample_rpc_delivery and reply_to = "''r''" and content = "JBool True" and ch = 0 and payload = "JBool True"] rs sample_platform_ok by simp
  then show ?thesis unfolding rs_def .
qed

text \<open>
  A reply that cannot be published because the serializer threw an object without a prototype:
  describing that object throws out of the catch, so the callback fails although the handler
  had succeeded, and the consume pipeline treats the request as failed.
\<close>

theorem undescribable_reply_error_escapes:
  "let rs = sample_responder\<lparr>rs_codec := sample_codec\<lparr>serializer := \<lambda>v. Inl (JObj False [])\<rparr>\<rparr>
   in snd (snd (respond_delivery rs (JBool True) sample_rpc_delivery)) = Some type_error"
  by code_simp

end
