(* ===== verification/Topology.thy ===== *)
theory Topology
  imports Publisher
begin

text \<open>
  \<open>src/messaging/topology.js\<close>: the declarations of exchanges and queues, the move of a message
  to its dead letter queue and the probe for the delay plugin. What the broker answers to a
  declaration is a parameter: the error it rejects it with, if any. Probes run concurrently,
  so they are a machine of their own. Logging is modelled where it can throw.
\<close>

section \<open>Declarations\<close>

datatype topo_call =
    AssertExchange string jsval jsval
  | AssertQueue string wire_options
  | BindQueue string string string
  | DeleteExchange string

record topology =
  tp_dead_letter_exchange :: string
  tp_delay_exchange :: string
  tp_queue_of_tag :: "string \<Rightarrow> string option"

text \<open>The exchange of the facade: its name, if one was set, with its type and options.\<close>

record exchange_setting =
  xs_name :: jsval
  xs_type :: jsval
  xs_options :: jsval

text \<open>Awaited one after the other: the calls made, and the error of the first that failed.\<close>

fun declare_all :: "(topo_call \<Rightarrow> jsval option) \<Rightarrow> topo_call list \<Rightarrow> topo_call list \<times> jsval option" where
  "declare_all answer [] = ([], None)"
| "declare_all answer (c # cs) =
     (case answer c of
        Some e \<Rightarrow> ([c], Some e)
      | None \<Rightarrow> (case declare_all answer cs of (calls, r) \<Rightarrow> (c # calls, r)))"

text \<open>
  A catch that builds a log line from \<open>error.message\<close> and rethrows: reading the message of
  \<open>null\<close> or \<open>undefined\<close> throws in its place, and so does a message that is no primitive.
\<close>

definition logged_rethrow :: "jsval \<Rightarrow> jsval" where
  "logged_rethrow e = (if nullish e \<or> js_template (opt_prop e ''message'') = None then type_error else e)"

definition declare_logged :: "(topo_call \<Rightarrow> jsval option) \<Rightarrow> topo_call list \<Rightarrow> topo_call list \<times> jsval option" where
  "declare_logged answer cs = (case declare_all answer cs of (calls, r) \<Rightarrow> (calls, map_option logged_rethrow r))"

definition durable :: wire_options where
  "durable = [(''durable'', JBool True)]"

definition ensure_exchange :: "exchange_setting \<Rightarrow> jsval + nat \<Rightarrow> (topo_call \<Rightarrow> jsval option) \<Rightarrow> topo_call list \<times> jsval option" where
  "ensure_exchange ex channel answer =
     (case xs_name ex of
        JStr name \<Rightarrow>
          if name = [] then ([], None)
          else (case channel of
                  Inl e \<Rightarrow> ([], Some (logged_rethrow e))
                | Inr ch \<Rightarrow> declare_logged answer
                    [AssertExchange name (js_or (xs_type ex) (JStr ''direct'')) (js_or (xs_options ex) (JObj True durable))])
      | _ \<Rightarrow> ([], None))"

definition setup_dead_letter_exchange :: "topology \<Rightarrow> jsval + nat \<Rightarrow> (topo_call \<Rightarrow> jsval option) \<Rightarrow> topo_call list \<times> jsval option" where
  "setup_dead_letter_exchange tp channel answer =
     (case channel of
        Inl e \<Rightarrow> ([], Some e)
      | Inr ch \<Rightarrow> declare_all answer [AssertExchange (tp_dead_letter_exchange tp) (JStr ''direct'') (JObj True durable)])"

definition dead_letter_queue :: "string \<Rightarrow> string" where
  "dead_letter_queue queue = queue @ ''_dlq''"

definition queue_arguments :: "topology \<Rightarrow> string \<Rightarrow> wire_options \<Rightarrow> wire_options" where
  "queue_arguments tp queue options =
     spread (spread [(''x-dead-letter-exchange'', JStr (tp_dead_letter_exchange tp)),
                     (''x-dead-letter-routing-key'', JStr (dead_letter_queue queue))]
               (if truthy (field options ''maxPriority'') then [(''x-max-priority'', field options ''maxPriority'')] else []))
       (own_fields (field options ''arguments''))"

definition queue_options :: "topology \<Rightarrow> string \<Rightarrow> wire_options \<Rightarrow> wire_options" where
  "queue_options tp queue options =
     map_set ''arguments'' (JObj True (queue_arguments tp queue options)) (spread durable options)"

definition create_queue :: "topology \<Rightarrow> string \<Rightarrow> wire_options \<Rightarrow> jsval + nat \<Rightarrow> (topo_call \<Rightarrow> jsval option) \<Rightarrow> topo_call list \<times> jsval option" where
  "create_queue tp queue options channel answer =
     (case channel of
        Inl e \<Rightarrow> ([], Some e)
      | Inr ch \<Rightarrow>
          (let dlq = dead_letter_queue queue
           in declare_logged answer [AssertQueue queue (queue_options tp queue options), AssertQueue dlq durable,
                BindQueue dlq (tp_dead_letter_exchange tp) dlq]))"

definition setup_delay_exchange :: "topology \<Rightarrow> exchange_setting \<Rightarrow> wire_options \<Rightarrow> jsval + nat \<Rightarrow> (topo_call \<Rightarrow> jsval option) \<Rightarrow>
    topo_call list \<times> jsval option" where
  "setup_delay_exchange tp ex options channel answer =
     (case channel of
        Inl e \<Rightarrow> ([], Some e)
      | Inr ch \<Rightarrow> declare_all answer
          [AssertExchange (tp_delay_exchange tp) (JStr ''x-delayed-message'')
             (JObj True (spread (spread durable
                [(''arguments'', JObj True [(''x-delayed-type'', js_or (js_or (field options ''type'') (xs_type ex)) (JStr ''direct''))])])
                (own_fields (field options ''exchangeOptions''))))])"

section \<open>Moving a message to its dead letter queue\<close>

record dead_message =
  dm_consumer_tag :: string
  dm_routing_key :: string
  dm_exchange :: string
  dm_properties :: wire_options
  dm_content :: bytes

definition move_target :: "topology \<Rightarrow> dead_message \<Rightarrow> string" where
  "move_target tp m = dead_letter_queue (str_or (tp_queue_of_tag tp (dm_consumer_tag m)) (dm_routing_key m))"

definition move_properties :: "dead_message \<Rightarrow> jsval \<Rightarrow> string \<Rightarrow> wire_options" where
  "move_properties m reason now =
     (let headers = spread (spread [] (own_fields (field (dm_properties m) ''headers'')))
            [(''x-death-reason'', reason), (''x-death-time'', JStr now),
             (''x-original-exchange'', JStr (dm_exchange m)), (''x-original-routing-key'', JStr (dm_routing_key m))]
      in map_set ''headers'' (JObj True headers)
           (map_set ''mandatory'' (JBool True) (map_set ''persistent'' (JBool True) (spread [] (dm_properties m)))))"

text \<open>
  The publication of a move, for the registry of return watches, and what the call makes of the
  watch: the error it rejects with, if any.
\<close>

definition move_publication :: "topology \<Rightarrow> nat \<Rightarrow> dead_message \<Rightarrow> jsval \<Rightarrow> string \<Rightarrow> jsval option \<Rightarrow> wa_event" where
  "move_publication tp ch m reason now throws =
     PublishWatched ch (tp_dead_letter_exchange tp) (JStr (move_target tp m)) (dm_content m) (move_properties m reason now) throws"

definition move_failed :: "jsval \<Rightarrow> jsval" where
  "move_failed e =
     (if nullish e then type_error
      else case js_template (opt_prop e ''message'') of
             None \<Rightarrow> type_error
           | Some text \<Rightarrow> error_object (''Failed to move message to dead letter queue: '' @ text))"

definition move_result :: "topology \<Rightarrow> dead_message \<Rightarrow> jsval + bool \<Rightarrow> jsval option" where
  "move_result tp m outcome =
     (case outcome of
        Inl e \<Rightarrow> Some (move_failed e)
      | Inr returned \<Rightarrow>
          if returned then Some (error_object (''Dead letter queue routing key '' @ move_target tp m @ '' has no binding on exchange '' @
            tp_dead_letter_exchange tp @ '': message was returned''))
          else None)"

section \<open>The probe for the delay plugin\<close>

text \<open>
  A probe: the call it belongs to, the channel it runs on and whether that is its own, and
  where it stands. \<open>Releasing r\<close> is the \<open>finally\<close>, with the outcome that follows it.
\<close>

datatype probe_stage =
    Opening
  | Asserting nat
  | Deleting nat
  | Releasing "jsval + bool"

record probe =
  pr_call :: nat
  pr_own :: bool
  pr_stage :: probe_stage

record probes =
  ps_running :: "(nat, probe) jsmap"
  ps_sequence :: nat

definition ps_new :: probes where
  "ps_new = \<lparr>ps_running = [], ps_sequence = 0\<rparr>"

datatype probe_out =
    OpenProbe nat
  | SharedChannel nat
  | AssertDelayed nat nat
  | DeleteDelayed nat nat
  | ReleaseProbe nat
  | ProbeSettled nat "jsval + bool"

fun str_includes :: "string \<Rightarrow> string \<Rightarrow> bool" where
  "str_includes s t = (take (length t) s = t \<or> (case s of [] \<Rightarrow> False | c # s' \<Rightarrow> str_includes s' t))"

text \<open>The catch of the probe: an unknown exchange type means that the plugin is missing.\<close>

definition probe_failed :: "jsval \<Rightarrow> jsval + bool" where
  "probe_failed e =
     (case opt_prop e ''message'' of
        JStr text \<Rightarrow> if str_includes text ''exchange type'' then Inr False else Inl e
      | _ \<Rightarrow> Inl type_error)"

text \<open>Probes are numbered by \<open>#probeSequence\<close>, also those that run on a shared channel.\<close>

definition probe_call :: "nat \<Rightarrow> bool \<Rightarrow> probes \<Rightarrow> probes \<times> probe_out list" where
  "probe_call call pool s =
     (let n = Suc (ps_sequence s)
      in (\<lparr>ps_running = map_set n \<lparr>pr_call = call, pr_own = pool, pr_stage = Opening\<rparr> (ps_running s), ps_sequence = n\<rparr>,
          [if pool then OpenProbe n else SharedChannel n]))"

definition at_stage :: "nat \<Rightarrow> probe \<Rightarrow> probe_stage \<Rightarrow> probes \<Rightarrow> probes" where
  "at_stage n p stage s = s\<lparr>ps_running := map_set n (p\<lparr>pr_stage := stage\<rparr>) (ps_running s)\<rparr>"

definition probe_over :: "nat \<Rightarrow> probe \<Rightarrow> jsval + bool \<Rightarrow> probes \<Rightarrow> probes \<times> probe_out list" where
  "probe_over n p r s = (s\<lparr>ps_running := map_del n (ps_running s)\<rparr>, [ProbeSettled (pr_call p) r])"

definition release_probe :: "nat \<Rightarrow> probe \<Rightarrow> jsval + bool \<Rightarrow> probes \<Rightarrow> probes \<times> probe_out list" where
  "release_probe n p r s =
     (if pr_own p then (at_stage n p (Releasing r) s, [ReleaseProbe n]) else probe_over n p r s)"

definition probe_channel :: "nat \<Rightarrow> probe \<Rightarrow> jsval + nat \<Rightarrow> probes \<Rightarrow> probes \<times> probe_out list" where
  "probe_channel n p r s = (case r of
      Inl e \<Rightarrow> probe_over n p (Inl e) s
    | Inr ch \<Rightarrow> (at_stage n p (Asserting ch) s, [AssertDelayed n ch]))"

datatype probe_event =
    ProbeCall nat bool
  | ProbeChannel nat "jsval + nat"
  | ProbeAnswer nat "jsval option"
  | ProbeReleased nat

definition probe_answer :: "nat \<Rightarrow> probe \<Rightarrow> jsval option \<Rightarrow> probes \<Rightarrow> probes \<times> probe_out list" where
  "probe_answer n p err s = (case pr_stage p of
      Asserting ch \<Rightarrow> (case err of
          Some e \<Rightarrow> release_probe n p (probe_failed e) s
        | None \<Rightarrow> (at_stage n p (Deleting ch) s, [DeleteDelayed n ch]))
    | Deleting ch \<Rightarrow> release_probe n p (case err of Some e \<Rightarrow> probe_failed e | None \<Rightarrow> Inr True) s
    | _ \<Rightarrow> (s, []))"

definition probe_released :: "nat \<Rightarrow> probe \<Rightarrow> probes \<Rightarrow> probes \<times> probe_out list" where
  "probe_released n p s = (case pr_stage p of Releasing r \<Rightarrow> probe_over n p r s | _ \<Rightarrow> (s, []))"

fun probe_step :: "probes \<Rightarrow> probe_event \<Rightarrow> probes \<times> probe_out list" where
  "probe_step s (ProbeCall call pool) = probe_call call pool s"
| "probe_step s (ProbeChannel n r) = (case map_get (ps_running s) n of
      Some p \<Rightarrow> if pr_stage p = Opening then probe_channel n p r s else (s, []) | None \<Rightarrow> (s, []))"
| "probe_step s (ProbeAnswer n err) = (case map_get (ps_running s) n of Some p \<Rightarrow> probe_answer n p err s | None \<Rightarrow> (s, []))"
| "probe_step s (ProbeReleased n) = (case map_get (ps_running s) n of Some p \<Rightarrow> probe_released n p s | None \<Rightarrow> (s, []))"

text \<open>\<open>setupDelayPlugin\<close> on the outcome of the probe.\<close>

definition setup_delay_plugin :: "jsval + bool \<Rightarrow> jsval option" where
  "setup_delay_plugin r = (case r of
      Inl e \<Rightarrow> Some (logged_rethrow e)
    | Inr True \<Rightarrow> None
    | Inr False \<Rightarrow> Some (error_object ''Delay plugin is not enabled on the RabbitMQ server''))"

section \<open>Dead letters reach the queue that was created for them\<close>

text \<open>The queues a direct exchange routes to, by the bindings declared.\<close>

definition direct_route :: "topo_call list \<Rightarrow> string \<Rightarrow> string \<Rightarrow> string list" where
  "direct_route calls ex key = concat (map (\<lambda>c. case c of
     BindQueue q ex' key' \<Rightarrow> (if ex' = ex \<and> key' = key then [q] else []) | _ \<Rightarrow> []) calls)"

lemma declare_all_ok: "declare_all answer cs = (calls, None) \<Longrightarrow> calls = cs \<and> (\<forall>c \<in> set cs. answer c = None)"
  by (induction cs arbitrary: calls) (auto split: option.splits prod.splits)

lemma declare_logged_ok: "declare_logged answer cs = (calls, None) \<Longrightarrow> calls = cs"
  by (auto simp: declare_logged_def dest: declare_all_ok split: prod.splits)

lemma field_eval [simp]: "field [] k = JUndef" "field ((k', v) # m) k = (if k = k' then v else field m k)"
  by (simp_all add: field_def)

declare field_spread_empty [simp]

text \<open>
  C21: Dead letters arrive. Once \<open>createQueue\<close> has succeeded, with options whose \<open>arguments\<close> name no
  dead-letter exchange or routing key of their own, the queue's dead-letter arguments, the
  binding of its dead letter queue and the address of \<open>moveToDeadLetter\<close> for a message consumed
  from it agree: by the bindings declared, the exchange routes such a message to \<open><queue>_dlq\<close>
  and nowhere else. What \<open>moveToDeadLetter\<close> publishes, to that exchange under that key, is the
  content of the original with its properties and headers (other than those the move sets), is
  persistent and mandatory, and says why it was moved and where it came from.
\<close>

theorem dead_letter_routes_agree:
  assumes "create_queue tp queue options (Inr ch) answer = (calls, None)"
    and "tp_queue_of_tag tp (dm_consumer_tag m) = Some queue" "queue \<noteq> []"
    and "''x-dead-letter-exchange'' \<notin> fst ` set (own_fields (field options ''arguments''))"
      "''x-dead-letter-routing-key'' \<notin> fst ` set (own_fields (field options ''arguments''))"
    and "wf_map (dm_properties m)" "wf_map (own_fields (field (dm_properties m) ''headers''))"
    and "k \<notin> {''headers'', ''mandatory'', ''persistent''}"
      "h \<notin> {''x-death-reason'', ''x-death-time'', ''x-original-exchange'', ''x-original-routing-key'', return_token_header}"
  shows "AssertQueue queue (queue_options tp queue options) \<in> set calls \<and>
    field (queue_options tp queue options) ''arguments'' = JObj True (queue_arguments tp queue options) \<and>
    field (queue_arguments tp queue options) ''x-dead-letter-exchange'' = JStr (tp_dead_letter_exchange tp) \<and>
    field (queue_arguments tp queue options) ''x-dead-letter-routing-key'' = JStr (move_target tp m) \<and>
    direct_route calls (tp_dead_letter_exchange tp) (move_target tp m) = [dead_letter_queue queue] \<and>
    (\<exists>p headers. snd (wa_step w (move_publication tp ch' m reason now None)) =
        [ChannelPublish ch' (tp_dead_letter_exchange tp) (JStr (move_target tp m)) (dm_content m) p] \<and>
        headers = own_fields (field p ''headers'') \<and>
        field p k = field (dm_properties m) k \<and> field p ''persistent'' = JBool True \<and> field p ''mandatory'' = JBool True \<and>
        field headers h = field (own_fields (field (dm_properties m) ''headers'')) h \<and>
        field headers ''x-death-reason'' = reason \<and> field headers ''x-original-exchange'' = JStr (dm_exchange m) \<and>
        field headers ''x-original-routing-key'' = JStr (dm_routing_key m))"
proof -
  have calls: "calls = [AssertQueue queue (queue_options tp queue options), AssertQueue (dead_letter_queue queue) durable,
      BindQueue (dead_letter_queue queue) (tp_dead_letter_exchange tp) (dead_letter_queue queue)]"
    using assms(1) by (auto simp: create_queue_def Let_def dest: declare_logged_ok)
  have target: "move_target tp m = dead_letter_queue queue"
    using assms(2,3) by (simp add: move_target_def str_or_def)
  have "field (queue_arguments tp queue options) ''x-dead-letter-exchange'' = JStr (tp_dead_letter_exchange tp)"
    "field (queue_arguments tp queue options) ''x-dead-letter-routing-key'' = JStr (dead_letter_queue queue)"
    unfolding queue_arguments_def using assms(4,5) by (simp_all add: field_spread_other)
  moreover have "direct_route calls (tp_dead_letter_exchange tp) (dead_letter_queue queue) = [dead_letter_queue queue]"
    by (simp add: calls direct_route_def)
  moreover have "field (queue_options tp queue options) ''arguments'' = JObj True (queue_arguments tp queue options)"
    by (simp add: queue_options_def)
  moreover have "AssertQueue queue (queue_options tp queue options) \<in> set calls" by (simp add: calls)
  moreover have "snd (wa_step w (move_publication tp ch' m reason now None)) =
      [ChannelPublish ch' (tp_dead_letter_exchange tp) (JStr (dead_letter_queue queue)) (dm_content m)
        (guarded_options (nat_str (wa_next w)) (move_properties m reason now))]"
    by (simp add: move_publication_def publish_watched_def Let_def target)
  ultimately show ?thesis
    using assms(6-9) unfolding target
    by (simp add: move_properties_def guarded_options_def return_token_header_def Let_def)
qed

definition sample_topology :: topology where
  "sample_topology = \<lparr>tp_dead_letter_exchange = ''dlx'', tp_delay_exchange = ''delayed'',
     tp_queue_of_tag = (\<lambda>tag. if tag = ''t'' then Some ''q'' else None)\<rparr>"

definition sample_dead :: dead_message where
  "sample_dead = \<lparr>dm_consumer_tag = ''t'', dm_routing_key = ''k'', dm_exchange = ''ex'',
     dm_properties = [(''type'', JStr ''a''), (''headers'', JObj True [(''b'', JNull)])], dm_content = [1]\<rparr>"

theorem dead_letter_routes_agree_witness:
  "direct_route (fst (create_queue sample_topology ''q'' [] (Inr 0) (\<lambda>c. None))) ''dlx'' (move_target sample_topology sample_dead) = [''q_dlq''] \<and>
   (\<exists>p. snd (wa_step (wa_after []) (move_publication sample_topology 0 sample_dead (JStr ''r'') ''now'' None)) =
       [ChannelPublish 0 ''dlx'' (JStr (move_target sample_topology sample_dead)) [1] p] \<and> field p ''type'' = JStr ''a'')"
proof -
  have "snd (create_queue sample_topology ''q'' [] (Inr 0) (\<lambda>c. None)) = None" by code_simp
  then have created: "create_queue sample_topology ''q'' [] (Inr 0) (\<lambda>c. None) =
      (fst (create_queue sample_topology ''q'' [] (Inr 0) (\<lambda>c. None)), None)" by (metis prod.collapse)
  have simple: "own_fields (field [] ''arguments'') = []" "wf_map (dm_properties sample_dead)"
    "wf_map (own_fields (field (dm_properties sample_dead) ''headers''))"
    "tp_queue_of_tag sample_topology (dm_consumer_tag sample_dead) = Some ''q''"
    by code_simp+
  have "field (dm_properties sample_dead) ''type'' = JStr ''a''" "dead_letter_queue ''q'' = ''q_dlq''" by code_simp+
  moreover have "tp_dead_letter_exchange sample_topology = ''dlx''" "dm_content sample_dead = [1]"
    by (simp_all add: sample_topology_def sample_dead_def)
  moreover have "''b'' \<notin> {''x-death-reason'', ''x-death-time'', ''x-original-exchange'', ''x-original-routing-key'', return_token_header}"
    by (simp add: return_token_header_def)
  note dead_letter_routes_agree [OF created simple(4) _ _ _ simple(2,3) _ this, where k = "''type''" and w = "wa_after []" and ch' = 0
      and reason = "JStr ''r''" and now = "''now''"]
  ultimately show ?thesis by (simp add: simple(1)) blast
qed

text \<open>
  A move succeeds exactly if its message found a queue. Whatever else is published, returned
  and confirmed on the channels meanwhile, a move that the broker confirms resolves exactly if
  no return with its own token came back on its channel; otherwise it rejects, so an
  unroutable dead letter is never reported as moved.
\<close>

theorem move_resolves_iff_routed:
  fixes before after :: "wa_event list" and tp :: topology and m :: dead_message and reason :: jsval and ch :: nat
    and token now :: string
  defines "es \<equiv> before @ move_publication tp ch m reason now None # after"
  assumes "token = nat_str (wa_next (wa_after before))" "map_get (wa_pending (wa_after es)) token = Some ch"
  shows "snd (wa_step (wa_after before) (move_publication tp ch m reason now None)) =
      [ChannelPublish ch (tp_dead_letter_exchange tp) (JStr (move_target tp m)) (dm_content m)
         (guarded_options token (move_properties m reason now))] \<and>
    (\<exists>outcome. snd (wa_step (wa_after es) (ConfirmFrame token None)) = [WatchResult token outcome] \<and>
      (move_result tp m outcome = None \<longleftrightarrow> \<not> was_returned ch token es))"
  using confirmed_watch [OF assms(3)] assms(2) by (simp add: move_result_def move_publication_def publish_watched_def Let_def)

theorem move_resolves_iff_routed_witness:
  "let es = [move_publication sample_topology 0 sample_dead JNull ''now'' None, ReturnFrame 0 (JObj True [(return_token_header, JStr ''0'')])]
   in \<exists>outcome. snd (wa_step (wa_after es) (ConfirmFrame ''0'' None)) = [WatchResult ''0'' outcome] \<and>
        (move_result sample_topology sample_dead outcome = None \<longleftrightarrow> \<not> was_returned 0 ''0'' es)"
proof -
  define after where "after = [ReturnFrame 0 (JObj True [(return_token_header, JStr ''0'')])]"
  have "map_get (wa_pending (wa_after ([] @ move_publication sample_topology 0 sample_dead JNull ''now'' None # after))) ''0'' = Some 0"
    "''0'' = nat_str (wa_next (wa_after []))"
    unfolding after_def by code_simp+
  then show ?thesis
    using move_resolves_iff_routed [of "''0''" "[]" sample_topology 0 sample_dead JNull "''now''" after]
    unfolding Let_def after_def by simp
qed

section \<open>Concurrent probes do not disturb each other\<close>

definition probe_inv :: "probes \<Rightarrow> bool" where
  "probe_inv s \<longleftrightarrow> wf_map (ps_running s) \<and> key_set (ps_running s) \<subseteq> {0<..ps_sequence s}"

lemma probe_inv_set: "probe_inv s \<Longrightarrow> map_get (ps_running s) n = Some p \<Longrightarrow> probe_inv (at_stage n p' stage s)"
  by (auto simp: probe_inv_def at_stage_def dest: map_get_key)

lemma probe_inv_del: "probe_inv s \<Longrightarrow> probe_inv (s\<lparr>ps_running := map_del n (ps_running s)\<rparr>)"
  by (auto simp: probe_inv_def)

lemma release_probe_inv: "probe_inv s \<Longrightarrow> map_get (ps_running s) n = Some p \<Longrightarrow> probe_inv (fst (release_probe n p r s))"
  by (simp add: release_probe_def probe_over_def probe_inv_set probe_inv_del)

lemma probe_step_inv: "probe_inv s \<Longrightarrow> probe_inv (fst (probe_step s e))"
proof (cases e)
  case (ProbeCall call pool)
  assume "probe_inv s"
  with ProbeCall show ?thesis by (auto simp: probe_inv_def probe_call_def Let_def)
qed (auto simp: probe_channel_def probe_answer_def probe_released_def probe_over_def release_probe_inv probe_inv_set probe_inv_del
    split: option.split sum.split probe_stage.split)

interpretation prm: event_machine probe_step "\<lambda>e. True" probe_inv
  by unfold_locales (rule probe_step_inv)

fun probe_entered :: "probes \<Rightarrow> probe_event \<Rightarrow> nat multiset" where
  "probe_entered s (ProbeCall call pool) = {#call#}"
| "probe_entered s _ = {#}"

fun probe_settles :: "probe_out \<Rightarrow> nat multiset" where
  "probe_settles (ProbeSettled call r) = {#call#}"
| "probe_settles _ = {#}"

definition probe_tracked :: "probes \<Rightarrow> nat multiset" where
  "probe_tracked s = image_mset pr_call (vals_of (ps_running s))"

lemma probe_stage_conserves:
  assumes "probe_inv s" "map_get (ps_running s) n = Some p"
  shows "probe_tracked (at_stage n p stage s) = probe_tracked s"
proof -
  from assms have "wf_map (ps_running s)" by (simp add: probe_inv_def)
  from vals_set [OF this, of n "p\<lparr>pr_stage := stage\<rparr>"] vals_del [OF this assms(2)] show ?thesis
    by (simp add: probe_tracked_def at_stage_def)
qed

lemma probe_over_conserves:
  assumes "probe_inv s" "map_get (ps_running s) n = Some p"
  shows "probe_tracked s = probe_tracked (fst (probe_over n p r s)) + total_settled probe_settles (snd (probe_over n p r s))"
proof -
  from assms have "wf_map (ps_running s)" by (simp add: probe_inv_def)
  from vals_del [OF this assms(2)] show ?thesis by (simp add: probe_tracked_def probe_over_def)
qed

lemma release_probe_conserves:
  assumes "probe_inv s" "map_get (ps_running s) n = Some p"
  shows "probe_tracked s = probe_tracked (fst (release_probe n p r s)) + total_settled probe_settles (snd (release_probe n p r s))"
  using probe_over_conserves [OF assms, of r] probe_stage_conserves [OF assms, of "Releasing r"] by (simp add: release_probe_def)

lemma probe_step_conserves:
  assumes "probe_inv s"
  shows "probe_tracked s + probe_entered s e = probe_tracked (fst (probe_step s e)) + total_settled probe_settles (snd (probe_step s e))"
proof (cases e)
  case (ProbeCall call pool)
  have "Suc (ps_sequence s) \<notin> key_set (ps_running s)" using assms by (auto simp: probe_inv_def)
  with ProbeCall show ?thesis by (simp add: probe_call_def Let_def probe_tracked_def vals_set_new)
qed (use assms in \<open>auto simp: probe_channel_def probe_answer_def probe_released_def probe_stage_conserves
    probe_over_conserves [symmetric] release_probe_conserves [symmetric] split: option.split sum.split probe_stage.split\<close>)

interpretation prl: ledger_machine probe_step "\<lambda>e. True" probe_inv probe_tracked probe_entered probe_settles
  by unfold_locales (rule probe_step_conserves)

text \<open>
  What the calls made so far say of each probe: its number was used once; its own channel is
  released exactly once after it was used, and not before.
\<close>

definition releases :: "nat \<Rightarrow> probe_out list \<Rightarrow> nat" where
  "releases n out = count_list out (ReleaseProbe n)"

definition openings :: "nat \<Rightarrow> probe_out list \<Rightarrow> nat" where
  "openings n out = count_list out (OpenProbe n) + count_list out (SharedChannel n)"

definition used :: "nat \<Rightarrow> probe_out list \<Rightarrow> bool" where
  "used n out \<longleftrightarrow> (\<exists>ch. AssertDelayed n ch \<in> set out)"

definition probe_story :: "nat \<Rightarrow> probes \<Rightarrow> probe_out list \<Rightarrow> bool" where
  "probe_story n s out \<longleftrightarrow> probe_inv s \<and>
     openings n out = (if 0 < n \<and> n \<le> ps_sequence s then 1 else 0) \<and>
     (case map_get (ps_running s) n of
        Some p \<Rightarrow> (OpenProbe n \<in> set out) = pr_own p \<and> (\<forall>r. pr_stage p = Releasing r \<longrightarrow> pr_own p) \<and>
          used n out = (pr_stage p \<noteq> Opening) \<and>
          releases n out = (case pr_stage p of Releasing r \<Rightarrow> 1 | _ \<Rightarrow> 0)
      | None \<Rightarrow> releases n out = (if used n out \<and> OpenProbe n \<in> set out then 1 else 0) \<and>
          (ps_sequence s < n \<longrightarrow> \<not> used n out \<and> OpenProbe n \<notin> set out))"

lemma story_counts [simp]:
  "releases n [] = 0" "releases n (out @ out') = releases n out + releases n out'"
  "releases n (x # out) = (if x = ReleaseProbe n then 1 else 0) + releases n out"
  "openings n [] = 0" "openings n (out @ out') = openings n out + openings n out'"
  "openings n (x # out) = (if x = OpenProbe n \<or> x = SharedChannel n then 1 else 0) + openings n out"
  "used n [] = False" "used n (out @ out') = (used n out \<or> used n out')"
  "used n (x # out) = ((\<exists>ch. x = AssertDelayed n ch) \<or> used n out)"
  by (auto simp: releases_def openings_def used_def)

text \<open>Only the probe an event is for has a new story.\<close>

lemma probe_story_other:
  assumes "probe_story n s out" "probe_inv s'" "ps_sequence s' = ps_sequence s"
    and "map_get (ps_running s') n = map_get (ps_running s) n"
    and "openings n out' = 0" "releases n out' = 0" "\<not> used n out'" "OpenProbe n \<notin> set out'"
  shows "probe_story n s' (out @ out')"
  using assms by (auto simp: probe_story_def split: option.split)

lemma probe_story_step:
  assumes "probe_story n s out" shows "probe_story n (fst (probe_step s e)) (out @ snd (probe_step s e))"
proof -
  have inv: "probe_inv s" and inv': "probe_inv (fst (probe_step s e))"
    using assms probe_step_inv by (auto simp: probe_story_def)
  let ?other = "\<forall>k. (e \<noteq> ProbeCall (fst k) (snd k)) \<and> e \<noteq> ProbeReleased n \<and> (\<forall>r. e \<noteq> ProbeChannel n r) \<and> (\<forall>r. e \<noteq> ProbeAnswer n r)"
  show ?thesis
  proof (cases ?other)
    case True
    then show ?thesis
      by (intro probe_story_other [OF assms inv'])
        (cases e; auto simp: probe_channel_def probe_answer_def probe_released_def release_probe_def probe_over_def at_stage_def
          map_get_set map_get_del split: option.splits sum.splits probe_stage.splits)+
  next
    case False
    have fresh: "map_get (ps_running s) (Suc (ps_sequence s)) = None"
      using inv by (auto simp: probe_inv_def map_get_None)
    have known: "n \<le> ps_sequence s" if "map_get (ps_running s) n = Some p" for p
      using inv map_get_key [OF that] by (auto simp: probe_inv_def)
    show ?thesis
    proof (cases e)
      case (ProbeCall call pool)
      with assms fresh inv' show ?thesis
        by (cases "n = Suc (ps_sequence s)")
          (auto simp: probe_story_def probe_call_def Let_def map_get_set split: option.split)
    next
      case (ProbeChannel k r)
      with False have "k = n" by simp
      with ProbeChannel assms inv' known show ?thesis
        by (cases "map_get (ps_running s) n"; cases r)
          (auto simp: probe_story_def probe_channel_def probe_over_def at_stage_def map_get_set map_get_del)
    next
      case (ProbeAnswer k err)
      with False have "k = n" by simp
      with ProbeAnswer assms inv' known show ?thesis
        by (cases "map_get (ps_running s) n")
          (auto simp: probe_story_def probe_answer_def release_probe_def probe_over_def at_stage_def map_get_set map_get_del
            split: option.split probe_stage.splits)
    next
      case (ProbeReleased k)
      with False have "k = n" by simp
      with ProbeReleased assms inv' known show ?thesis
        by (cases "map_get (ps_running s) n")
          (auto simp: probe_story_def probe_released_def probe_over_def at_stage_def map_get_set map_get_del
            split: probe_stage.splits)
    qed
  qed
qed

text \<open>
  C23: Concurrent probes for the delay plugin do not disturb each other. In every interleaving: each
  call of \<open>isDelayPluginEnabled\<close> settles once or is on its way; every probe has a number of its
  own, so no two share a cached channel; and a probe that opened a channel and used it releases
  exactly that channel exactly once before it settles, and not before its own declarations are
  answered.
\<close>

theorem probes_isolated:
  fixes es :: "probe_event list"
  defines "r \<equiv> run_machine probe_step ps_new es"
  shows "total_entered probe_step probe_entered ps_new es = probe_tracked (fst r) + total_settled probe_settles (snd r) \<and>
    openings n (snd r) \<le> 1 \<and>
    (map_get (ps_running (fst r)) n = None \<longrightarrow>
       releases n (snd r) = (if used n (snd r) \<and> OpenProbe n \<in> set (snd r) then 1 else 0)) \<and>
    (\<forall>p. map_get (ps_running (fst r)) n = Some p \<longrightarrow>
       releases n (snd r) = (case pr_stage p of Releasing x \<Rightarrow> 1 | _ \<Rightarrow> 0))"
proof -
  have new: "probe_inv ps_new" "probe_tracked ps_new = {#}" by (simp_all add: probe_inv_def ps_new_def probe_tracked_def)
  have "probe_story n ps_new []" using new by (auto simp: probe_story_def) (auto simp: ps_new_def)
  from run_trace [of "probe_story n" probe_step, OF probe_story_step this, of es]
  have "probe_story n (fst r) (snd r)" unfolding r_def by simp
  moreover have "total_entered probe_step probe_entered ps_new es = probe_tracked (fst r) + total_settled probe_settles (snd r)"
    using prl.run_conserves [OF new(1), of es] new(2) by (simp add: list_all_iff r_def)
  ultimately show ?thesis by (auto simp: probe_story_def)
qed

theorem probes_isolated_witness:
  "let r = run_machine probe_step ps_new [ProbeCall 7 True, ProbeCall 8 True, ProbeChannel 1 (Inr 5), ProbeChannel 2 (Inr 6),
        ProbeAnswer 1 (Some (error_object ''NOT_FOUND - exchange type'')), ProbeReleased 1]
   in map_get (ps_running (fst r)) 1 = None \<and> releases 1 (snd r) = 1 \<and> releases 2 (snd r) = 0 \<and> ProbeSettled 7 (Inr False) \<in> set (snd r)"
proof -
  define es where "es = [ProbeCall 7 True, ProbeCall 8 True, ProbeChannel 1 (Inr 5), ProbeChannel 2 (Inr 6),
        ProbeAnswer 1 (Some (error_object ''NOT_FOUND - exchange type'')), ProbeReleased 1]"
  define r where "r = run_machine probe_step ps_new es"
  have gone: "map_get (ps_running (fst r)) 1 = None" unfolding r_def es_def by code_simp
  have "ProbeSettled 7 (Inr False) \<in> set (snd r)" "AssertDelayed 1 5 \<in> set (snd r)" "OpenProbe 1 \<in> set (snd r)"
    "map_get (ps_running (fst r)) 2 = Some \<lparr>pr_call = 8, pr_own = True, pr_stage = Asserting 6\<rparr>"
    unfolding r_def es_def by code_simp+
  then show ?thesis
    using gone probes_isolated [of es 1] probes_isolated [of es 2]
    unfolding Let_def es_def [symmetric] r_def [symmetric] by (auto simp: used_def)
qed

end
