(* ===== verification/Facade_Cache.thy ===== *)
theory Facade_Cache
  imports Topology
begin

text \<open>
  The cached publication of the facade, \<open>src/index.js\<close>: \<open>publishWithCache\<close> with the calls that
  read, invalidate and clear the cache and the one that changes the exchange. The cache is the
  library node-cache, a parameter: \<open>cache_lawful\<close> says what its documentation promises. A call
  of \<open>publishWithCache\<close> awaits the generator of the message and then its publication; other
  calls may come in between. A publication itself is run when it ends, by the model of the
  publisher.
\<close>

section \<open>The exchange\<close>

definition no_exchange :: exchange_setting where
  "no_exchange = \<lparr>xs_name = JUndef, xs_type = JUndef, xs_options = JUndef\<rparr>"

text \<open>Omitted arguments are \<open>undefined\<close> and take their defaults.\<close>

definition set_exchange :: "jsval \<Rightarrow> jsval \<Rightarrow> jsval \<Rightarrow> jsval + exchange_setting" where
  "set_exchange name type options =
     (let t = (if type = JUndef then JStr ''direct'' else type)
      in case name of
           JStr s \<Rightarrow>
             if list_all js_space s then Inl (error_object ''Exchange name must be a non-empty string'')
             else if t \<notin> {JStr ''direct'', JStr ''topic'', JStr ''fanout'', JStr ''headers''}
             then Inl (error_object ''Invalid exchange type. Must be one of: direct, topic, fanout, headers'')
             else Inr \<lparr>xs_name = JStr s, xs_type = t, xs_options = (if options = JUndef then JObj True [] else options)\<rparr>
         | _ \<Rightarrow> Inl (error_object ''Exchange name must be a non-empty string''))"

text \<open>The exchange as the publisher uses it; the client library takes no name for the default exchange.\<close>

definition publisher_exchange :: "exchange_setting \<Rightarrow> exchange" where
  "publisher_exchange x = \<lparr>ex_name = key_text (xs_name x), ex_type = key_text (xs_type x)\<rparr>"

section \<open>The cache\<close>

text \<open>
  \<open>get\<close> answers \<open>undefined\<close> for what is not there or has expired; \<open>set\<close> may refuse an entry.
  \<open>nc_entries\<close> is what the cache holds, for the statement of the laws only.
\<close>

record 'c cache_ops =
  nc_get :: "string \<Rightarrow> rat \<Rightarrow> 'c \<Rightarrow> 'c \<times> message"
  nc_set :: "string \<Rightarrow> message \<Rightarrow> rat \<Rightarrow> rat \<Rightarrow> 'c \<Rightarrow> jsval + 'c"
  nc_del :: "string \<Rightarrow> 'c \<Rightarrow> 'c"
  nc_flush :: "'c \<Rightarrow> 'c"
  nc_std_ttl :: rat
  nc_entries :: "'c \<Rightarrow> string \<Rightarrow> message option"

text \<open>
  An entry is what was set last under its key, unless it was deleted, flushed or has expired;
  nothing else gets into the cache.
\<close>

definition cache_lawful :: "'c cache_ops \<Rightarrow> bool" where
  "cache_lawful ops \<longleftrightarrow>
     (\<forall>c k now. snd (nc_get ops k now c) = MValue JUndef \<or> nc_entries ops c k = Some (snd (nc_get ops k now c))) \<and>
     (\<forall>c k now. nc_entries ops (fst (nc_get ops k now c)) \<subseteq>\<^sub>m nc_entries ops c) \<and>
     (\<forall>c k v ttl now c'. nc_set ops k v ttl now c = Inr c' \<longrightarrow> nc_entries ops c' \<subseteq>\<^sub>m (nc_entries ops c)(k \<mapsto> v)) \<and>
     (\<forall>c k. nc_entries ops (nc_del ops k c) \<subseteq>\<^sub>m (nc_entries ops c)(k := None)) \<and>
     (\<forall>c. nc_entries ops (nc_flush ops c) = Map.empty)"

section \<open>State\<close>

record cached_options =
  co_publish :: publish_options
  co_cache_ttl :: "rat option"

datatype generator = GeneratorFunction | GivenMessage message

datatype cached_stage = AwaitsGenerator | AwaitsPublish message exchange_setting

record cached_call =
  cc_cache_key :: string
  cc_routing_key :: jsval
  cc_options :: cached_options
  cc_stage :: cached_stage

record 'c cached =
  cx_use_cache :: bool
  cx_cache :: 'c
  cx_exchange :: exchange_setting
  cx_publisher :: publisher
  cx_calls :: "(nat, cached_call) jsmap"
  cx_next :: nat

text \<open>A publication that ended well: with its cache key if it was cached, and what was sent.\<close>

datatype cached_out =
    CallGenerator nat
  | CacheHit nat string message
  | PublishedCached nat string message "publication list"
  | PublishedUncached nat message "publication list"
  | PublishRejected nat pub_error
  | CacheAnswer string message
  | CacheInvalidated string
  | CacheCleared
  | CallThrows jsval

section \<open>Operations\<close>

definition cache_key :: "jsval \<Rightarrow> 'c cached \<Rightarrow> jsval + string" where
  "cache_key routing_key s = (case (js_template (xs_name (cx_exchange s)), js_template routing_key) of
      (Some name, Some key) \<Rightarrow> Inr (name @ '':'' @ key)
    | _ \<Rightarrow> Inl type_error)"

text \<open>The options of the publication: the rate limit key and the header of a cached message.\<close>

definition cached_publish_options :: "jsval \<Rightarrow> publish_options \<Rightarrow> publish_options" where
  "cached_publish_options routing_key options =
     (let key = js_or (po_rate_key options) (JStr (''cached:'' @ key_text routing_key));
          headers = JObj True (map_set ''x-cached'' (JBool True) (spread [] (own_fields (field (po_fields options) ''headers''))))
      in options\<lparr>po_rate_key := key, po_fields := map_set ''headers'' headers (map_set ''rateLimitKey'' key (po_fields options))\<rparr>)"

text \<open>The message is there: the publication starts, on the exchange of this moment.\<close>

definition cached_message :: "nat \<Rightarrow> cached_call \<Rightarrow> message \<Rightarrow> 'c cached \<Rightarrow> 'c cached" where
  "cached_message n call m s = s\<lparr>cx_calls := map_set n (call\<lparr>cc_stage := AwaitsPublish m (cx_exchange s)\<rparr>) (cx_calls s)\<rparr>"

definition cached_call_starts :: "'c cache_ops \<Rightarrow> nat \<Rightarrow> jsval \<Rightarrow> generator \<Rightarrow> cached_options \<Rightarrow> rat \<Rightarrow> 'c cached \<Rightarrow> 'c cached \<times> cached_out list" where
  "cached_call_starts ops n routing_key gen options now s =
     (case validate_routing_key routing_key (publisher_exchange (cx_exchange s)) of
        Some e \<Rightarrow> (s, [PublishRejected n (Thrown e)])
      | None \<Rightarrow> (case cache_key routing_key s of
          Inl e \<Rightarrow> (s, [PublishRejected n (Thrown e)])
        | Inr key \<Rightarrow>
            (let (cache, cached) = (if cx_use_cache s then nc_get ops key now (cx_cache s) else (cx_cache s, MValue JUndef));
                 s1 = s\<lparr>cx_cache := cache\<rparr>;
                 call = \<lparr>cc_cache_key = key, cc_routing_key = routing_key, cc_options = options, cc_stage = AwaitsGenerator\<rparr>
             in if cached \<noteq> MValue JUndef then (s1, [CacheHit n key cached])
                else case gen of
                  GeneratorFunction \<Rightarrow> (s1\<lparr>cx_calls := map_set n call (cx_calls s1)\<rparr>, [CallGenerator n])
                | GivenMessage m \<Rightarrow> (cached_message n call m s1, []))))"

text \<open>The calls are numbered.\<close>

definition publish_with_cache :: "'c cache_ops \<Rightarrow> jsval \<Rightarrow> generator \<Rightarrow> cached_options \<Rightarrow> rat \<Rightarrow> 'c cached \<Rightarrow> 'c cached \<times> cached_out list" where
  "publish_with_cache ops routing_key gen options now s =
     cached_call_starts ops (cx_next s) routing_key gen options now (s\<lparr>cx_next := Suc (cx_next s)\<rparr>)"

definition generator_answers :: "nat \<Rightarrow> jsval + message \<Rightarrow> 'c cached \<Rightarrow> 'c cached \<times> cached_out list" where
  "generator_answers n answer s = (case map_get (cx_calls s) n of
      Some call \<Rightarrow>
        if cc_stage call \<noteq> AwaitsGenerator then (s, [])
        else (case answer of
                Inl e \<Rightarrow> (s\<lparr>cx_calls := map_del n (cx_calls s)\<rparr>, [PublishRejected n (Thrown e)])
              | Inr m \<Rightarrow> (cached_message n call m s, []))
    | None \<Rightarrow> (s, []))"

text \<open>The publication has ended well: the message is cached, which the cache may refuse.\<close>

definition cache_published :: "'c cache_ops \<Rightarrow> nat \<Rightarrow> cached_call \<Rightarrow> message \<Rightarrow> publication list \<Rightarrow> rat \<Rightarrow> 'c cached \<Rightarrow> 'c cached \<times> cached_out list" where
  "cache_published ops n call m sent now s =
     (if \<not> cx_use_cache s then (s, [PublishedUncached n m sent])
      else let ttl = (case co_cache_ttl (cc_options call) of Some t \<Rightarrow> t | None \<Rightarrow> nc_std_ttl ops)
           in case nc_set ops (cc_cache_key call) m ttl now (cx_cache s) of
                Inl e \<Rightarrow> (s, [PublishRejected n (Thrown e)])
              | Inr c \<Rightarrow> (s\<lparr>cx_cache := c\<rparr>, [PublishedCached n (cc_cache_key call) m sent]))"

definition publication_ends :: "'c cache_ops \<Rightarrow> policies \<Rightarrow> nat \<Rightarrow> call_env \<Rightarrow> jsval + nat \<Rightarrow> rat \<Rightarrow> 'c cached \<Rightarrow> 'c cached \<times> cached_out list" where
  "publication_ends ops pol n env channel now s = (case map_get (cx_calls s) n of
      Some call \<Rightarrow>
        (case cc_stage call of
           AwaitsPublish m exchange \<Rightarrow>
             (case publish pol env (publisher_exchange exchange) channel now (cc_routing_key call) m
                     (cached_publish_options (cc_routing_key call) (co_publish (cc_options call))) (cx_publisher s) of
                (pb, pc, res) \<Rightarrow>
                  (let s1 = s\<lparr>cx_publisher := pb, cx_calls := map_del n (cx_calls s)\<rparr>
                   in case res of
                        Inl e \<Rightarrow> (s1, [PublishRejected n e])
                      | Inr _ \<Rightarrow> cache_published ops n call m (pc_sent pc) now s1))
         | AwaitsGenerator \<Rightarrow> (s, []))
    | None \<Rightarrow> (s, []))"

definition require_cache :: "'c cached \<Rightarrow> jsval option" where
  "require_cache s = (if cx_use_cache s then None else Some (error_object ''Cache is not enabled''))"

text \<open>A call on the entry of a routing key: what it needs first, then the operation on the key.\<close>

definition on_cache_key :: "jsval \<Rightarrow> (string \<Rightarrow> 'c cached \<Rightarrow> 'c cached \<times> cached_out list) \<Rightarrow> 'c cached \<Rightarrow> 'c cached \<times> cached_out list" where
  "on_cache_key routing_key f s = (case require_cache s of
      Some e \<Rightarrow> (s, [CallThrows e])
    | None \<Rightarrow> (case cache_key routing_key s of Inl e \<Rightarrow> (s, [CallThrows e]) | Inr key \<Rightarrow> f key s))"

definition get_from_cache :: "'c cache_ops \<Rightarrow> jsval \<Rightarrow> rat \<Rightarrow> 'c cached \<Rightarrow> 'c cached \<times> cached_out list" where
  "get_from_cache ops routing_key now = on_cache_key routing_key (\<lambda>key s.
     (case nc_get ops key now (cx_cache s) of (c, v) \<Rightarrow> (s\<lparr>cx_cache := c\<rparr>, [CacheAnswer key v])))"

definition invalidate_cache :: "'c cache_ops \<Rightarrow> jsval \<Rightarrow> 'c cached \<Rightarrow> 'c cached \<times> cached_out list" where
  "invalidate_cache ops routing_key = on_cache_key routing_key (\<lambda>key s.
     (s\<lparr>cx_cache := nc_del ops key (cx_cache s)\<rparr>, [CacheInvalidated key]))"

definition clear_cache :: "'c cache_ops \<Rightarrow> 'c cached \<Rightarrow> 'c cached \<times> cached_out list" where
  "clear_cache ops s = (case require_cache s of
      Some e \<Rightarrow> (s, [CallThrows e])
    | None \<Rightarrow> (s\<lparr>cx_cache := nc_flush ops (cx_cache s)\<rparr>, [CacheCleared]))"

definition change_exchange :: "jsval \<Rightarrow> jsval \<Rightarrow> jsval \<Rightarrow> 'c cached \<Rightarrow> 'c cached \<times> cached_out list" where
  "change_exchange name type options s = (case set_exchange name type options of
      Inl e \<Rightarrow> (s, [CallThrows e]) | Inr x \<Rightarrow> (s\<lparr>cx_exchange := x\<rparr>, []))"

section \<open>Events\<close>

datatype cached_event =
    PublishWithCache jsval generator cached_options rat
  | GeneratorAnswers nat "jsval + message"
  | PublicationEnds nat policies call_env "jsval + nat" rat
  | GetFromCache jsval rat
  | InvalidateCache jsval
  | ClearCache
  | SetExchange jsval jsval jsval

fun cached_step :: "'c cache_ops \<Rightarrow> 'c cached \<Rightarrow> cached_event \<Rightarrow> 'c cached \<times> cached_out list" where
  "cached_step ops s (PublishWithCache routing_key gen options now) = publish_with_cache ops routing_key gen options now s"
| "cached_step ops s (GeneratorAnswers n answer) = generator_answers n answer s"
| "cached_step ops s (PublicationEnds n pol env channel now) = publication_ends ops pol n env channel now s"
| "cached_step ops s (GetFromCache routing_key now) = get_from_cache ops routing_key now s"
| "cached_step ops s (InvalidateCache routing_key) = invalidate_cache ops routing_key s"
| "cached_step ops s ClearCache = clear_cache ops s"
| "cached_step ops s (SetExchange name type options) = change_exchange name type options s"

section \<open>Every hit is a published message\<close>

text \<open>
  What the callers of a facade have seen so far, by cache key: the message published last
  under the key and not invalidated since.
\<close>

fun published_view :: "cached_out \<Rightarrow> (string \<Rightarrow> message option) \<Rightarrow> (string \<Rightarrow> message option)" where
  "published_view (PublishedCached n key m sent) g = g(key \<mapsto> m)"
| "published_view (CacheInvalidated key) g = g(key := None)"
| "published_view CacheCleared g = Map.empty"
| "published_view _ g = g"

definition carries_message :: "publisher \<Rightarrow> message \<Rightarrow> publication list \<Rightarrow> bool" where
  "carries_message pb m sent \<longleftrightarrow> sent \<noteq> [] \<and>
     (\<forall>pn \<in> set sent. \<exists>compressed. encode (pb_platform pb) (pb_codec pb) m = Inr (pn_content pn, compressed))"

fun explained :: "publisher \<Rightarrow> (string \<Rightarrow> message option) \<Rightarrow> cached_out \<Rightarrow> bool" where
  "explained pb g (CacheHit n key m) = (g key = Some m)"
| "explained pb g (CacheAnswer key v) = (v = MValue JUndef \<or> g key = Some v)"
| "explained pb g (PublishedCached n key m sent) = carries_message pb m sent"
| "explained pb g (PublishedUncached n m sent) = carries_message pb m sent"
| "explained pb g _ = True"

fun all_explained :: "publisher \<Rightarrow> (string \<Rightarrow> message option) \<Rightarrow> cached_out list \<Rightarrow> bool" where
  "all_explained pb g [] = True"
| "all_explained pb g (out # outs) = (explained pb g out \<and> all_explained pb (published_view out g) outs)"

fun views :: "cached_out list \<Rightarrow> (string \<Rightarrow> message option) \<Rightarrow> (string \<Rightarrow> message option)" where
  "views [] g = g"
| "views (out # outs) g = views outs (published_view out g)"

lemma all_explained_append: "all_explained pb g (xs @ ys) \<longleftrightarrow> all_explained pb g xs \<and> all_explained pb (views xs g) ys"
  by (induction xs arbitrary: g) simp_all

text \<open>The publisher keeps its platform and codec; only its limiter moves.\<close>

definition same_wire :: "publisher \<Rightarrow> publisher \<Rightarrow> bool" where
  "same_wire pb pb' \<longleftrightarrow> pb_platform pb' = pb_platform pb \<and> pb_codec pb' = pb_codec pb"

lemma same_wire_carries: "same_wire pb pb' \<Longrightarrow> carries_message pb' = carries_message pb"
  by (simp add: same_wire_def carries_message_def fun_eq_iff)

lemma publish_keeps_wire:
  assumes "publish pol env ex channel now k m options pb = (pb', pc, res)" shows "same_wire pb pb'"
proof -
  have "fst (publish pol env ex channel now k m options pb) =
      fst (preflight ex k options (key_text k) (rate_cost options) channel now pb)"
    by (auto simp: publish_def after_preflight_def split: prod.split sum.split)
  with assms preflight_keeps show ?thesis by (simp add: same_wire_def)
qed

lemma publish_carries:
  assumes "policies_ok pol" "publish pol env ex channel now k m options pb = (pb', pc, Inr ())"
  shows "carries_message pb m (pc_sent pc)"
proof -
  let ?op = "publish_operation env pb' (ex_name ex) k m options []"
  obtain r where r: "publish_policy pol options ?op (pc_new 1) = (pc, r)" "run_protected r = Inr ()"
    using assms(2) by (auto simp: publish_def after_preflight_def split: prod.splits sum.splits)
  then have "r = Resolved" by (cases r) simp_all
  moreover have "policy_run (nat (max 1 (case po_max_retries options of Some n \<Rightarrow> n | None \<Rightarrow> 3))) ?op (pc_new 1) pc r"
    using assms(1) r(1) unfolding policies_ok_def publish_policy_def by (metis fst_conv snd_conv)
  from policy_run_single [OF this single_new_inv]
  have "single_inv env pb' (ex_name ex) m options [] pc" "r = Resolved \<longrightarrow> pc_sent pc \<noteq> []" by simp_all
  ultimately show ?thesis
    using publish_keeps_wire [OF assms(2)] by (auto simp: single_inv_def carries_message_def same_wire_def)
qed

lemma map_le_get: "m \<subseteq>\<^sub>m g \<Longrightarrow> m k = Some v \<Longrightarrow> g k = Some v"
  by (metis domI map_le_def)

text \<open>The cache holds nothing that was not published, and each step's answers are explained.\<close>

definition follows :: "'c cache_ops \<Rightarrow> publisher \<Rightarrow> (string \<Rightarrow> message option) \<Rightarrow> 'c cached \<Rightarrow> bool" where
  "follows ops pb g s \<longleftrightarrow> nc_entries ops (cx_cache s) \<subseteq>\<^sub>m g \<and> same_wire pb (cx_publisher s)"

definition keeps_view :: "'c cache_ops \<Rightarrow> publisher \<Rightarrow> (string \<Rightarrow> message option) \<Rightarrow> 'c cached \<times> cached_out list \<Rightarrow> bool" where
  "keeps_view ops pb g r \<longleftrightarrow> all_explained pb g (snd r) \<and> follows ops pb (views (snd r) g) (fst r)"

lemma keeps_view_quiet [simp]: "keeps_view ops pb g (s, []) \<longleftrightarrow> follows ops pb g s"
  by (simp add: keeps_view_def)

lemma follows_calls [simp]:
  "follows ops pb g (s\<lparr>cx_calls := cs\<rparr>) = follows ops pb g s" "follows ops pb g (s\<lparr>cx_next := n\<rparr>) = follows ops pb g s"
  "follows ops pb g (s\<lparr>cx_exchange := x\<rparr>) = follows ops pb g s"
  by (simp_all add: follows_def)

lemma cache_laws:
  assumes "cache_lawful ops" "follows ops pb g s"
  shows "snd (nc_get ops k now (cx_cache s)) = MValue JUndef \<or> g k = Some (snd (nc_get ops k now (cx_cache s)))"
    and "follows ops pb g (s\<lparr>cx_cache := fst (nc_get ops k now (cx_cache s))\<rparr>)"
    and "nc_set ops k v ttl now (cx_cache s) = Inr c' \<Longrightarrow> follows ops pb (g(k \<mapsto> v)) (s\<lparr>cx_cache := c'\<rparr>)"
    and "follows ops pb (g(k := None)) (s\<lparr>cx_cache := nc_del ops k (cx_cache s)\<rparr>)"
    and "follows ops pb Map.empty (s\<lparr>cx_cache := nc_flush ops (cx_cache s)\<rparr>)"
proof -
  note law = assms(1) [unfolded cache_lawful_def]
  have sub: "nc_entries ops (cx_cache s) \<subseteq>\<^sub>m g" and wire: "same_wire pb (cx_publisher s)"
    using assms(2) by (simp_all add: follows_def)
  show "snd (nc_get ops k now (cx_cache s)) = MValue JUndef \<or> g k = Some (snd (nc_get ops k now (cx_cache s)))"
    using law map_le_get [OF sub] by metis
  show "follows ops pb g (s\<lparr>cx_cache := fst (nc_get ops k now (cx_cache s))\<rparr>)"
    using map_le_trans [OF _ sub] law wire by (simp add: follows_def)
  have upd: "m \<subseteq>\<^sub>m g(k := x)" if "m \<subseteq>\<^sub>m (nc_entries ops (cx_cache s))(k := x)" for m x
    using map_le_trans [OF that map_le_upd [OF sub]] .
  show "follows ops pb (g(k \<mapsto> v)) (s\<lparr>cx_cache := c'\<rparr>)" if "nc_set ops k v ttl now (cx_cache s) = Inr c'"
    using law that upd wire by (simp add: follows_def)
  show "follows ops pb (g(k := None)) (s\<lparr>cx_cache := nc_del ops k (cx_cache s)\<rparr>)"
    using law upd wire by (simp add: follows_def)
  show "follows ops pb Map.empty (s\<lparr>cx_cache := nc_flush ops (cx_cache s)\<rparr>)"
    using law wire by (simp add: follows_def)
qed

lemma keeps_view_out:
  "follows ops pb (published_view out g) s \<Longrightarrow> explained pb g out \<Longrightarrow> keeps_view ops pb g (s, [out])"
  by (simp add: keeps_view_def)

lemma cached_message_follows [simp]: "follows ops pb g (cached_message n call m s) = follows ops pb g s"
  by (simp add: cached_message_def)

lemma cached_call_keeps:
  assumes "cache_lawful ops" "follows ops pb g s"
  shows "keeps_view ops pb g (cached_call_starts ops n k gen options now s)"
proof (cases "validate_routing_key k (publisher_exchange (cx_exchange s))")
  case None
  note get = cache_laws(1,2) [OF assms]
  have all: "follows ops pb g (s\<lparr>cx_cache := cx_cache s\<rparr>)" using assms(2) by simp
  show ?thesis
  proof (cases "cache_key k s")
    case (Inr key)
    show ?thesis
    proof (cases "cx_use_cache s \<and> snd (nc_get ops key now (cx_cache s)) \<noteq> MValue JUndef")
      case True
      with None Inr get [of key now] show ?thesis
        by (simp add: cached_call_starts_def Let_def split_def keeps_view_out)
    next
      case False
      with None Inr get(2) all show ?thesis
        by (cases gen) (auto simp: cached_call_starts_def Let_def split_def keeps_view_out)
    qed
  qed (simp add: cached_call_starts_def None keeps_view_out assms(2))
qed (simp add: cached_call_starts_def keeps_view_out assms(2))

lemma publication_ends_keeps:
  assumes "cache_lawful ops" "follows ops pb g s" "policies_ok pol"
  shows "keeps_view ops pb g (publication_ends ops pol n env channel now s)"
proof (cases "map_get (cx_calls s) n")
  case (Some call)
  show ?thesis
  proof (cases "cc_stage call")
    case (AwaitsPublish m exchange)
    let ?options = "cached_publish_options (cc_routing_key call) (co_publish (cc_options call))"
    obtain pb' pc res where p: "publish pol env (publisher_exchange exchange) channel now (cc_routing_key call) m ?options (cx_publisher s) = (pb', pc, res)"
      by (metis prod.collapse)
    define s1 where "s1 = s\<lparr>cx_publisher := pb', cx_calls := map_del n (cx_calls s)\<rparr>"
    have wire: "same_wire pb (cx_publisher s)" using assms(2) by (simp add: follows_def)
    then have "same_wire pb pb'" using publish_keeps_wire [OF p] by (simp add: same_wire_def)
    then have f: "follows ops pb g s1" using assms(2) by (simp add: follows_def s1_def)
    have run: "publication_ends ops pol n env channel now s = (case res of
        Inl e \<Rightarrow> (s1, [PublishRejected n e]) | Inr u \<Rightarrow> cache_published ops n call m (pc_sent pc) now s1)"
      using Some AwaitsPublish p by (simp add: publication_ends_def s1_def [symmetric])
    show ?thesis
    proof (cases res)
      case (Inr u)
      then have sent: "carries_message pb m (pc_sent pc)"
        using publish_carries [OF assms(3)] p same_wire_carries [OF wire] by (metis old.unit.exhaust)
      then show ?thesis
        unfolding run Inr using cache_laws(3) [OF assms(1) f]
        by (auto simp: cache_published_def Let_def keeps_view_out f split: sum.split)
    qed (simp add: run keeps_view_out f)
  qed (simp add: publication_ends_def Some assms(2))
qed (simp add: publication_ends_def assms(2))

lemma cached_step_keeps:
  assumes "cache_lawful ops" "follows ops pb g s" "case e of PublicationEnds n pol env channel now \<Rightarrow> policies_ok pol | _ \<Rightarrow> True"
  shows "keeps_view ops pb g (cached_step ops s e)"
proof (cases e)
  case (PublishWithCache k gen options now)
  then show ?thesis by (simp add: publish_with_cache_def cached_call_keeps assms)
next
  case (PublicationEnds n pol env channel now)
  then show ?thesis using assms by (simp add: publication_ends_keeps)
next
  case (GeneratorAnswers n answer)
  then show ?thesis
    using assms(2) by (auto simp: generator_answers_def keeps_view_out split: option.split sum.split)
next
  case (GetFromCache k now)
  then show ?thesis
    using cache_laws(1,2) [OF assms(1,2)] assms(2)
    by (auto simp: get_from_cache_def on_cache_key_def keeps_view_out split_def split: option.split sum.split)
next
  case (InvalidateCache k)
  then show ?thesis
    using cache_laws(4) [OF assms(1,2)] assms(2)
    by (auto simp: invalidate_cache_def on_cache_key_def keeps_view_out split: option.split sum.split)
next
  case ClearCache
  then show ?thesis
    using cache_laws(5) [OF assms(1,2)] assms(2) by (auto simp: clear_cache_def keeps_view_out split: option.split)
next
  case (SetExchange name type options)
  then show ?thesis
    using assms(2) by (auto simp: change_exchange_def keeps_view_out split: sum.split)
qed

fun policies_hold :: "cached_event \<Rightarrow> bool" where
  "policies_hold (PublicationEnds n pol env channel now) \<longleftrightarrow> policies_ok pol"
| "policies_hold _ \<longleftrightarrow> True"

lemma cached_run_explained:
  assumes "cache_lawful ops" "follows ops pb g s" "list_all policies_hold es"
  shows "all_explained pb g (snd (run_machine (cached_step ops) s es))"
  using assms(2,3)
proof (induction es arbitrary: g s)
  case (Cons e es)
  have "case e of PublicationEnds n pol env channel now \<Rightarrow> policies_ok pol | _ \<Rightarrow> True"
    using Cons.prems(2) by (cases e) simp_all
  from cached_step_keeps [OF assms(1) Cons.prems(1) this]
  have "all_explained pb g (snd (cached_step ops s e))" "follows ops pb (views (snd (cached_step ops s e)) g) (fst (cached_step ops s e))"
    by (simp_all add: keeps_view_def)
  with Cons.IH [OF this(2)] Cons.prems(2) show ?case by (simp add: all_explained_append)
qed simp

text \<open>
  C15: \<open>publishWithCache\<close> answers with what was published. For every cache that keeps the documented
  laws and holds nothing at first, and every interleaving of calls, generators, publications,
  invalidations and changes of the exchange: a message that a call gets without publishing it,
  or that \<open>getFromCache\<close> gives, is the one published last under its cache key, and the key has
  not been invalidated nor the cache cleared since; and a call that resolves by publishing has
  sent at least one publication, each with the encoding of the message it answers.
\<close>

theorem cached_messages_were_published:
  fixes es :: "cached_event list" and s :: "'c cached"
  assumes "cache_lawful ops" "nc_entries ops (cx_cache s) = Map.empty" "list_all policies_hold es"
  shows "all_explained (cx_publisher s) Map.empty (snd (run_machine (cached_step ops) s es))"
  using assms by (intro cached_run_explained) (simp_all add: follows_def same_wire_def)

text \<open>A cache with expiry in seconds, 0 for an entry that never expires.\<close>

definition expired :: "rat \<Rightarrow> message \<times> rat option \<Rightarrow> bool" where
  "expired now entry = (case snd entry of Some t \<Rightarrow> t \<le> now | None \<Rightarrow> False)"

definition ttl_cache :: "(string, message \<times> rat option) jsmap cache_ops" where
  "ttl_cache = \<lparr>
     nc_get = (\<lambda>k now c. case map_get c k of
        Some entry \<Rightarrow> if expired now entry then (map_del k c, MValue JUndef) else (c, fst entry)
      | None \<Rightarrow> (c, MValue JUndef)),
     nc_set = (\<lambda>k v ttl now c. Inr (map_set k (v, if ttl = 0 then None else Some (now + ttl * 1000)) c)),
     nc_del = map_del,
     nc_flush = (\<lambda>c. []),
     nc_std_ttl = 60,
     nc_entries = (\<lambda>c k. map_option fst (map_get c k))\<rparr>"

lemma ttl_cache_lawful: "cache_lawful ttl_cache"
  by (simp add: cache_lawful_def ttl_cache_def map_simps map_le_def dom_def fun_eq_iff split: option.split)

definition sample_cached :: "(string, message \<times> rat option) jsmap cached" where
  "sample_cached = \<lparr>cx_use_cache = True, cx_cache = [], cx_exchange = \<lparr>xs_name = JStr ''x'', xs_type = JStr ''direct'', xs_options = JObj True []\<rparr>,
     cx_publisher = sample_publisher, cx_calls = [], cx_next = 0\<rparr>"

definition sample_cached_options :: cached_options where
  "sample_cached_options = \<lparr>co_publish = sample_publish_options\<lparr>po_mandatory := False\<rparr>, co_cache_ttl = None\<rparr>"

definition confirming :: call_env where
  "confirming = \<lparr>ce_channel = (\<lambda>n. Inr 0), ce_answer = (\<lambda>n. Acked), ce_drain = (\<lambda>n. KeepGoing)\<rparr>"

abbreviation run_cached :: "cached_event list \<Rightarrow> cached_out list" where
  "run_cached es \<equiv> snd (run_machine (cached_step ttl_cache) sample_cached es)"

definition ends_well :: "nat \<Rightarrow> cached_event" where
  "ends_well n = PublicationEnds n sample_policies confirming (Inr 0) 10"

theorem cached_messages_were_published_witness:
  "let out = run_cached [PublishWithCache (JStr ''k'') (GivenMessage (MBuffer [1])) sample_cached_options 0, ends_well 0,
       PublishWithCache (JStr ''k'') (GivenMessage (MBuffer [2])) sample_cached_options 60009,
       PublishWithCache (JStr ''k'') (GivenMessage (MBuffer [2])) sample_cached_options 60010]
   in CacheHit 1 ''x:k'' (MBuffer [1]) \<in> set out \<and> length out = 2 \<and> all_explained sample_publisher Map.empty out"
proof -
  define es where "es = [PublishWithCache (JStr ''k'') (GivenMessage (MBuffer [1])) sample_cached_options 0, ends_well 0,
       PublishWithCache (JStr ''k'') (GivenMessage (MBuffer [2])) sample_cached_options 60009,
       PublishWithCache (JStr ''k'') (GivenMessage (MBuffer [2])) sample_cached_options 60010]"
  have "CacheHit 1 ''x:k'' (MBuffer [1]) \<in> set (run_cached es) \<and> length (run_cached es) = 2"
    unfolding es_def by code_simp
  moreover have "list_all policies_hold es"
    by (simp add: es_def ends_well_def sample_policies_ok)
  then have "all_explained (cx_publisher sample_cached) Map.empty (run_cached es)"
    by (intro cached_messages_were_published [OF ttl_cache_lawful]) (simp_all add: sample_cached_def ttl_cache_def fun_eq_iff)
  moreover have "cx_publisher sample_cached = sample_publisher" by (simp add: sample_cached_def)
  ultimately show ?thesis unfolding Let_def es_def [symmetric] by metis
qed

section \<open>What the cache key does not say\<close>

text \<open>
  The key joins the name of the exchange and the routing key with a colon, which both may
  contain: a call on the exchange \<open>x:y\<close> is a hit for what was published on \<open>x\<close>, and publishes
  nothing.
\<close>

theorem cache_keys_collide:
  "let out = run_cached [PublishWithCache (JStr ''y:k'') (GivenMessage (MBuffer [1])) sample_cached_options 0, ends_well 0,
       SetExchange (JStr ''x:y'') JUndef JUndef,
       PublishWithCache (JStr ''k'') (GivenMessage (MBuffer [2])) sample_cached_options 20]
   in CacheHit 1 ''x:y:k'' (MBuffer [1]) \<in> set out"
  by code_simp

text \<open>
  The message is cached when its publication has ended: a call that comes before publishes it
  once more, although the repeated calls come within the time to live.
\<close>

theorem overlapping_calls_publish_twice:
  "let out = run_cached [PublishWithCache (JStr ''k'') (GivenMessage (MBuffer [1])) sample_cached_options 0,
       PublishWithCache (JStr ''k'') (GivenMessage (MBuffer [1])) sample_cached_options 1, ends_well 0, ends_well 1]
   in length (filter (\<lambda>x. case x of PublishedCached n key m sent \<Rightarrow> sent \<noteq> [] | _ \<Rightarrow> False) out) = 2"
  by code_simp

text \<open>
  The key is taken before the generator is awaited, the exchange after it: when the exchange
  changes in between, the message goes to the new exchange and into the cache of the old one,
  where the next call finds it without anything having been published there.
\<close>

theorem generator_outlives_exchange:
  "let out = run_cached [PublishWithCache (JStr ''k'') GeneratorFunction sample_cached_options 0,
       SetExchange (JStr ''z'') (JStr ''topic'') JUndef, GeneratorAnswers 0 (Inr (MBuffer [1])), ends_well 0,
       SetExchange (JStr ''x'') JUndef JUndef, PublishWithCache (JStr ''k'') GeneratorFunction sample_cached_options 20]
   in CacheHit 1 ''x:k'' (MBuffer [1]) \<in> set out \<and>
     list_all (\<lambda>x. case x of PublishedCached n key m sent \<Rightarrow> map pn_exchange sent = [''z''] | _ \<Rightarrow> True) out"
  by code_simp

end
