(* ===== verification/Circuit_Breaker.thy ===== *)
theory Circuit_Breaker
  imports Prelude
begin

text \<open>
  \<open>src/resilience/circuit-breaker.js\<close>: the adapter over the circuit breaker of the library
  breakwater. A policy of that library is a parameter of which only the documented contract is
  used: it starts closed, its state is what its last \<open>stateChange\<close> said, and in the half-open
  state it closes after \<open>floor(halfOpenCalls / 2) + 1\<close> successful probes. Policies are
  numbered; their transitions are events.
\<close>

datatype policy_state = Closed | Open | Half_Open | Isolated

fun state_label :: "policy_state \<Rightarrow> string" where
  "state_label Closed = ''CLOSED''"
| "state_label Open = ''OPEN''"
| "state_label Half_Open = ''HALF-OPEN''"
| "state_label Isolated = ''ISOLATED''"

record breaker_options =
  bo_failure_threshold :: "rat option"
  bo_success_threshold :: "rat option"
  bo_timeout :: "rat option"

record policy_options =
  pl_consecutive_failures :: rat
  pl_half_open_after :: rat
  pl_half_open_calls :: rat

record breaker =
  cb_failure_threshold :: rat
  cb_success_threshold :: rat
  cb_timeout :: rat
  cb_policies :: "policy_state list"

text \<open>The current policy is the last one created.\<close>

definition create_policy :: "breaker \<Rightarrow> breaker" where
  "create_policy b = b\<lparr>cb_policies := cb_policies b @ [Closed]\<rparr>"

definition policy_configuration :: "breaker \<Rightarrow> policy_options" where
  "policy_configuration b = \<lparr>pl_consecutive_failures = cb_failure_threshold b, pl_half_open_after = cb_timeout b,
     pl_half_open_calls = cb_success_threshold b * 2 - 1\<rparr>"

definition cb_new :: "breaker_options \<Rightarrow> breaker" where
  "cb_new options = create_policy \<lparr>cb_failure_threshold = num_or (bo_failure_threshold options) 5,
     cb_success_threshold = num_or (bo_success_threshold options) 2, cb_timeout = num_or (bo_timeout options) 60000,
     cb_policies = []\<rparr>"

definition current_policy :: "breaker \<Rightarrow> nat" where
  "current_policy b = length (cb_policies b) - 1"

definition current_state :: "breaker \<Rightarrow> policy_state" where
  "current_state b = cb_policies b ! current_policy b"

text \<open>The listener of every policy ever created: it emits \<open>stateChanged\<close>.\<close>

definition policy_changed :: "nat \<Rightarrow> policy_state \<Rightarrow> breaker \<Rightarrow> breaker \<times> string list" where
  "policy_changed n to b = (b\<lparr>cb_policies := (cb_policies b)[n := to]\<rparr>, [state_label to])"

definition cb_reset :: "breaker \<Rightarrow> breaker \<times> string list" where
  "cb_reset b = (create_policy b, if current_state b = Closed then [] else [state_label Closed])"

record policy_stats =
  st_failures :: nat
  st_successes :: nat
  st_next_attempt :: "rat option"

record breaker_state =
  bs_state :: string
  bs_failure_count :: nat
  bs_success_count :: nat
  bs_next_attempt :: rat

definition get_state :: "policy_stats \<Rightarrow> rat \<Rightarrow> breaker \<Rightarrow> breaker_state" where
  "get_state stats now b = \<lparr>bs_state = state_label (current_state b), bs_failure_count = st_failures stats,
     bs_success_count = st_successes stats,
     bs_next_attempt = (case st_next_attempt stats of Some t \<Rightarrow> t | None \<Rightarrow> now)\<rparr>"

datatype cb_event =
    PolicyChanged nat policy_state
  | Reset

fun cb_step :: "breaker \<Rightarrow> cb_event \<Rightarrow> breaker \<times> string list" where
  "cb_step b (PolicyChanged n to) = (if n < length (cb_policies b) then policy_changed n to b else (b, []))"
| "cb_step b Reset = cb_reset b"

section \<open>What listeners hear is the state\<close>

definition cb_inv :: "breaker \<Rightarrow> bool" where
  "cb_inv b \<longleftrightarrow> cb_policies b \<noteq> []"

lemma cb_step_inv: "cb_inv b \<Longrightarrow> cb_inv (fst (cb_step b e))"
  by (cases e) (auto simp: cb_inv_def policy_changed_def cb_reset_def create_policy_def)

interpretation cbm: event_machine cb_step "\<lambda>e. True" cb_inv
  by unfold_locales (rule cb_step_inv)

text \<open>A policy that was replaced by a reset says nothing any more.\<close>

fun superseded_silent :: "breaker \<Rightarrow> cb_event list \<Rightarrow> bool" where
  "superseded_silent b [] = True"
| "superseded_silent b (e # es) =
     ((case e of PolicyChanged n to \<Rightarrow> n = current_policy b | Reset \<Rightarrow> True) \<and> superseded_silent (fst (cb_step b e)) es)"

lemma heard_step:
  assumes "cb_inv b" "state_label (current_state b) = last (heard # out)"
    and "case e of PolicyChanged n to \<Rightarrow> n = current_policy b | Reset \<Rightarrow> True"
  shows "state_label (current_state (fst (cb_step b e))) = last (heard # out @ snd (cb_step b e))"
  using assms by (cases e) (auto simp: cb_inv_def policy_changed_def cb_reset_def create_policy_def current_state_def current_policy_def)

lemma heard_run:
  "cb_inv b \<Longrightarrow> state_label (current_state b) = last (heard # out) \<Longrightarrow> superseded_silent b es \<Longrightarrow>
     state_label (current_state (fst (run_machine cb_step b es))) = last (heard # out @ snd (run_machine cb_step b es))"
proof (induction es arbitrary: b out)
  case (Cons e es)
  have "state_label (current_state (fst (cb_step b e))) = last (heard # out @ snd (cb_step b e))"
    using Cons.prems by (intro heard_step) auto
  from Cons.IH [OF cb_step_inv [OF Cons.prems(1)] this] Cons.prems(3) show ?case by simp
qed simp

text \<open>
  The names that breakwater gives its states. Independently of the table of the code, the state
  that the library announces is this name in upper case.
\<close>

fun policy_name :: "policy_state \<Rightarrow> string" where
  "policy_name Closed = ''closed''"
| "policy_name Open = ''open''"
| "policy_name Half_Open = ''half-open''"
| "policy_name Isolated = ''isolated''"

definition upper_char :: "char \<Rightarrow> char" where
  "upper_char c = (let n = of_char c :: nat in if 97 \<le> n \<and> n \<le> 122 then char_of (n - 32) else c)"

abbreviation upper_case :: "string \<Rightarrow> string" where
  "upper_case \<equiv> map upper_char"

lemma state_label_upper: "state_label p = upper_case (policy_name p)"
  by (cases p; simp only:; code_simp)

text \<open>
  What the policy in use said last, read off the events alone: its number is the number of
  resets before, and it starts closed.
\<close>

fun last_said :: "nat \<Rightarrow> string \<Rightarrow> cb_event list \<Rightarrow> string" where
  "last_said n name [] = name"
| "last_said n name (Reset # es) = last_said (Suc n) ''closed'' es"
| "last_said n name (PolicyChanged m to # es) = last_said n (if m = n then policy_name to else name) es"

lemma last_said_state:
  "cb_inv b \<Longrightarrow> policy_name (current_state (fst (run_machine cb_step b es))) =
     last_said (current_policy b) (policy_name (current_state b)) es"
proof (induction es arbitrary: b)
  case (Cons e es)
  have "last_said (current_policy (fst (cb_step b e))) (policy_name (current_state (fst (cb_step b e)))) es =
      last_said (current_policy b) (policy_name (current_state b)) (e # es)"
    using Cons.prems
    by (cases e) (auto simp: cb_inv_def policy_changed_def cb_reset_def create_policy_def current_state_def current_policy_def nth_list_update)
  with Cons.IH [OF cb_step_inv [OF Cons.prems]] show ?case by simp
qed simp

text \<open>
  C40: The breaker keeps its public contract over breakwater. Its probe pool makes the policy close
  after exactly \<open>successThreshold\<close> successful probes, for every positive whole threshold. The
  state that \<open>getState\<close> reports is, in upper case, what the policy in use said last,
  \<open>closed\<close> after a reset or at the start: what a policy replaced by a reset still says changes
  nothing. A reset leaves the breaker closed and announces that exactly if it was not. Listeners
  of \<open>stateChanged\<close> also hear the replaced policies; if those are silent, the last that
  listeners heard is what \<open>getState\<close> reports (\<open>CLOSED\<close> before the first change).
\<close>

theorem breaker_contract:
  assumes "bo_success_threshold options = Some (of_nat s)" "0 < s"
  shows "\<lfloor>pl_half_open_calls (policy_configuration (cb_new options)) / 2\<rfloor> + 1 = int s \<and>
    (let (b, heard) = run_machine cb_step (cb_new options) es; state = bs_state (get_state stats now b)
     in state = upper_case (last_said 0 ''closed'' es) \<and>
        bs_state (get_state stats now (fst (cb_reset b))) = ''CLOSED'' \<and>
        snd (cb_reset b) = (if state = ''CLOSED'' then [] else [''CLOSED'']) \<and>
        (superseded_silent (cb_new options) es \<longrightarrow> state = last (''CLOSED'' # heard)))"
proof -
  have half: "\<lfloor>(of_nat s * 2 - 1) / 2 :: rat\<rfloor> = int s - 1"
    unfolding floor_eq_iff by (simp add: field_simps)
  have "pl_half_open_calls (policy_configuration (cb_new options)) = of_nat s * 2 - 1"
    using assms by (simp add: policy_configuration_def cb_new_def create_policy_def num_or_def)
  then have probes: "\<lfloor>pl_half_open_calls (policy_configuration (cb_new options)) / 2\<rfloor> + 1 = int s"
    by (simp only: half)
  define b where "b = fst (run_machine cb_step (cb_new options) es)"
  have new: "cb_inv (cb_new options)" "current_state (cb_new options) = Closed" "current_policy (cb_new options) = 0"
    by (simp_all add: cb_inv_def cb_new_def create_policy_def current_state_def current_policy_def)
  have "state_label (current_state b) = upper_case (last_said 0 ''closed'' es)"
    using last_said_state [OF new(1), of es] unfolding state_label_upper b_def by (simp add: new)
  moreover have "current_state (fst (cb_reset b)) = Closed"
    by (simp add: cb_reset_def create_policy_def current_state_def current_policy_def)
  moreover have "snd (cb_reset b) = (if state_label (current_state b) = ''CLOSED'' then [] else [''CLOSED''])"
    by (cases "current_state b") (simp_all add: cb_reset_def)
  moreover have "superseded_silent (cb_new options) es \<longrightarrow>
      state_label (current_state b) = last (''CLOSED'' # snd (run_machine cb_step (cb_new options) es))"
    using heard_run [OF new(1), of "''CLOSED''" "[]" es] new(2) unfolding b_def by simp
  ultimately show ?thesis
    using probes unfolding b_def by (simp add: split_def Let_def get_state_def)
qed

definition sample_breaker_options :: breaker_options where
  "sample_breaker_options = \<lparr>bo_failure_threshold = Some 1, bo_success_threshold = Some 3, bo_timeout = None\<rparr>"

theorem breaker_contract_witness:
  "pl_half_open_calls (policy_configuration (cb_new sample_breaker_options)) = 5 \<and>
   \<lfloor>pl_half_open_calls (policy_configuration (cb_new sample_breaker_options)) / 2\<rfloor> + 1 = 3 \<and>
   bs_state (get_state \<lparr>st_failures = 1, st_successes = 0, st_next_attempt = None\<rparr> 0
     (fst (run_machine cb_step (cb_new sample_breaker_options) [PolicyChanged 0 Open, Reset, PolicyChanged 1 Half_Open, PolicyChanged 0 Closed]))) =
     ''HALF-OPEN''"
proof -
  have "upper_case (last_said 0 ''closed'' [PolicyChanged 0 Open, Reset, PolicyChanged 1 Half_Open, PolicyChanged 0 Closed]) = ''HALF-OPEN''"
    by code_simp
  moreover have "bo_success_threshold sample_breaker_options = Some (of_nat 3)" by (simp add: sample_breaker_options_def)
  moreover have "pl_half_open_calls (policy_configuration (cb_new sample_breaker_options)) = 5"
    by (simp add: sample_breaker_options_def policy_configuration_def cb_new_def create_policy_def num_or_def)
  ultimately show ?thesis
    using breaker_contract [of sample_breaker_options 3 "[PolicyChanged 0 Open, Reset, PolicyChanged 1 Half_Open, PolicyChanged 0 Closed]"
        "\<lparr>st_failures = 1, st_successes = 0, st_next_attempt = None\<rparr>" 0]
    by (simp add: split_def Let_def)
qed

text \<open>
  A publish that is still running under a policy replaced by a reset makes that policy open:
  listeners hear \<open>OPEN\<close> although the breaker is closed and stays so.
\<close>

theorem superseded_policy_is_heard:
  "let (b, heard) = run_machine cb_step (cb_new sample_breaker_options) [Reset, PolicyChanged 0 Open]
   in heard = [''OPEN''] \<and> state_label (current_state b) = ''CLOSED''"
  by code_simp

end
