(* ===== verification/Channel_Pool.thy ===== *)
theory Channel_Pool
  imports Utils
begin

text \<open>
  \<open>src/connection/channel-pool.js\<close>: a fixed number of confirm channels handed out in turn,
  each replaced when it dies, and dedicated channels by owner. Channels are numbered in the
  order in which they are opened; a channel listener holds the slot or the owner it was created
  for. Like in the consumer lifecycle, an \<open>async\<close> function that waits is a task, and the
  connection and the clock answer as events.
\<close>

section \<open>State\<close>

datatype after_close = AfterClose | AfterInitClose | AfterInitFailure jsval

datatype cp_task =
    InitOpen nat
  | ReplaceOpen nat nat
  | ReplaceSleep nat nat
  | DiscardClose
  | DedicatedOpen string
  | ReleaseClose
  | CloseAll after_close

text \<open>
  \<open>cp_outcomes\<close> are the settled opens of an initialization, by slot (\<open>None\<close> for an open
  that succeeded). \<open>cp_dead\<close> are the channels whose \<open>close\<close> event has been emitted.
\<close>

record channel_pool =
  cp_size :: nat
  cp_channels :: "nat option list"
  cp_index :: nat
  cp_dedicated :: "(string, nat) jsmap"
  cp_closed :: bool
  cp_outcomes :: "(nat, jsval option) jsmap"
  cp_slot_of :: "(nat, nat) jsmap"
  cp_owner_of :: "(nat, string) jsmap"
  cp_dead :: "nat list"
  cp_next_channel :: nat
  cp_tasks :: "(nat, cp_task) jsmap"
  cp_next_task :: nat

datatype cp_out =
    CreateConfirmChannel
  | CloseChannel nat
  | SleepFor nat
  | Initialized
  | InitializeFailed jsval
  | PoolClosed
  | GotChannel nat
  | NoChannel string
  | GotDedicated string nat
  | DedicatedFailed string jsval

definition max_replace_attempts :: nat where
  "max_replace_attempts = 5"

definition cp_new :: "nat \<Rightarrow> channel_pool" where
  "cp_new pool_size = \<lparr>cp_size = pool_size, cp_channels = [], cp_index = 0, cp_dedicated = [], cp_closed = False,
     cp_outcomes = [], cp_slot_of = [], cp_owner_of = [], cp_dead = [], cp_next_channel = 0,
     cp_tasks = [], cp_next_task = 0\<rparr>"

section \<open>Operations\<close>

definition cp_await :: "cp_task \<Rightarrow> channel_pool \<Rightarrow> channel_pool" where
  "cp_await t p = p\<lparr>cp_tasks := map_set (cp_next_task p) t (cp_tasks p), cp_next_task := Suc (cp_next_task p)\<rparr>"

text \<open>An assignment to an array element: the array grows, the elements in between are absent.\<close>

definition set_slot :: "nat option list \<Rightarrow> nat \<Rightarrow> nat option \<Rightarrow> nat option list" where
  "set_slot xs i v = (if i < length xs then xs[i := v] else xs @ replicate (i - length xs) None @ [v])"

text \<open>\<open>createPoolChannel\<close> once the channel is open; the result is the channel.\<close>

definition create_pool_channel :: "nat \<Rightarrow> channel_pool \<Rightarrow> channel_pool \<times> nat" where
  "create_pool_channel i p =
     (let ch = cp_next_channel p;
          p1 = p\<lparr>cp_next_channel := Suc ch, cp_slot_of := map_set ch i (cp_slot_of p)\<rparr>
      in (if \<not> cp_closed p then p1\<lparr>cp_channels := set_slot (cp_channels p1) i (Some ch)\<rparr> else p1, ch))"

text \<open>The test of the loop of \<open>replacePoolChannel\<close> and the start of an attempt.\<close>

definition replace_attempt :: "nat \<Rightarrow> nat \<Rightarrow> channel_pool \<Rightarrow> channel_pool \<times> cp_out list" where
  "replace_attempt i attempt p =
     (if attempt \<le> max_replace_attempts \<and> \<not> cp_closed p
      then (cp_await (ReplaceOpen i attempt) p, [CreateConfirmChannel]) else (p, []))"

definition replace_opened :: "nat \<Rightarrow> channel_pool \<Rightarrow> channel_pool \<times> cp_out list" where
  "replace_opened i p =
     (let (p1, ch) = create_pool_channel i p
      in if cp_closed p1 then (cp_await DiscardClose p1, [CloseChannel ch]) else (p1, []))"

definition cp_close :: "after_close \<Rightarrow> channel_pool \<Rightarrow> channel_pool \<times> cp_out list" where
  "cp_close after p =
     (cp_await (CloseAll after) (p\<lparr>cp_closed := True\<rparr>),
      map CloseChannel (map the (filter (\<lambda>c. c \<noteq> None) (cp_channels p)) @ map snd (cp_dedicated p)))"

fun init_opens :: "nat list \<Rightarrow> channel_pool \<Rightarrow> channel_pool \<times> cp_out list" where
  "init_opens [] p = (p, [])"
| "init_opens (i # is) p = apsnd (\<lambda>out. CreateConfirmChannel # out) (init_opens is (cp_await (InitOpen i) p))"

fun open_rejected :: "jsval option option \<Rightarrow> bool" where
  "open_rejected (Some (Some e)) = True"
| "open_rejected _ = False"

text \<open>The end of \<open>initialize\<close> when every open has settled.\<close>

definition init_settled :: "channel_pool \<Rightarrow> channel_pool \<times> cp_out list" where
  "init_settled p =
     (if list_all (\<lambda>i. map_has (cp_outcomes p) i) [0 ..< cp_size p]
      then case List.find (\<lambda>i. open_rejected (map_get (cp_outcomes p) i)) [0 ..< cp_size p] of
             None \<Rightarrow> (p, [Initialized])
           | Some i \<Rightarrow> cp_close (AfterInitFailure (the (the (map_get (cp_outcomes p) i)))) p
      else (p, []))"

definition closed_all :: "after_close \<Rightarrow> channel_pool \<Rightarrow> channel_pool \<times> cp_out list" where
  "closed_all after p =
     (let p1 = p\<lparr>cp_channels := [], cp_index := 0, cp_dedicated := []\<rparr>
      in case after of
           AfterClose \<Rightarrow> (p1, [PoolClosed])
         | AfterInitFailure e \<Rightarrow> (p1, [InitializeFailed e])
         | AfterInitClose \<Rightarrow>
             (let (p2, out) = init_opens [0 ..< cp_size p1] (p1\<lparr>cp_closed := False, cp_outcomes := []\<rparr>)
              in if cp_size p1 = 0 then (p2, out @ [Initialized]) else (p2, out)))"

definition get_dedicated_channel :: "string \<Rightarrow> channel_pool \<Rightarrow> channel_pool \<times> cp_out list" where
  "get_dedicated_channel i p = (case map_get (cp_dedicated p) i of
      Some ch \<Rightarrow> (p, [GotDedicated i ch])
    | None \<Rightarrow> (cp_await (DedicatedOpen i) p, [CreateConfirmChannel]))"

definition dedicated_opened :: "string \<Rightarrow> channel_pool \<Rightarrow> channel_pool \<times> cp_out list" where
  "dedicated_opened i p =
     (let ch = cp_next_channel p
      in (p\<lparr>cp_next_channel := Suc ch, cp_owner_of := map_set ch i (cp_owner_of p),
            cp_dedicated := map_set i ch (cp_dedicated p)\<rparr>, [GotDedicated i ch]))"

definition release_dedicated_channel :: "string \<Rightarrow> channel_pool \<Rightarrow> channel_pool \<times> cp_out list" where
  "release_dedicated_channel i p = (case map_get (cp_dedicated p) i of
      None \<Rightarrow> (p, [])
    | Some ch \<Rightarrow> (cp_await ReleaseClose (p\<lparr>cp_dedicated := map_del i (cp_dedicated p)\<rparr>), [CloseChannel ch]))"

text \<open>The loop of \<open>getChannel\<close>; the first argument counts the slots left to look at.\<close>

fun next_channel :: "nat \<Rightarrow> channel_pool \<Rightarrow> channel_pool \<times> nat option" where
  "next_channel 0 p = (p, None)"
| "next_channel (Suc n) p =
     (let c = cp_channels p ! cp_index p;
          p1 = p\<lparr>cp_index := (cp_index p + 1) mod length (cp_channels p)\<rparr>
      in case c of Some ch \<Rightarrow> (p1, Some ch) | None \<Rightarrow> next_channel n p1)"

definition get_channel :: "channel_pool \<Rightarrow> channel_pool \<times> (string + nat)" where
  "get_channel p =
     (if cp_channels p = [] then (p, Inl ''Channel pool is not initialized'')
      else case next_channel (length (cp_channels p)) p of
             (p1, Some ch) \<Rightarrow> (p1, Inr ch)
           | (p1, None) \<Rightarrow> (p1, Inl ''No usable channels available in the pool''))"

text \<open>The listeners of a pool channel and of a dedicated one.\<close>

definition channel_closed :: "nat \<Rightarrow> channel_pool \<Rightarrow> channel_pool \<times> cp_out list" where
  "channel_closed ch p =
     (let p1 = p\<lparr>cp_dead := ch # cp_dead p\<rparr>
      in case map_get (cp_owner_of p1) ch of
           Some i \<Rightarrow> (p1\<lparr>cp_dedicated := map_del i (cp_dedicated p1)\<rparr>, [])
         | None \<Rightarrow> (case map_get (cp_slot_of p1) ch of
             None \<Rightarrow> (p1, [])
           | Some i \<Rightarrow>
               if cp_closed p1 \<or> \<not> (i < length (cp_channels p1) \<and> cp_channels p1 ! i = Some ch) then (p1, [])
               else replace_attempt i 1 (p1\<lparr>cp_channels := (cp_channels p1)[i := None]\<rparr>)))"

definition channel_errored :: "nat \<Rightarrow> channel_pool \<Rightarrow> channel_pool" where
  "channel_errored ch p = (case map_get (cp_owner_of p) ch of
      Some i \<Rightarrow> p\<lparr>cp_dedicated := map_del i (cp_dedicated p)\<rparr> | None \<Rightarrow> p)"

section \<open>Events\<close>

datatype cp_event =
    Initialize
  | OpenDone nat
  | OpenFailed nat jsval
  | Waited nat
  | ChannelClosed nat
  | ChannelErrored nat
  | GetChannel
  | GetDedicated string
  | ReleaseDedicated string
  | ClosePool

definition resume_open :: "cp_task \<Rightarrow> channel_pool \<Rightarrow> channel_pool \<times> cp_out list" where
  "resume_open t p = (case t of
      InitOpen i \<Rightarrow> (let (p1, ch) = create_pool_channel i p
                    in init_settled (p1\<lparr>cp_outcomes := map_set i None (cp_outcomes p1)\<rparr>))
    | ReplaceOpen i attempt \<Rightarrow> replace_opened i p
    | DedicatedOpen i \<Rightarrow> dedicated_opened i p
    | _ \<Rightarrow> (p, []))"

definition resume_failed :: "cp_task \<Rightarrow> jsval \<Rightarrow> channel_pool \<Rightarrow> channel_pool \<times> cp_out list" where
  "resume_failed t e p = (case t of
      InitOpen i \<Rightarrow> init_settled (p\<lparr>cp_outcomes := map_set i (Some e) (cp_outcomes p)\<rparr>)
    | ReplaceOpen i attempt \<Rightarrow> (cp_await (ReplaceSleep i attempt) p, [SleepFor attempt])
    | DedicatedOpen i \<Rightarrow> (p, [DedicatedFailed i e])
    | _ \<Rightarrow> (p, []))"

definition resume_wait :: "cp_task \<Rightarrow> channel_pool \<Rightarrow> channel_pool \<times> cp_out list" where
  "resume_wait t p = (case t of
      ReplaceSleep i attempt \<Rightarrow> replace_attempt i (Suc attempt) p
    | CloseAll after \<Rightarrow> closed_all after p
    | _ \<Rightarrow> (p, []))"

fun is_open_task :: "cp_task \<Rightarrow> bool" where
  "is_open_task (InitOpen i) = True"
| "is_open_task (ReplaceOpen i a) = True"
| "is_open_task (DedicatedOpen i) = True"
| "is_open_task _ = False"

text \<open>A task waits either for a channel to open or for something else (a close, the clock).\<close>

definition cp_resume :: "nat \<Rightarrow> bool \<Rightarrow> (cp_task \<Rightarrow> channel_pool \<Rightarrow> channel_pool \<times> cp_out list) \<Rightarrow>
    channel_pool \<Rightarrow> channel_pool \<times> cp_out list" where
  "cp_resume t opening f p = (case map_get (cp_tasks p) t of
      None \<Rightarrow> (p, [])
    | Some task \<Rightarrow> if is_open_task task = opening then f task (p\<lparr>cp_tasks := map_del t (cp_tasks p)\<rparr>) else (p, []))"

fun cp_step :: "channel_pool \<Rightarrow> cp_event \<Rightarrow> channel_pool \<times> cp_out list" where
  "cp_step p Initialize = cp_close AfterInitClose p"
| "cp_step p (OpenDone t) = cp_resume t True resume_open p"
| "cp_step p (OpenFailed t e) = cp_resume t True (\<lambda>task. resume_failed task e) p"
| "cp_step p (Waited t) = cp_resume t False resume_wait p"
| "cp_step p (ChannelClosed ch) = (if ch < cp_next_channel p then channel_closed ch p else (p, []))"
| "cp_step p (ChannelErrored ch) = (channel_errored ch p, [])"
| "cp_step p GetChannel = (case get_channel p of
      (p1, Inr ch) \<Rightarrow> (p1, [GotChannel ch]) | (p1, Inl e) \<Rightarrow> (p1, [NoChannel e]))"
| "cp_step p (GetDedicated i) = get_dedicated_channel i p"
| "cp_step p (ReleaseDedicated i) = release_dedicated_channel i p"
| "cp_step p ClosePool = cp_close AfterClose p"

section \<open>What the pool keeps\<close>

text \<open>
  The invariant: the slots and the owners of channels are those of their listeners, no number
  is used twice, and in an open pool no slot and no owner holds a channel that has died.
\<close>

definition slots_ok :: "channel_pool \<Rightarrow> bool" where
  "slots_ok p = (\<forall>i < length (cp_channels p). \<forall>ch. cp_channels p ! i = Some ch \<longrightarrow>
     map_get (cp_slot_of p) ch = Some i \<and> (\<not> cp_closed p \<longrightarrow> ch \<notin> set (cp_dead p)))"

definition owners_ok :: "channel_pool \<Rightarrow> bool" where
  "owners_ok p = (\<forall>i ch. map_get (cp_dedicated p) i = Some ch \<longrightarrow>
     map_get (cp_owner_of p) ch = Some i \<and> ch \<notin> set (cp_dead p))"

definition numbers_ok :: "channel_pool \<Rightarrow> bool" where
  "numbers_ok p = ((\<forall>ch \<in> key_set (cp_slot_of p) \<union> key_set (cp_owner_of p) \<union> set (cp_dead p). ch < cp_next_channel p) \<and>
     key_set (cp_slot_of p) \<inter> key_set (cp_owner_of p) = {} \<and>
     (cp_channels p = [] \<longrightarrow> cp_index p = 0) \<and> (cp_channels p \<noteq> [] \<longrightarrow> cp_index p < length (cp_channels p)))"

definition cp_inv :: "channel_pool \<Rightarrow> bool" where
  "cp_inv p = (slots_ok p \<and> owners_ok p \<and> numbers_ok p)"

lemmas cp_inv_defs = cp_inv_def slots_ok_def owners_ok_def numbers_ok_def

lemma set_slot_nth:
  "j < length (set_slot xs i v) \<Longrightarrow> set_slot xs i v ! j = (if j = i then v else if j < length xs then xs ! j else None)"
  by (auto simp: set_slot_def nth_append nth_Cons')

lemma set_slot_length: "length (set_slot xs i v) = max (length xs) (Suc i)"
  by (auto simp: set_slot_def)

lemma set_slot_not_Nil [simp]: "set_slot xs i v \<noteq> []"
  by (metis set_slot_length length_0_conv max_def not_less_eq_eq zero_le)

lemma cp_new_inv: "cp_inv (cp_new n)"
  by (simp add: cp_inv_defs cp_new_def)

lemma cp_await_fields [simp]:
  "cp_channels (cp_await t p) = cp_channels p" "cp_index (cp_await t p) = cp_index p"
  "cp_dedicated (cp_await t p) = cp_dedicated p" "cp_closed (cp_await t p) = cp_closed p"
  "cp_slot_of (cp_await t p) = cp_slot_of p" "cp_owner_of (cp_await t p) = cp_owner_of p"
  "cp_dead (cp_await t p) = cp_dead p" "cp_next_channel (cp_await t p) = cp_next_channel p"
  "cp_size (cp_await t p) = cp_size p" "cp_outcomes (cp_await t p) = cp_outcomes p"
  by (simp_all add: cp_await_def)

lemma cp_inv_await [simp]: "cp_inv (cp_await t p) = cp_inv p"
  by (simp add: cp_inv_defs)

lemma cp_inv_update [simp]:
  "cp_inv (p\<lparr>cp_tasks := ts\<rparr>) = cp_inv p" "cp_inv (p\<lparr>cp_outcomes := oc\<rparr>) = cp_inv p"
  by (simp_all add: cp_inv_defs)

lemma cp_inv_close: "cp_inv p \<Longrightarrow> cp_inv (p\<lparr>cp_closed := True\<rparr>)"
  by (simp add: cp_inv_defs)

lemma cp_inv_empty: "cp_inv p \<Longrightarrow> cp_inv (p\<lparr>cp_channels := [], cp_index := 0, cp_dedicated := []\<rparr>)"
  by (simp add: cp_inv_defs)

lemma cp_inv_reopen: "cp_inv p \<Longrightarrow> cp_channels p = [] \<Longrightarrow> cp_inv (p\<lparr>cp_closed := False\<rparr>)"
  by (simp add: cp_inv_defs)

lemma cp_inv_undedicate: "cp_inv p \<Longrightarrow> cp_inv (p\<lparr>cp_dedicated := map_del i (cp_dedicated p)\<rparr>)"
  by (simp add: cp_inv_defs map_get_del)

lemma create_pool_channel_inv:
  assumes "cp_inv p" shows "cp_inv (fst (create_pool_channel i p))"
proof -
  have fresh: "cp_next_channel p \<notin> key_set (cp_slot_of p)" "cp_next_channel p \<notin> key_set (cp_owner_of p)"
    "cp_next_channel p \<notin> set (cp_dead p)" "cp_next_channel p \<notin> set []"
    using assms by (auto simp: cp_inv_def numbers_ok_def)
  let ?q = "fst (create_pool_channel i p)"
  have slots: "slots_ok ?q"
    using assms fresh
    by (auto simp: create_pool_channel_def Let_def slots_ok_def cp_inv_def map_get_set set_slot_nth map_get_None dest: map_get_key split: if_splits)
  have "owners_ok ?q"
    using assms by (simp add: create_pool_channel_def Let_def owners_ok_def cp_inv_def)
  moreover have "numbers_ok ?q"
    using assms fresh by (auto simp: create_pool_channel_def Let_def numbers_ok_def cp_inv_def set_slot_length less_Suc_eq)
  ultimately show ?thesis using slots by (simp add: cp_inv_def)
qed

lemma replace_attempt_inv: "cp_inv p \<Longrightarrow> cp_inv (fst (replace_attempt i a p))"
  by (simp add: replace_attempt_def)

lemma replace_opened_inv: "cp_inv p \<Longrightarrow> cp_inv (fst (replace_opened i p))"
  using create_pool_channel_inv [of p i] by (simp add: replace_opened_def split_def Let_def)

lemma cp_close_inv: "cp_inv p \<Longrightarrow> cp_inv (fst (cp_close a p))"
  by (simp add: cp_close_def cp_inv_close)

lemma init_opens_inv: "cp_inv p \<Longrightarrow> cp_inv (fst (init_opens xs p))"
  by (induction xs arbitrary: p) simp_all

lemma init_settled_inv: "cp_inv p \<Longrightarrow> cp_inv (fst (init_settled p))"
  by (simp add: init_settled_def cp_close_inv split: option.splits)

lemma closed_all_inv: "cp_inv p \<Longrightarrow> cp_inv (fst (closed_all a p))"
  using cp_inv_empty [of p] init_opens_inv
    [of "p\<lparr>cp_channels := [], cp_index := 0, cp_dedicated := [], cp_closed := False, cp_outcomes := []\<rparr>"]
    cp_inv_reopen [of "p\<lparr>cp_channels := [], cp_index := 0, cp_dedicated := []\<rparr>"]
  by (cases a) (auto simp: closed_all_def Let_def split_def)

lemma dedicated_opened_inv:
  assumes "cp_inv p" shows "cp_inv (fst (dedicated_opened i p))"
proof -
  have fresh: "cp_next_channel p \<notin> key_set (cp_slot_of p)" "cp_next_channel p \<notin> key_set (cp_owner_of p)"
    "cp_next_channel p \<notin> set (cp_dead p)"
    using assms by (auto simp: cp_inv_def numbers_ok_def)
  let ?q = "fst (dedicated_opened i p)"
  have owners: "owners_ok ?q"
    using assms fresh
    by (auto simp: dedicated_opened_def Let_def owners_ok_def cp_inv_def map_get_set dest: map_get_key split: if_splits)
  have "slots_ok ?q"
    using assms by (simp add: dedicated_opened_def Let_def slots_ok_def cp_inv_def)
  moreover have "numbers_ok ?q"
    using assms fresh by (auto simp: dedicated_opened_def Let_def numbers_ok_def cp_inv_def less_Suc_eq)
  ultimately show ?thesis using owners by (simp add: cp_inv_def)
qed

lemma get_dedicated_inv: "cp_inv p \<Longrightarrow> cp_inv (fst (get_dedicated_channel i p))"
  by (simp add: get_dedicated_channel_def split: option.splits)

lemma release_dedicated_inv: "cp_inv p \<Longrightarrow> cp_inv (fst (release_dedicated_channel i p))"
  by (simp add: release_dedicated_channel_def cp_inv_undedicate split: option.splits)

lemma next_channel_fields:
  "cp_channels (fst (next_channel n p)) = cp_channels p" "cp_closed (fst (next_channel n p)) = cp_closed p"
  "cp_slot_of (fst (next_channel n p)) = cp_slot_of p" "cp_owner_of (fst (next_channel n p)) = cp_owner_of p"
  "cp_dead (fst (next_channel n p)) = cp_dead p" "cp_next_channel (fst (next_channel n p)) = cp_next_channel p"
  "cp_dedicated (fst (next_channel n p)) = cp_dedicated p"
  by (induction n arbitrary: p) (simp_all add: Let_def split: option.splits)

text \<open>The loop is a search in the order of the slots from \<open>cp_index\<close> on.\<close>

definition slot_order :: "nat \<Rightarrow> channel_pool \<Rightarrow> nat option list" where
  "slot_order n p = map (\<lambda>j. cp_channels p ! ((cp_index p + j) mod length (cp_channels p))) [0 ..< n]"

lemma wrap_bound: "i < (n::nat) \<Longrightarrow> Suc i mod n < n"
  by (simp add: less_imp_le_nat mod_less_divisor gr_implies_not0)

lemma slot_order_Suc:
  assumes "cp_index p < length (cp_channels p)"
  shows "slot_order (Suc n) p =
    cp_channels p ! cp_index p # slot_order n (p\<lparr>cp_index := (cp_index p + 1) mod length (cp_channels p)\<rparr>)"
proof -
  have "[0 ..< Suc n] = 0 # map Suc [0 ..< n]" by (simp add: map_Suc_upt upt_conv_Cons)
  then show ?thesis
    using assms by (simp add: slot_order_def comp_def mod_add_left_eq)
qed

lemma next_channel_order:
  "cp_index p < length (cp_channels p) \<Longrightarrow>
     snd (next_channel n p) = (case List.find (\<lambda>c. c \<noteq> None) (slot_order n p) of Some c \<Rightarrow> c | None \<Rightarrow> None)"
proof (induction n arbitrary: p)
  case 0
  then show ?case by (simp add: slot_order_def)
next
  case (Suc n)
  let ?p1 = "p\<lparr>cp_index := (cp_index p + 1) mod length (cp_channels p)\<rparr>"
  from Suc.prems have "cp_index ?p1 < length (cp_channels ?p1)" by (simp add: wrap_bound)
  from Suc.IH [OF this] show ?case
    using Suc.prems by (cases "cp_channels p ! cp_index p") (simp_all add: Let_def slot_order_Suc)
qed

lemma next_channel_index:
  "cp_index p < length (cp_channels p) \<Longrightarrow> cp_index (fst (next_channel n p)) < length (cp_channels p)"
proof (induction n arbitrary: p)
  case (Suc n)
  let ?p1 = "p\<lparr>cp_index := (cp_index p + 1) mod length (cp_channels p)\<rparr>"
  from Suc.prems have "cp_index ?p1 < length (cp_channels ?p1)" by (simp add: wrap_bound)
  from Suc.IH [OF this] this show ?case by (simp add: Let_def split: option.splits)
qed simp

lemma get_channel_state:
  "fst (get_channel p) = (if cp_channels p = [] then p else fst (next_channel (length (cp_channels p)) p))"
  by (cases "next_channel (length (cp_channels p)) p") (simp add: get_channel_def split: option.splits)

lemma get_channel_inv:
  assumes "cp_inv p" shows "cp_inv (fst (get_channel p))"
proof (cases "cp_channels p = []")
  case False
  with assms have "cp_index p < length (cp_channels p)" by (simp add: cp_inv_def numbers_ok_def)
  from next_channel_index [OF this] False assms show ?thesis
    by (simp add: get_channel_state cp_inv_defs next_channel_fields)
qed (simp add: get_channel_state assms)

lemma channel_closed_inv:
  assumes p: "cp_inv p" and ch: "ch < cp_next_channel p" shows "cp_inv (fst (channel_closed ch p))"
proof -
  let ?p1 = "p\<lparr>cp_dead := ch # cp_dead p\<rparr>"
  have numbers: "numbers_ok ?p1"
    using p ch by (auto simp: cp_inv_def numbers_ok_def)
  show ?thesis
  proof (cases "map_get (cp_owner_of p) ch")
    case (Some i)
    then have "ch \<notin> key_set (cp_slot_of p)"
      using p map_get_key [OF Some] by (auto simp: cp_inv_def numbers_ok_def)
    then have "slots_ok ?p1"
      using p by (auto simp: cp_inv_def slots_ok_def dest: map_get_key)
    moreover have "owners_ok (?p1\<lparr>cp_dedicated := map_del i (cp_dedicated ?p1)\<rparr>)"
      using p Some by (auto simp: cp_inv_def owners_ok_def map_get_del split: if_splits)
    ultimately show ?thesis
      using numbers Some by (simp add: channel_closed_def cp_inv_def slots_ok_def numbers_ok_def)
  next
    case None
    then have owners: "owners_ok ?p1"
      using p by (auto simp: cp_inv_def owners_ok_def)
    show ?thesis
    proof (cases "map_get (cp_slot_of p) ch")
      case None
      then have "slots_ok ?p1"
        using p by (auto simp: cp_inv_def slots_ok_def)
      with owners numbers None \<open>map_get (cp_owner_of p) ch = None\<close> show ?thesis
        by (simp add: channel_closed_def cp_inv_def)
    next
      case (Some i)
      let ?here = "i < length (cp_channels p) \<and> cp_channels p ! i = Some ch"
      have elsewhere: "j = i" if "j < length (cp_channels p)" "cp_channels p ! j = Some ch" for j
        using p that Some by (auto simp: cp_inv_def slots_ok_def)
      have one: "cp_inv ?p1" if "cp_closed p \<or> \<not> ?here"
        using that p owners numbers elsewhere by (auto simp: cp_inv_def slots_ok_def)
      have two: "cp_inv (?p1\<lparr>cp_channels := (cp_channels p)[i := None]\<rparr>)"
      proof -
        have "map_get (cp_slot_of p) c = Some j \<and> (\<not> cp_closed p \<longrightarrow> c \<noteq> ch \<and> c \<notin> set (cp_dead p))"
          if j: "j < length (cp_channels p)" "(cp_channels p)[i := None] ! j = Some c" for j c
        proof -
          from j have "j \<noteq> i" "cp_channels p ! j = Some c" by (cases "j = i"; simp)+
          with j p elsewhere [of j] show ?thesis by (auto simp: cp_inv_def slots_ok_def)
        qed
        then have "slots_ok (?p1\<lparr>cp_channels := (cp_channels p)[i := None]\<rparr>)"
          by (simp add: slots_ok_def)
        then show ?thesis
          using owners numbers by (simp add: cp_inv_def owners_ok_def numbers_ok_def)
      qed
      show ?thesis
        using one two Some None by (simp add: channel_closed_def Let_def replace_attempt_inv)
    qed
  qed
qed

lemma channel_errored_inv: "cp_inv p \<Longrightarrow> cp_inv (channel_errored ch p)"
  by (simp add: channel_errored_def cp_inv_undedicate split: option.splits)

lemma resume_open_inv: "cp_inv p \<Longrightarrow> cp_inv (fst (resume_open t p))"
  using create_pool_channel_inv [of p]
  by (cases t) (simp_all add: resume_open_def split_def Let_def init_settled_inv replace_opened_inv dedicated_opened_inv)

lemma resume_failed_inv: "cp_inv p \<Longrightarrow> cp_inv (fst (resume_failed t e p))"
  by (cases t) (simp_all add: resume_failed_def init_settled_inv)

lemma resume_wait_inv: "cp_inv p \<Longrightarrow> cp_inv (fst (resume_wait t p))"
  by (cases t) (simp_all add: resume_wait_def replace_attempt_inv closed_all_inv)

lemma cp_resume_inv:
  assumes "\<And>q. cp_inv q \<Longrightarrow> cp_inv (fst (f (the (map_get (cp_tasks p) t)) q))" and "cp_inv p"
  shows "cp_inv (fst (cp_resume t b f p))"
  using assms by (auto simp: cp_resume_def split: option.splits)

lemma cp_step_get [simp]: "fst (cp_step p GetChannel) = fst (get_channel p)"
  by (simp add: split_def split: sum.splits)

lemma cp_step_inv: "cp_inv p \<Longrightarrow> cp_inv (fst (cp_step p e))"
  by (cases e) (simp_all del: cp_step.simps(7) add: cp_close_inv cp_resume_inv resume_open_inv resume_failed_inv
    resume_wait_inv channel_closed_inv channel_errored_inv get_channel_inv get_dedicated_inv release_dedicated_inv)

interpretation cpm: event_machine cp_step "\<lambda>e. True" cp_inv
  by unfold_locales (rule cp_step_inv)

section \<open>Properties\<close>

lemma find_slot_order:
  assumes "i < length xs"
  shows "(\<exists>c. List.find (\<lambda>c. c \<noteq> None) (map (\<lambda>j. xs ! ((i + j) mod length xs)) [0 ..< length xs]) = Some c) \<longleftrightarrow>
         (\<exists>c \<in> set xs. c \<noteq> None)"
    (is "?l \<longleftrightarrow> ?r")
proof
  assume ?l
  then obtain j where "j < length xs" "xs ! ((i + j) mod length xs) \<noteq> None"
    by (auto simp: find_Some_iff)
  moreover from \<open>j < length xs\<close> have "(i + j) mod length xs < length xs" by (intro mod_less_divisor) linarith
  ultimately show ?r using nth_mem by blast
next
  assume ?r
  then obtain k where k: "k < length xs" "xs ! k \<noteq> None" by (auto simp: in_set_conv_nth)
  let ?j = "(k + length xs - i) mod length xs"
  have "(i + ?j) mod length xs = (i + (k + length xs - i)) mod length xs" by (simp add: mod_add_right_eq)
  also have "i + (k + length xs - i) = k + length xs" using assms by linarith
  finally have "xs ! ((i + ?j) mod length xs) = xs ! k" using k by simp
  moreover have "?j < length xs" using k by (intro mod_less_divisor) linarith
  ultimately have "\<exists>j < length xs. xs ! ((i + j) mod length xs) \<noteq> None" using k by metis
  then have "List.find (\<lambda>c. c \<noteq> None) (map (\<lambda>j. xs ! ((i + j) mod length xs)) [0 ..< length xs]) \<noteq> None"
    by (auto simp: find_None_iff)
  then show ?l by simp
qed

lemma find_holds: "List.find P xs = Some x \<Longrightarrow> P x"
  by (auto simp: find_Some_iff)

lemma find_member: "List.find P xs = Some x \<Longrightarrow> x \<in> set xs"
  by (auto simp: find_Some_iff)

lemma get_channel_result:
  assumes "cp_channels p \<noteq> []" "cp_index p < length (cp_channels p)"
  shows "(\<exists>ch. snd (get_channel p) = Inr ch) \<longleftrightarrow> (\<exists>c \<in> set (cp_channels p). c \<noteq> None)"
    and "snd (get_channel p) = Inr ch \<Longrightarrow> Some ch \<in> set (cp_channels p)"
proof -
  let ?n = "length (cp_channels p)"
  let ?f = "List.find (\<lambda>c. c \<noteq> None) (slot_order ?n p)"
  note order = next_channel_order [OF assms(2), of ?n]
  have some: "(\<exists>ch. snd (get_channel p) = Inr ch) \<longleftrightarrow> snd (next_channel ?n p) \<noteq> None"
    using assms(1) by (simp add: get_channel_def split_def split: option.splits)
  have "snd (next_channel ?n p) \<noteq> None \<longleftrightarrow> (\<exists>c. ?f = Some c)"
  proof (cases ?f)
    case None
    with order have "snd (next_channel ?n p) = None" by (simp only: option.case)
    with None show ?thesis by (simp only: option.distinct simp_thms)
  next
    case (Some c)
    with order have "snd (next_channel ?n p) = c" by (simp only: option.case)
    moreover from Some have "c \<noteq> None" by (rule find_holds)
    ultimately show ?thesis using Some by blast
  qed
  with some show "(\<exists>ch. snd (get_channel p) = Inr ch) \<longleftrightarrow> (\<exists>c \<in> set (cp_channels p). c \<noteq> None)"
    using find_slot_order [OF assms(2)] by (simp add: slot_order_def)
  assume "snd (get_channel p) = Inr ch"
  then have "snd (next_channel ?n p) = Some ch"
    using assms(1) by (simp add: get_channel_def split_def split: option.splits)
  with order have "?f = Some (Some ch)" by (cases ?f) simp_all
  then have "Some ch \<in> set (slot_order ?n p)" by (rule find_member)
  then show "Some ch \<in> set (cp_channels p)"
    using assms(1) by (auto simp: slot_order_def)
qed

text \<open>
  C35: After any sequence of calls and events on a pool of any size: \<open>getChannel\<close> on a pool that is
  not closed returns only channels that have not died, it returns one exactly when some slot
  holds one (and otherwise throws), and a dedicated channel handed out again is never a dead
  one.
\<close>

theorem pool_hands_out_live_channels:
  fixes es :: "cp_event list" and n :: nat
  defines "p \<equiv> fst (run_machine cp_step (cp_new n) es)"
  shows "(\<not> cp_closed p \<and> snd (get_channel p) = Inr ch \<longrightarrow> ch \<notin> set (cp_dead p)) \<and>
    ((\<exists>ch. snd (get_channel p) = Inr ch) \<longleftrightarrow> (\<exists>c \<in> set (cp_channels p). c \<noteq> None)) \<and>
    (GotDedicated i ch \<in> set (snd (cp_step p (GetDedicated i))) \<longrightarrow> ch \<notin> set (cp_dead p))"
proof -
  have inv: "cp_inv p"
    unfolding p_def by (rule cpm.run_inv) (simp_all add: cp_new_inv list_all_iff)
  have "(\<not> cp_closed p \<and> snd (get_channel p) = Inr ch \<longrightarrow> ch \<notin> set (cp_dead p)) \<and>
    ((\<exists>ch. snd (get_channel p) = Inr ch) \<longleftrightarrow> (\<exists>c \<in> set (cp_channels p). c \<noteq> None))"
  proof (cases "cp_channels p = []")
    case False
    then have i: "cp_index p < length (cp_channels p)" using inv by (simp add: cp_inv_def numbers_ok_def)
    show ?thesis
      using get_channel_result [OF False i] inv
      by (auto simp: cp_inv_def slots_ok_def in_set_conv_nth)
  qed (simp add: get_channel_def)
  moreover have "GotDedicated i ch \<in> set (snd (cp_step p (GetDedicated i))) \<longrightarrow> ch \<notin> set (cp_dead p)"
    using inv by (auto simp: get_dedicated_channel_def cp_inv_def owners_ok_def split: option.splits)
  ultimately show ?thesis by blast
qed

theorem pool_hands_out_live_channels_witness:
  "let p = fst (run_machine cp_step (cp_new 2)
       [Initialize, Waited 0, OpenDone 1, OpenDone 2, GetDedicated ''rpc'', OpenDone 3, ChannelClosed 0])
   in \<not> cp_closed p \<and> cp_channels p = [None, Some 1] \<and> snd (get_channel p) = Inr 1 \<and>
      1 \<notin> set (cp_dead p) \<and> snd (cp_step p (GetDedicated ''rpc'')) = [GotDedicated ''rpc'' 2] \<and> 2 \<notin> set (cp_dead p)"
proof -
  define es where "es = [Initialize, Waited 0, OpenDone 1, OpenDone 2, GetDedicated ''rpc'', OpenDone 3, ChannelClosed 0]"
  define p where "p = fst (run_machine cp_step (cp_new 2) es)"
  have "\<not> cp_closed p" "cp_channels p = [None, Some 1]" "snd (get_channel p) = Inr 1"
    "snd (cp_step p (GetDedicated ''rpc'')) = [GotDedicated ''rpc'' 2]"
    unfolding p_def es_def by code_simp+
  then show ?thesis
    using pool_hands_out_live_channels [of 2 es] pool_hands_out_live_channels [of 2 es _ "''rpc''"]
    unfolding Let_def es_def [symmetric] p_def [symmetric] by simp
qed

lemma get_channel_full:
  assumes "\<forall>c \<in> set (cp_channels p). c \<noteq> None" "cp_index p < length (cp_channels p)"
  shows "cp_step p GetChannel = (p\<lparr>cp_index := Suc (cp_index p) mod length (cp_channels p)\<rparr>,
     [GotChannel (the (cp_channels p ! cp_index p))])"
proof -
  obtain n where n: "length (cp_channels p) = Suc n" using assms(2) by (cases "length (cp_channels p)") auto
  obtain ch where "cp_channels p ! cp_index p = Some ch" using assms nth_mem by blast
  moreover have "cp_channels p \<noteq> []" using n by auto
  ultimately show ?thesis by (simp add: get_channel_def n Let_def)
qed

text \<open>
  Channels are handed out in turn: when every slot of the pool holds a channel, \<open>k\<close> calls
  of \<open>getChannel\<close> return the channels of the next \<open>k\<close> slots in cyclic order, so publishing
  is spread evenly over the pool.
\<close>

theorem pool_round_robin:
  assumes "\<forall>c \<in> set (cp_channels p). c \<noteq> None" and "cp_index p < length (cp_channels p)"
  shows "snd (run_machine cp_step p (replicate k GetChannel)) =
    map (\<lambda>j. GotChannel (the (cp_channels p ! ((cp_index p + j) mod length (cp_channels p))))) [0 ..< k]"
  using assms
proof (induction k arbitrary: p)
  case (Suc k)
  let ?p1 = "p\<lparr>cp_index := Suc (cp_index p) mod length (cp_channels p)\<rparr>"
  have "snd (run_machine cp_step ?p1 (replicate k GetChannel)) =
      map (\<lambda>j. GotChannel (the (cp_channels p ! (Suc (cp_index p + j) mod length (cp_channels p))))) [0 ..< k]"
    using Suc.IH [of ?p1] Suc.prems by (simp add: wrap_bound mod_add_left_eq)
  moreover have "[0 ..< Suc k] = 0 # map Suc [0 ..< k]" by (simp add: map_Suc_upt upt_conv_Cons)
  ultimately show ?case
    using get_channel_full [OF Suc.prems] Suc.prems(2) by (simp del: cp_step.simps add: comp_def)
qed simp

theorem pool_round_robin_witness:
  "\<exists>p. length (cp_channels p) = 3 \<and>
    snd (run_machine cp_step p (replicate 5 GetChannel)) = [GotChannel 0, GotChannel 1, GotChannel 2, GotChannel 0, GotChannel 1]"
proof -
  define p where "p = fst (run_machine cp_step (cp_new 3) [Initialize, Waited 0, OpenDone 1, OpenDone 2, OpenDone 3])"
  have "cp_channels p = [Some 0, Some 1, Some 2]" "cp_index p = 0" unfolding p_def by code_simp+
  then show ?thesis using pool_round_robin [of p 5] by (intro exI [of _ p]) (simp add: upt_rec)
qed

text \<open>
  Two concurrent requests for the same dedicated channel open two channels; the second replaces
  the first in the map, and neither \<open>releaseDedicatedChannel\<close> nor \<open>close\<close> closes the first.
\<close>

theorem concurrent_dedicated_leaks_channel:
  "let r = run_machine cp_step (cp_new 0)
       [GetDedicated ''q'', GetDedicated ''q'', OpenDone 0, OpenDone 1, ReleaseDedicated ''q'', ClosePool]
   in snd r = [CreateConfirmChannel, CreateConfirmChannel, GotDedicated ''q'' 0, GotDedicated ''q'' 1, CloseChannel 1] \<and>
      0 \<notin> set (cp_dead (fst r)) \<and> map_get (cp_dedicated (fst r)) ''q'' = None"
  by code_simp

end
