(* ===== verification/Facade_Setup.thy ===== *)
theory Facade_Setup
  imports Facade_Cache Connection Circuit_Breaker Consume_Pipeline Channel_Pool
begin

text \<open>
  The construction of the facade, \<open>src/index.js\<close>, and its small calls: the defaults and checks
  of the constructor, what the application hears of the rate limiter, the calls that need a
  limiter or a channel pool, the cluster status, the graceful shutdown on signals, and the
  processing of a dead letter queue. The serializer and deserializer used by default
  (\<open>JSON\<close>) and the environment variables are parameters. \<open>cacheOptions\<close>, which go to the cache
  library as they are, the logger and the injected clock are not modelled.
\<close>

section \<open>The constructor\<close>











section \<open>What the application hears of the rate limiter\<close>

text \<open>The listeners on \<open>limited\<close> and \<open>blocked\<close>: the line logged and the event emitted, or the error of the line.\<close>

fun forward_rate_event :: "jsval rl_event \<Rightarrow> (jsval + string \<times> string \<times> (string \<times> jsval) list) option" where
  "forward_rate_event (Limited key strategy) = Some (case js_template key of
      None \<Rightarrow> Inl type_error
    | Some k \<Rightarrow> Inr (''Rate limit exceeded for '' @ k @ '' using '' @ strategy @ '' strategy'', ''rateLimited'',
        [(''key'', key), (''strategy'', JStr strategy)]))"
| "forward_rate_event (Blocked key remaining) = Some (case js_template key of
      None \<Rightarrow> Inl type_error
    | Some k \<Rightarrow> Inr (''Key '' @ k @ '' is blocked. Remaining time: '' @ num_str (Fin remaining) @ ''ms'', ''rateBlocked'',
        [(''key'', key), (''remainingTime'', JNum (Fin remaining))]))"
| "forward_rate_event _ = None"

definition require_rate_limiter :: "jsval rate_limiter option \<Rightarrow> jsval + jsval rate_limiter" where
  "require_rate_limiter l = (case l of None \<Rightarrow> Inl (error_object ''Rate limiter is not enabled'') | Some x \<Rightarrow> Inr x)"

definition with_limiter :: "(jsval rate_limiter \<Rightarrow> jsval rate_limiter \<times> 'a) \<Rightarrow> jsval rate_limiter option \<Rightarrow>
    jsval rate_limiter option \<times> (jsval + 'a)" where
  "with_limiter f l = (case require_rate_limiter l of
      Inl e \<Rightarrow> (l, Inl e) | Inr x \<Rightarrow> (case f x of (x', r) \<Rightarrow> (Some x', Inr r)))"

definition get_rate_limit_status :: "jsval \<Rightarrow> rat \<Rightarrow> jsval rate_limiter option \<Rightarrow> jsval rate_limiter option \<times> (jsval + rl_status)" where
  "get_rate_limit_status key now = with_limiter (rl_get_status key now)"

definition reset_rate_limit :: "jsval \<Rightarrow> jsval rate_limiter option \<Rightarrow> jsval rate_limiter option \<times> (jsval + jsval rl_event list)" where
  "reset_rate_limit key = with_limiter (rl_reset key)"

definition block_rate_limit :: "jsval \<Rightarrow> rat option \<Rightarrow> rat \<Rightarrow> jsval rate_limiter option \<Rightarrow>
    jsval rate_limiter option \<times> (jsval + jsval rl_event list)" where
  "block_rate_limit key duration now = with_limiter (rl_block_key key duration now)"

section \<open>Channels and the cluster\<close>

definition facade_get_channel :: "channel_pool option \<Rightarrow> channel_pool option \<times> (jsval + nat)" where
  "facade_get_channel pool = (case pool of
      None \<Rightarrow> (None, Inl not_connected_error)
    | Some p \<Rightarrow> (case get_channel p of
        (p1, Inl message) \<Rightarrow> (Some p1, Inl (error_object message)) | (p1, Inr ch) \<Rightarrow> (Some p1, Inr ch)))"

record cluster_status =
  cs_connected_to :: string
  cs_all_endpoints :: "string list"
  cs_connection_state :: conn_state

definition get_cluster_status :: "connection \<Rightarrow> cluster_status" where
  "get_cluster_status link = \<lparr>cs_connected_to = cn_endpoints link ! cn_current link, cs_all_endpoints = cn_endpoints link,
     cs_connection_state = cn_state link\<rparr>"

section \<open>Graceful shutdown\<close>

datatype shutdown_out =
    OnceSignal string
  | ShutdownInfo string
  | ShutdownError string
  | CallDisconnect
  | ExitProcess nat
  | UnhandledShutdown jsval

record shutdown_options =
  sh_signals :: "string list"
  sh_exit :: bool

text \<open>What is omitted takes its default.\<close>

definition shutdown_setting :: "string list option \<Rightarrow> bool option \<Rightarrow> shutdown_options" where
  "shutdown_setting signals exit_process = \<lparr>sh_signals = (case signals of Some s \<Rightarrow> s | None \<Rightarrow> [''SIGINT'', ''SIGTERM'']),
     sh_exit = (case exit_process of Some b \<Rightarrow> b | None \<Rightarrow> True)\<rparr>"

text \<open>The state is the options of the first call, if there was one.\<close>

definition enable_graceful_shutdown :: "shutdown_options \<Rightarrow> shutdown_options option \<Rightarrow> shutdown_options option \<times> shutdown_out list" where
  "enable_graceful_shutdown options installed = (case installed of
      Some _ \<Rightarrow> (installed, [])
    | None \<Rightarrow> (Some options, map OnceSignal (sh_signals options)))"

definition setup_graceful_shutdown :: "shutdown_options \<Rightarrow> shutdown_options option \<Rightarrow> shutdown_options option \<times> string \<times> shutdown_out list" where
  "setup_graceful_shutdown options installed = (case enable_graceful_shutdown options installed of
      (st, out) \<Rightarrow> (st, ''setupGracefulShutdown() is deprecated; use enableGracefulShutdown()'', out))"

text \<open>A signal arrives; \<open>disconnect\<close> returns or throws. An error without a message throws in the catch.\<close>

definition graceful_shutdown :: "shutdown_options \<Rightarrow> string \<Rightarrow> jsval option \<Rightarrow> shutdown_out list" where
  "graceful_shutdown options signal disconnect_error =
     [ShutdownInfo (''Received '' @ signal @ ''. Starting graceful shutdown...''), CallDisconnect] @
     (case disconnect_error of
        None \<Rightarrow> ShutdownInfo ''Disconnected from RabbitMQ successfully.'' # (if sh_exit options then [ExitProcess 0] else [])
      | Some e \<Rightarrow>
          (if nullish e then [UnhandledShutdown type_error]
           else case js_template (opt_prop e ''message'') of
                  None \<Rightarrow> [UnhandledShutdown type_error]
                | Some t \<Rightarrow> ShutdownError (''Error during graceful shutdown: '' @ t) # (if sh_exit options then [ExitProcess 1] else [])))"

section \<open>Dead letter queues\<close>

text \<open>The handler around the processor, which gets the content only: it logs an error and rethrows it.\<close>

definition dead_letter_handler :: "(jsval \<Rightarrow> handler_result) \<Rightarrow> jsval \<Rightarrow> delivery \<Rightarrow> handler_result" where
  "dead_letter_handler processor content d =
     (let r = processor content
      in case hr_error r of
           None \<Rightarrow> r
         | Some e \<Rightarrow> (case describe_line ''Error processing dead letter message: '' e of
             Inl escaped \<Rightarrow> r\<lparr>hr_error := Some escaped\<rparr> | Inr line \<Rightarrow> r))"

section \<open>Every part starts well formed\<close>





















section \<open>A dead letter queue is an ordinary subscription\<close>

lemma describable_any_prefix: "describe_line p e = Inr line \<Longrightarrow> describable e"
  using undescribable_line [of e p] by auto

lemma type_error_describable: "describable type_error"
  by (rule describable_type_error)

lemma dead_letter_handler_error:
  assumes "hr_error (dead_letter_handler processor content d) = Some e" shows "describable e"
proof -
  have "describe_line p x = Inl y \<Longrightarrow> y = type_error" for p x y
    by (auto simp: describe_line_def describe_error_def Let_def split: sum.splits option.splits if_splits)
  then show ?thesis
    using assms type_error_describable
    by (auto simp: dead_letter_handler_def Let_def split: option.splits sum.splits intro: describable_any_prefix)
qed

lemma dead_letter_handler_plain:
  assumes "\<forall>e. hr_error (processor content) = Some e \<longrightarrow> describable e"
  shows "dead_letter_handler processor content d = processor content"
proof (cases "hr_error (processor content)")
  case (Some e)
  then obtain line where "describe_line ''Error processing dead letter message: '' e = Inr line"
    using assms describable_line by blast
  with Some show ?thesis by (simp add: dead_letter_handler_def Let_def)
qed (simp add: dead_letter_handler_def Let_def)

text \<open>
  C24: Processing a dead letter queue is an ordinary subscription of the processor: as long as the
  processor's errors can be described, a delivery is consumed exactly as by
  \<open>subscribe\<close>, calls, events, log lines of the pipeline and all. And for any processor nothing escapes
  into the event loop and, with the default policy and a channel that takes the call, a failure
  discards the message.
\<close>

theorem dead_letter_is_plain_subscription:
  assumes "decode (sb_platform sub) (sb_codec sub) (dl_content d) (truthy (dl_header d ''x-compressed'')) = Inr content"
  shows "((\<forall>e. hr_error (processor content) = Some e \<longrightarrow> describable e) \<longrightarrow>
      consume_delivery sub ch d (dead_letter_handler processor) throws tm = consume_delivery sub ch d (\<lambda>c d. processor c) throws tm) \<and>
    (\<forall>v. Unhandled v \<notin> set (snd (consume_delivery sub ch d (dead_letter_handler processor) throws tm))) \<and>
    (hr_error (processor content) \<noteq> None \<and> hr_ops (processor content) = [] \<and> \<not> sb_no_ack sub \<and> sb_policy sub = PolicyNone \<and> throws = None \<longrightarrow>
      broker_calls (snd (consume_delivery sub ch d (dead_letter_handler processor) throws tm)) = [BrokerNack ch d False])"
proof (intro conjI impI allI)
  have ok: "\<forall>e. snd (delivery_outcome sub d (dead_letter_handler processor)) = Some e \<longrightarrow> describable e"
    using assms dead_letter_handler_error by (auto simp: delivery_outcome_def)
  note outcome = consume_delivery_outcome [OF ok, of ch throws tm]
  show "Unhandled v \<notin> set (snd (consume_delivery sub ch d (dead_letter_handler processor) throws tm))" for v
    using outcome by blast
  show "consume_delivery sub ch d (dead_letter_handler processor) throws tm = consume_delivery sub ch d (\<lambda>c d. processor c) throws tm"
    if "\<forall>e. hr_error (processor content) = Some e \<longrightarrow> describable e"
    using dead_letter_handler_plain [of processor content d] that assms by (simp add: consume_delivery_def plain_processor_def)
  assume *: "hr_error (processor content) \<noteq> None \<and> hr_ops (processor content) = [] \<and> \<not> sb_no_ack sub \<and> sb_policy sub = PolicyNone \<and> throws = None"
  then have "\<exists>e. hr_error (dead_letter_handler processor content d) = Some e" "hr_ops (dead_letter_handler processor content d) = []"
    by (auto simp: dead_letter_handler_def Let_def split: option.split sum.split)
  then obtain e where "hr_error (dead_letter_handler processor content d) = Some e" "hr_ops (dead_letter_handler processor content d) = []"
    by blast
  with * outcome show "broker_calls (snd (consume_delivery sub ch d (dead_letter_handler processor) throws tm)) = [BrokerNack ch d False]"
    using assms by (simp add: delivery_outcome_def settle_ack_def attach_ack_controls_def should_requeue_def)
qed

theorem dead_letter_is_plain_subscription_witness:
  "consume_delivery sample_subscription 3 (plain_delivery 7) (dead_letter_handler (\<lambda>c. \<lparr>hr_ops = [], hr_error = Some JNull\<rparr>)) None sample_times =
     consume_delivery sample_subscription 3 (plain_delivery 7) (\<lambda>c d. \<lparr>hr_ops = [], hr_error = Some JNull\<rparr>) None sample_times"
proof -
  have "describable JNull" by (simp add: describable_def describe_line_def describe_error_def)
  then show ?thesis
    using dead_letter_is_plain_subscription [OF sample_decode, of "\<lambda>c. \<lparr>hr_ops = [], hr_error = Some JNull\<rparr>" 3 None sample_times] by simp
qed

end
