(* ===== verification/Facade.thy ===== *)
theory Facade
  imports Connection
begin

text \<open>
  The lifecycle of the facade, \<open>src/index.js\<close>: \<open>connect\<close>, the restoration of the state on a new
  connection, what a loss of the connection does, and \<open>disconnect\<close>. The facade is a machine
  over the machine of its connection: an event of the connection runs it one step and routes
  the events it emits and the answers it gives to the handlers of the facade, in the order in
  which they come. Channel pools are named by the restoration that builds them; what happens
  in the pool, the topology, the consumers and the RPC component while they are awaited is
  theirs. Listeners of the application are contained by \<open>emit\<close> and not modelled, nor is the log.
\<close>

section \<open>State\<close>

text \<open>
  A restoration builds a pool on a connection, asserts the exchange, recreates the consumers,
  or closes a pool before it fails. Those who wait for it: the handler of \<open>'reconnected'\<close>, and
  the attempt of \<open>connect\<close> with the connection it got.
\<close>

datatype restore_stage =
    RestoreBuilding nat
  | RestoreExchange
  | RestoreConsumers
  | RestoreClosing jsval

datatype restore_waiter = AwaitReconnected | AwaitConnect nat

record restore =
  rt_stage :: restore_stage
  rt_waiters :: "restore_waiter list"

text \<open>The shared attempt of \<open>connect\<close>: its callers, the options of the first, where it stands.\<close>

datatype attempt_stage = AttemptDialing | AttemptRestoring | AttemptParked

record attempt =
  ca_calls :: "nat list"
  ca_wait :: bool
  ca_timeout :: "rat option"
  ca_stage :: attempt_stage

text \<open>A call of \<open>disconnect\<close>: awaiting the consumers, then the pool, then the connection.\<close>

datatype teardown_stage = TeardownConsumers | TeardownPool nat

record teardown =
  td_call :: nat
  td_stage :: teardown_stage

record facade =
  fa_link :: connection
  fa_pool :: "(nat \<times> nat) option"
  fa_restore :: "nat option"
  fa_restores :: "(nat, restore) jsmap"
  fa_connect :: "attempt option"
  fa_teardowns :: "(nat, teardown) jsmap"
  fa_closing :: "(nat \<times> bool) list"
  fa_next :: nat

definition fa_new :: "connection \<Rightarrow> facade" where
  "fa_new link = \<lparr>fa_link = link, fa_pool = None, fa_restore = None, fa_restores = [], fa_connect = None,
     fa_teardowns = [], fa_closing = [], fa_next = 0\<rparr>"

datatype fa_out =
    LinkOut cn_out
  | InitPool nat nat
  | ClosePool nat
  | EnsureExchange nat
  | RecreateConsumers nat
  | ResetBreaker
  | RpcLoss string
  | DisposeConsumers nat
  | DisposeLimiterAndCache
  | FacadeEmit string
  | ArmConnectTimer rat
  | ConnectSettled nat "jsval + nat option"
  | DisconnectSettled nat

section \<open>The shared attempt of connect\<close>

definition settle_attempt :: "jsval + nat option \<Rightarrow> facade \<Rightarrow> facade \<times> fa_out list" where
  "settle_attempt r s = (case fa_connect s of
      None \<Rightarrow> (s, [])
    | Some a \<Rightarrow> (s\<lparr>fa_connect := None\<rparr>, map (\<lambda>call. ConnectSettled call r) (ca_calls a)))"

definition parked :: "facade \<Rightarrow> bool" where
  "parked s \<longleftrightarrow> (case fa_connect s of Some a \<Rightarrow> ca_stage a = AttemptParked | None \<Rightarrow> False)"

text \<open>The listeners a parked attempt has registered.\<close>

definition wake_parked :: "jsval + nat option \<Rightarrow> facade \<Rightarrow> facade \<times> fa_out list" where
  "wake_parked r s = (if parked s then settle_attempt r s else (s, []))"

definition reconnect_gave_up :: jsval where
  "reconnect_gave_up = error_object ''Unable to connect: all reconnection attempts failed''"

definition restore_failed_error :: "jsval \<Rightarrow> jsval" where
  "restore_failed_error e = (case js_template (opt_prop e ''message'') of
      None \<Rightarrow> type_error | Some t \<Rightarrow> error_object (''Connected, but failed to restore state: '' @ t))"

definition emit_reconnected :: "facade \<Rightarrow> facade \<times> fa_out list" where
  "emit_reconnected s = chain (s, [FacadeEmit ''reconnected'']) (\<lambda>q. wake_parked (Inr (cn_conn (fa_link q))) q)"

definition emit_reconnect_error :: "jsval \<Rightarrow> facade \<Rightarrow> facade \<times> fa_out list" where
  "emit_reconnect_error e s = chain (s, [FacadeEmit ''reconnectError'']) (wake_parked (Inl (restore_failed_error e)))"

definition emit_reconnect_failed :: "facade \<Rightarrow> facade \<times> fa_out list" where
  "emit_reconnect_failed s = chain (s, [FacadeEmit ''reconnectFailed'']) (wake_parked (Inl reconnect_gave_up))"

definition emit_disconnecting :: "facade \<Rightarrow> facade \<times> fa_out list" where
  "emit_disconnecting s = chain (s, [FacadeEmit ''disconnecting''])
     (wake_parked (Inl (error_object ''Connection wait aborted: the client was disconnected'')))"

section \<open>Restoring the state\<close>

definition restore_goes_on :: "jsval + unit \<Rightarrow> restore_waiter \<Rightarrow> facade \<Rightarrow> facade \<times> fa_out list" where
  "restore_goes_on r w s = (case w of
      AwaitReconnected \<Rightarrow> (case r of Inl e \<Rightarrow> emit_reconnect_error e s | Inr _ \<Rightarrow> emit_reconnected s)
    | AwaitConnect c \<Rightarrow> (case r of Inl e \<Rightarrow> settle_attempt (Inl e) s | Inr _ \<Rightarrow> settle_attempt (Inr (Some c)) s))"

fun restore_all_go_on :: "jsval + unit \<Rightarrow> restore_waiter list \<Rightarrow> facade \<Rightarrow> facade \<times> fa_out list" where
  "restore_all_go_on r [] s = (s, [])"
| "restore_all_go_on r (w # ws) s = chain (restore_goes_on r w s) (restore_all_go_on r ws)"

text \<open>The promise of a restoration settles: it gives up the slot only if it still owns it.\<close>

definition restore_settled :: "nat \<Rightarrow> jsval + unit \<Rightarrow> facade \<Rightarrow> facade \<times> fa_out list" where
  "restore_settled rid r s = (case map_get (fa_restores s) rid of
      None \<Rightarrow> (s, [])
    | Some rt \<Rightarrow> restore_all_go_on r (rt_waiters rt)
        (s\<lparr>fa_restores := map_del rid (fa_restores s), fa_restore := (if fa_restore s = Some rid then None else fa_restore s)\<rparr>))"

definition to_stage :: "nat \<Rightarrow> restore \<Rightarrow> restore_stage \<Rightarrow> facade \<Rightarrow> facade" where
  "to_stage rid rt stage s = s\<lparr>fa_restores := map_set rid (rt\<lparr>rt_stage := stage\<rparr>) (fa_restores s)\<rparr>"

text \<open>A restoration starts by building a pool on the connection the client has.\<close>

definition do_restore_state :: "restore_waiter \<Rightarrow> facade \<Rightarrow> facade \<times> fa_out list" where
  "do_restore_state w s = (case cn_conn (fa_link s) of
      None \<Rightarrow> restore_goes_on (Inl (error_object ''No active connection to RabbitMQ'')) w s
    | Some c \<Rightarrow> (s\<lparr>fa_restores := map_set (fa_next s) \<lparr>rt_stage = RestoreBuilding c, rt_waiters = [w]\<rparr> (fa_restores s),
                    fa_restore := Some (fa_next s), fa_next := Suc (fa_next s)\<rparr>, [InitPool (fa_next s) c]))"

definition restore_state :: "restore_waiter \<Rightarrow> facade \<Rightarrow> facade \<times> fa_out list" where
  "restore_state w s = (case fa_restore s of
      None \<Rightarrow> do_restore_state w s
    | Some rid \<Rightarrow> (case map_get (fa_restores s) rid of
        None \<Rightarrow> do_restore_state w s
      | Some rt \<Rightarrow> (s\<lparr>fa_restores := map_set rid (rt\<lparr>rt_waiters := rt_waiters rt @ [w]\<rparr>) (fa_restores s)\<rparr>, [])))"

text \<open>The steps of \<open>#setupChannelPool\<close> and \<open>#doRestoreState\<close>, by what is awaited.\<close>

definition pool_initialized :: "nat \<Rightarrow> restore \<Rightarrow> nat \<Rightarrow> jsval option \<Rightarrow> facade \<Rightarrow> facade \<times> fa_out list" where
  "pool_initialized rid rt c err s = (case err of
      Some e \<Rightarrow> restore_settled rid (Inl e) s
    | None \<Rightarrow>
        if cn_conn (fa_link s) \<noteq> Some c
        then (to_stage rid rt (RestoreClosing (error_object ''Connection changed while the channel pool was being built'')) s, [ClosePool rid])
        else (to_stage rid rt RestoreExchange (s\<lparr>fa_pool := Some (rid, c)\<rparr>), [EnsureExchange rid]))"

definition restore_step_failed :: "nat \<Rightarrow> restore \<Rightarrow> jsval \<Rightarrow> facade \<Rightarrow> facade \<times> fa_out list" where
  "restore_step_failed rid rt e s =
     (if map_option fst (fa_pool s) = Some rid then (to_stage rid rt (RestoreClosing e) (s\<lparr>fa_pool := None\<rparr>), [ClosePool rid])
      else restore_settled rid (Inl e) s)"

definition exchange_ensured :: "nat \<Rightarrow> restore \<Rightarrow> jsval option \<Rightarrow> facade \<Rightarrow> facade \<times> fa_out list" where
  "exchange_ensured rid rt err s = (case err of
      Some e \<Rightarrow> restore_step_failed rid rt e s
    | None \<Rightarrow> (to_stage rid rt RestoreConsumers s, [RecreateConsumers rid]))"

definition consumers_recreated :: "nat \<Rightarrow> restore \<Rightarrow> jsval option \<Rightarrow> facade \<Rightarrow> facade \<times> fa_out list" where
  "consumers_recreated rid rt err s = (case err of
      Some e \<Rightarrow> restore_step_failed rid rt e s
    | None \<Rightarrow> chain (s, [ResetBreaker]) (restore_settled rid (Inr ())))"

text \<open>What is awaited for a restoration arrives: an error, or nothing went wrong.\<close>

definition restore_answer :: "nat \<Rightarrow> jsval option \<Rightarrow> facade \<Rightarrow> facade \<times> fa_out list" where
  "restore_answer rid err s = (case map_get (fa_restores s) rid of
      None \<Rightarrow> (s, [])
    | Some rt \<Rightarrow> (case rt_stage rt of
        RestoreBuilding c \<Rightarrow> pool_initialized rid rt c err s
      | RestoreExchange \<Rightarrow> exchange_ensured rid rt err s
      | RestoreConsumers \<Rightarrow> consumers_recreated rid rt err s
      | RestoreClosing e \<Rightarrow> restore_settled rid (Inl e) s))"

section \<open>Handlers of the connection's events\<close>

definition handle_reconnection :: "facade \<Rightarrow> facade \<times> fa_out list" where
  "handle_reconnection s = restore_state AwaitReconnected s"

definition handle_disconnection :: "facade \<Rightarrow> facade \<times> fa_out list" where
  "handle_disconnection s =
     (s\<lparr>fa_restore := None, fa_pool := None\<rparr>,
      [RpcLoss ''connection to RabbitMQ lost''] @ (case fa_pool s of Some (p, c) \<Rightarrow> [ClosePool p] | None \<Rightarrow> []) @ [FacadeEmit ''disconnected''])"

text \<open>\<open>#doConnect\<close> after the connection has answered.\<close>

definition connect_answered :: "nat option \<Rightarrow> attempt \<Rightarrow> facade \<Rightarrow> facade \<times> fa_out list" where
  "connect_answered res a s = (case res of
      Some c \<Rightarrow>
        if fa_pool s = None then restore_state (AwaitConnect c) (s\<lparr>fa_connect := Some (a\<lparr>ca_stage := AttemptRestoring\<rparr>)\<rparr>)
        else settle_attempt (Inr (Some c)) s
    | None \<Rightarrow>
        if \<not> ca_wait a then settle_attempt (Inr None) s
        else if cn_state (fa_link s) = Failed then settle_attempt (Inl reconnect_gave_up) s
        else (s\<lparr>fa_connect := Some (a\<lparr>ca_stage := AttemptParked\<rparr>)\<rparr>,
              case ca_timeout a of Some t \<Rightarrow> (if 0 < t then [ArmConnectTimer t] else []) | None \<Rightarrow> []))"

text \<open>The end of a call of \<open>disconnect\<close>: after an error it says nothing.\<close>

definition disconnect_over :: "facade \<Rightarrow> facade \<times> fa_out list" where
  "disconnect_over s = (case fa_closing s of
      [] \<Rightarrow> (s, [])
    | (call, clean) # rest \<Rightarrow> (s\<lparr>fa_closing := rest\<rparr>, (if clean then [FacadeEmit ''disconnected''] else []) @ [DisconnectSettled call]))"

fun handle_link :: "cn_out \<Rightarrow> facade \<Rightarrow> facade \<times> fa_out list" where
  "handle_link (EmitConnected ep) s = (s, [FacadeEmit ''connected''])"
| "handle_link EmitReconnected s = handle_reconnection s"
| "handle_link EmitDisconnected s = handle_disconnection s"
| "handle_link EmitReconnectFailed s = emit_reconnect_failed s"
| "handle_link (ConnectResult n res) s = (case fa_connect s of
      Some a \<Rightarrow> if ca_stage a = AttemptDialing then connect_answered res a s else (s, []) | None \<Rightarrow> (s, []))"
| "handle_link DisconnectDone s = disconnect_over s"
| "handle_link out s = (s, [LinkOut out])"

fun handle_links :: "cn_out list \<Rightarrow> facade \<Rightarrow> facade \<times> fa_out list" where
  "handle_links [] s = (s, [])"
| "handle_links (out # outs) s = chain (handle_link out s) (handle_links outs)"

definition link_event :: "cn_event \<Rightarrow> facade \<Rightarrow> facade \<times> fa_out list" where
  "link_event e s = (case cn_step (fa_link s) e of (link, outs) \<Rightarrow> handle_links outs (s\<lparr>fa_link := link\<rparr>))"

section \<open>Calls\<close>

definition facade_connect :: "nat \<Rightarrow> bool \<Rightarrow> rat option \<Rightarrow> facade \<Rightarrow> facade \<times> fa_out list" where
  "facade_connect call wait timeout s = (case fa_connect s of
      Some a \<Rightarrow> (s\<lparr>fa_connect := Some (a\<lparr>ca_calls := ca_calls a @ [call]\<rparr>)\<rparr>, [])
    | None \<Rightarrow> link_event (Connect call)
        (s\<lparr>fa_connect := Some \<lparr>ca_calls = [call], ca_wait = wait, ca_timeout = timeout, ca_stage = AttemptDialing\<rparr>\<rparr>))"

definition connect_timeout :: "facade \<Rightarrow> facade \<times> fa_out list" where
  "connect_timeout s = (case fa_connect s of
      None \<Rightarrow> (s, [])
    | Some a \<Rightarrow> (case ca_timeout a of
        Some t \<Rightarrow> if 0 < t then wake_parked (Inl (error_object (''Timed out after '' @ num_str (Fin t) @ ''ms waiting for connection''))) s else (s, [])
      | None \<Rightarrow> (s, [])))"

text \<open>
  The last step of \<open>disconnect\<close>, \<open>clean\<close> unless it is the retry in its catch. A connection that
  is already disconnected answers at once; otherwise the calls are answered in their order.
\<close>

definition disconnect_link :: "nat \<Rightarrow> bool \<Rightarrow> facade \<Rightarrow> facade \<times> fa_out list" where
  "disconnect_link call clean s =
     (let at_once = DisconnectDone \<in> set (snd (cn_step (fa_link s) Disconnect))
      in link_event Disconnect
           (s\<lparr>fa_closing := (if at_once then (call, clean) # fa_closing s else fa_closing s @ [(call, clean)])\<rparr>))"

definition facade_disconnect :: "nat \<Rightarrow> facade \<Rightarrow> facade \<times> fa_out list" where
  "facade_disconnect call s =
     chain (emit_disconnecting s)
       (\<lambda>q. (q\<lparr>fa_teardowns := map_set (fa_next q) \<lparr>td_call = call, td_stage = TeardownConsumers\<rparr> (fa_teardowns q), fa_next := Suc (fa_next q)\<rparr>,
             [RpcLoss ''client disconnected'', DisposeConsumers (fa_next q)]))"

definition consumers_disposed :: "nat \<Rightarrow> teardown \<Rightarrow> jsval option \<Rightarrow> facade \<Rightarrow> facade \<times> fa_out list" where
  "consumers_disposed tid td err s =
     (let gone = s\<lparr>fa_teardowns := map_del tid (fa_teardowns s)\<rparr>
      in case err of
           Some e \<Rightarrow> disconnect_link (td_call td) False gone
         | None \<Rightarrow>
             chain (s, [DisposeLimiterAndCache])
               (\<lambda>q. case fa_pool q of
                  Some (p, c) \<Rightarrow> (q\<lparr>fa_teardowns := map_set tid (td\<lparr>td_stage := TeardownPool p\<rparr>) (fa_teardowns q)\<rparr>, [ClosePool p])
                | None \<Rightarrow> disconnect_link (td_call td) True gone))"

definition teardown_pool_closed :: "nat \<Rightarrow> teardown \<Rightarrow> facade \<Rightarrow> facade \<times> fa_out list" where
  "teardown_pool_closed tid td s =
     disconnect_link (td_call td) True (s\<lparr>fa_pool := None, fa_teardowns := map_del tid (fa_teardowns s)\<rparr>)"

definition teardown_answer :: "nat \<Rightarrow> jsval option \<Rightarrow> facade \<Rightarrow> facade \<times> fa_out list" where
  "teardown_answer tid err s = (case map_get (fa_teardowns s) tid of
      None \<Rightarrow> (s, [])
    | Some td \<Rightarrow> (case td_stage td of
        TeardownConsumers \<Rightarrow> consumers_disposed tid td err s
      | TeardownPool p \<Rightarrow> teardown_pool_closed tid td s))"

section \<open>Events\<close>

datatype fa_event =
    FacadeConnect nat bool "rat option"
  | FacadeDisconnect nat
  | ConnectTimeout
  | RestoreAnswer nat "jsval option"
  | TeardownAnswer nat "jsval option"
  | LinkDialOk
  | LinkDialFailed
  | LinkLateClosed
  | LinkTimer
  | LinkLost nat
  | LinkCloseDone nat

fun fa_step :: "facade \<Rightarrow> fa_event \<Rightarrow> facade \<times> fa_out list" where
  "fa_step s (FacadeConnect call wait timeout) = facade_connect call wait timeout s"
| "fa_step s (FacadeDisconnect call) = facade_disconnect call s"
| "fa_step s ConnectTimeout = connect_timeout s"
| "fa_step s (RestoreAnswer rid err) = restore_answer rid err s"
| "fa_step s (TeardownAnswer tid err) = teardown_answer tid err s"
| "fa_step s LinkDialOk = link_event DialOk s"
| "fa_step s LinkDialFailed = link_event DialFailed s"
| "fa_step s LinkLateClosed = link_event LateClosed s"
| "fa_step s LinkTimer = link_event TimerFires s"
| "fa_step s (LinkLost c) = link_event (ConnectionLost c) s"
| "fa_step s (LinkCloseDone c) = link_event (CloseDone c) s"

definition facade_sample :: facade where
  "facade_sample = fa_new cn_sample"

section \<open>Every call settles once\<close>

definition fa_tracked :: "facade \<Rightarrow> (nat + nat) multiset" where
  "fa_tracked s = (case fa_connect s of Some a \<Rightarrow> image_mset Inl (mset (ca_calls a)) | None \<Rightarrow> {#}) +
     image_mset Inr (image_mset td_call (vals_of (fa_teardowns s)) + mset (map fst (fa_closing s)))"

fun fa_entered :: "facade \<Rightarrow> fa_event \<Rightarrow> (nat + nat) multiset" where
  "fa_entered s (FacadeConnect call wait timeout) = {#Inl call#}"
| "fa_entered s (FacadeDisconnect call) = {#Inr call#}"
| "fa_entered s _ = {#}"

fun fa_settles :: "fa_out \<Rightarrow> (nat + nat) multiset" where
  "fa_settles (ConnectSettled call r) = {#Inl call#}"
| "fa_settles (DisconnectSettled call) = {#Inr call#}"
| "fa_settles _ = {#}"

abbreviation fa_done :: "fa_out list \<Rightarrow> (nat + nat) multiset" where
  "fa_done out \<equiv> total_settled fa_settles out"

text \<open>
  What every handler does: it moves calls to the settled side only, and leaves the connection
  and the teardowns alone.
\<close>

definition routine :: "facade \<Rightarrow> facade \<times> fa_out list \<Rightarrow> bool" where
  "routine s r \<longleftrightarrow> fa_tracked s = fa_tracked (fst r) + fa_done (snd r) \<and> fa_link (fst r) = fa_link s \<and>
     fa_teardowns (fst r) = fa_teardowns s \<and> fa_next s \<le> fa_next (fst r)"

lemma routine_chain: "routine s r \<Longrightarrow> (\<And>q. routine q (f q)) \<Longrightarrow> routine s (chain r f)"
proof -
  assume r: "routine s r" and f: "\<And>q. routine q (f q)"
  have "fa_tracked s = (fa_tracked (fst (f (fst r))) + fa_done (snd (f (fst r)))) + fa_done (snd r)"
    using r f [of "fst r"] by (simp add: routine_def)
  with r f [of "fst r"] show ?thesis by (simp add: routine_def ac_simps)
qed

lemma settled_calls: "fa_done (map (\<lambda>call. ConnectSettled call r) cs) = image_mset Inl (mset cs)"
  by (induction cs) simp_all

lemma routine_quiet [simp]: "fa_done out = {#} \<Longrightarrow> routine s (s, out)"
  by (simp add: routine_def)

lemma routine_settle_attempt: "routine s (settle_attempt r s)"
  by (auto simp: routine_def settle_attempt_def settled_calls fa_tracked_def split: option.split)

lemma routine_wake_parked: "routine s (wake_parked r s)"
  by (simp add: wake_parked_def routine_settle_attempt)

lemmas emit_defs = emit_reconnected_def emit_reconnect_error_def emit_reconnect_failed_def emit_disconnecting_def

lemma routine_emits:
  "routine s (emit_reconnected s)" "routine s (emit_reconnect_error e s)" "routine s (emit_reconnect_failed s)"
  "routine s (emit_disconnecting s)"
  unfolding emit_defs by (rule routine_chain; simp add: routine_wake_parked)+

lemma routine_goes_on: "routine s (restore_goes_on r w s)"
  by (simp add: restore_goes_on_def routine_emits routine_settle_attempt split: restore_waiter.split sum.split)

lemma routine_all_go_on: "routine s (restore_all_go_on r ws s)"
  by (induction ws arbitrary: s) (simp_all add: routine_chain routine_goes_on)

lemma routine_start:
  assumes "routine s' r" "fa_tracked s' = fa_tracked s" "fa_link s' = fa_link s" "fa_teardowns s' = fa_teardowns s" "fa_next s' = fa_next s"
  shows "routine s r"
  using assms by (simp add: routine_def)

lemma fa_tracked_update [simp]:
  "fa_tracked (s\<lparr>fa_restores := m\<rparr>) = fa_tracked s" "fa_tracked (s\<lparr>fa_restore := x\<rparr>) = fa_tracked s"
  "fa_tracked (s\<lparr>fa_pool := p\<rparr>) = fa_tracked s" "fa_tracked (s\<lparr>fa_link := l\<rparr>) = fa_tracked s"
  "fa_tracked (s\<lparr>fa_next := n\<rparr>) = fa_tracked s"
  "fa_connect s = Some a \<Longrightarrow> fa_tracked (s\<lparr>fa_connect := Some (a\<lparr>ca_stage := st\<rparr>)\<rparr>) = fa_tracked s"
  by (simp_all add: fa_tracked_def)

lemma routine_restore_settled: "routine s (restore_settled rid r s)"
proof (cases "map_get (fa_restores s) rid")
  case (Some rt)
  show ?thesis
    unfolding restore_settled_def Some option.case by (rule routine_start [OF routine_all_go_on]) simp_all
qed (simp add: restore_settled_def)

lemma routine_to_stage: "fa_done out = {#} \<Longrightarrow> routine s (to_stage rid rt stage s, out)"
  "fa_done out = {#} \<Longrightarrow> routine s (to_stage rid rt stage (s\<lparr>fa_pool := p\<rparr>), out)"
  by (simp_all add: to_stage_def routine_def)

lemma routine_do_restore: "routine s (do_restore_state w s)"
proof (cases "cn_conn (fa_link s)")
  case (Some c)
  then show ?thesis by (simp add: do_restore_state_def routine_def fa_tracked_def)
qed (simp add: do_restore_state_def routine_goes_on)

lemma routine_restore_state: "routine s (restore_state w s)"
proof (cases "fa_restore s")
  case (Some rid)
  then show ?thesis
    by (cases "map_get (fa_restores s) rid") (simp_all add: restore_state_def routine_do_restore, simp add: routine_def)
qed (simp add: restore_state_def routine_do_restore)

lemma routine_step_failed: "routine s (restore_step_failed rid rt e s)"
  by (simp add: restore_step_failed_def routine_to_stage routine_restore_settled)

lemma routine_restore_answer: "routine s (restore_answer rid err s)"
proof (cases "map_get (fa_restores s) rid")
  case (Some rt)
  have "routine s (consumers_recreated rid rt err s)"
    by (cases err) (simp_all add: consumers_recreated_def routine_step_failed routine_chain routine_restore_settled)
  with Some show ?thesis
    by (cases "rt_stage rt"; cases err)
      (simp_all add: restore_answer_def pool_initialized_def exchange_ensured_def routine_restore_settled routine_to_stage
        routine_step_failed)
qed (simp add: restore_answer_def)

lemma routine_connect_answered:
  assumes "fa_connect s = Some a" shows "routine s (connect_answered res a s)"
proof -
  have "routine s (restore_state w (s\<lparr>fa_connect := Some (a\<lparr>ca_stage := st\<rparr>)\<rparr>))" for w st
    using assms by (intro routine_start [OF routine_restore_state]) simp_all
  moreover have "fa_done out = {#} \<Longrightarrow> routine s (s\<lparr>fa_connect := Some (a\<lparr>ca_stage := st\<rparr>)\<rparr>, out)" for out st
    using assms by (simp add: routine_def)
  ultimately show ?thesis
    by (simp add: connect_answered_def routine_settle_attempt split: option.split)
qed

lemma routine_disconnect_over: "routine s (disconnect_over s)"
  by (auto simp: routine_def disconnect_over_def fa_tracked_def split: list.split)

lemma routine_handle_link: "routine s (handle_link out s)"
proof (cases out)
  case EmitDisconnected
  then show ?thesis
    by (auto simp: handle_disconnection_def routine_def fa_tracked_def split: option.split)
qed (auto simp: handle_reconnection_def routine_restore_state routine_emits routine_disconnect_over
    intro: routine_connect_answered split: option.split)

lemma routine_handle_links: "routine s (handle_links outs s)"
  by (induction outs arbitrary: s) (simp_all add: routine_chain routine_handle_link)

lemma link_event_simps:
  "fa_tracked s = fa_tracked (fst (link_event e s)) + fa_done (snd (link_event e s))"
  "fa_link (fst (link_event e s)) = fst (cn_step (fa_link s) e)"
  "fa_teardowns (fst (link_event e s)) = fa_teardowns s" "fa_next s \<le> fa_next (fst (link_event e s))"
proof -
  obtain link outs where step: "cn_step (fa_link s) e = (link, outs)" by fastforce
  have "routine (s\<lparr>fa_link := link\<rparr>) (handle_links outs (s\<lparr>fa_link := link\<rparr>))" by (rule routine_handle_links)
  then show "fa_tracked s = fa_tracked (fst (link_event e s)) + fa_done (snd (link_event e s))"
    "fa_link (fst (link_event e s)) = fst (cn_step (fa_link s) e)"
    "fa_teardowns (fst (link_event e s)) = fa_teardowns s" "fa_next s \<le> fa_next (fst (link_event e s))"
    by (simp_all add: link_event_def step routine_def)
qed

definition teardowns_ok :: "facade \<Rightarrow> bool" where
  "teardowns_ok s \<longleftrightarrow> wf_map (fa_teardowns s) \<and> key_set (fa_teardowns s) \<subseteq> {..<fa_next s}"

lemma teardowns_ok_routine: "teardowns_ok s \<Longrightarrow> routine s r \<Longrightarrow> teardowns_ok (fst r)"
  by (auto simp: teardowns_ok_def routine_def)

lemma teardowns_ok_link: "teardowns_ok s \<Longrightarrow> teardowns_ok (fst (link_event e s))"
  using link_event_simps(3,4) [where s = s and e = e] by (auto simp: teardowns_ok_def)

lemma facade_connect_calls:
  "fa_tracked s + {#Inl call#} = fa_tracked (fst (facade_connect call wait timeout s)) + fa_done (snd (facade_connect call wait timeout s))"
  "teardowns_ok s \<Longrightarrow> teardowns_ok (fst (facade_connect call wait timeout s))"
proof -
  let ?a = "\<lparr>ca_calls = [call], ca_wait = wait, ca_timeout = timeout, ca_stage = AttemptDialing\<rparr>"
  have "fa_connect s = None \<Longrightarrow> fa_tracked s + {#Inl call#} = fa_tracked (s\<lparr>fa_connect := Some ?a\<rparr>)"
    by (simp add: fa_tracked_def)
  moreover have "fa_connect s = Some a \<Longrightarrow> fa_tracked s + {#Inl call#} = fa_tracked (s\<lparr>fa_connect := Some (a\<lparr>ca_calls := ca_calls a @ [call]\<rparr>)\<rparr>)" for a
    by (simp add: fa_tracked_def)
  ultimately show "fa_tracked s + {#Inl call#} = fa_tracked (fst (facade_connect call wait timeout s)) + fa_done (snd (facade_connect call wait timeout s))"
    using link_event_simps(1) [of "s\<lparr>fa_connect := Some ?a\<rparr>" "Connect call"]
    by (simp add: facade_connect_def split: option.split)
  show "teardowns_ok s \<Longrightarrow> teardowns_ok (fst (facade_connect call wait timeout s))"
    by (cases "fa_connect s") (auto simp: facade_connect_def intro!: teardowns_ok_link, simp_all add: teardowns_ok_def)
qed

lemma disconnect_link_calls:
  "fa_tracked s + {#Inr call#} = fa_tracked (fst (disconnect_link call clean s)) + fa_done (snd (disconnect_link call clean s))"
  "teardowns_ok s \<Longrightarrow> teardowns_ok (fst (disconnect_link call clean s))"
proof -
  have "fa_tracked s + {#Inr call#} = fa_tracked (s\<lparr>fa_closing := (call, clean) # fa_closing s\<rparr>)"
    "fa_tracked s + {#Inr call#} = fa_tracked (s\<lparr>fa_closing := fa_closing s @ [(call, clean)]\<rparr>)"
    by (simp_all add: fa_tracked_def)
  then show "fa_tracked s + {#Inr call#} = fa_tracked (fst (disconnect_link call clean s)) + fa_done (snd (disconnect_link call clean s))"
    unfolding disconnect_link_def Let_def
    by (cases "DisconnectDone \<in> set (snd (cn_step (fa_link s) Disconnect))") (simp_all add: link_event_simps(1) [symmetric] del: cn_step.simps)
  show "teardowns_ok s \<Longrightarrow> teardowns_ok (fst (disconnect_link call clean s))"
    unfolding disconnect_link_def Let_def by (intro teardowns_ok_link) (simp add: teardowns_ok_def)
qed

lemma facade_disconnect_calls:
  assumes "teardowns_ok s"
  shows "fa_tracked s + {#Inr call#} = fa_tracked (fst (facade_disconnect call s)) + fa_done (snd (facade_disconnect call s))"
    and "teardowns_ok (fst (facade_disconnect call s))"
proof -
  let ?q = "fst (emit_disconnecting s)"
  have r: "routine s (emit_disconnecting s)" by (rule routine_emits)
  then have ok: "teardowns_ok ?q" using assms by (rule teardowns_ok_routine [rotated])
  then have fresh: "fa_next ?q \<notin> key_set (fa_teardowns ?q)" by (auto simp: teardowns_ok_def)
  show "fa_tracked s + {#Inr call#} = fa_tracked (fst (facade_disconnect call s)) + fa_done (snd (facade_disconnect call s))"
    using r vals_set_new [OF fresh] by (simp add: facade_disconnect_def routine_def) (simp add: fa_tracked_def)
  show "teardowns_ok (fst (facade_disconnect call s))"
    using ok by (auto simp: facade_disconnect_def teardowns_ok_def)
qed

lemma teardown_answer_calls:
  assumes "teardowns_ok s"
  shows "fa_tracked s = fa_tracked (fst (teardown_answer tid err s)) + fa_done (snd (teardown_answer tid err s))"
    and "teardowns_ok (fst (teardown_answer tid err s))"
proof -
  let ?good = "\<lambda>r. fa_tracked s = fa_tracked (fst r) + fa_done (snd r) \<and> teardowns_ok (fst r)"
  have "?good (teardown_answer tid err s)"
  proof (cases "map_get (fa_teardowns s) tid")
    case (Some td)
    have wf: "wf_map (fa_teardowns s)" using assms by (simp add: teardowns_ok_def)
    let ?gone = "s\<lparr>fa_teardowns := map_del tid (fa_teardowns s)\<rparr>"
    have "fa_tracked s = fa_tracked ?gone + {#Inr (td_call td)#}"
      using vals_del [OF wf Some] by (simp add: fa_tracked_def)
    moreover have "teardowns_ok ?gone" using assms by (auto simp: teardowns_ok_def)
    ultimately have gone: "?good (disconnect_link (td_call td) clean (s\<lparr>fa_pool := p, fa_teardowns := map_del tid (fa_teardowns s)\<rparr>))"
      "?good (disconnect_link (td_call td) clean ?gone)" for clean p
      using disconnect_link_calls [of ?gone "td_call td" clean] disconnect_link_calls [of "s\<lparr>fa_pool := p, fa_teardowns := map_del tid (fa_teardowns s)\<rparr>" "td_call td" clean]
      by (simp_all add: teardowns_ok_def fa_tracked_def)
    then have closed: "?good (teardown_pool_closed tid td s)"
      by (simp add: teardown_pool_closed_def)
    let ?held = "s\<lparr>fa_teardowns := map_set tid (td\<lparr>td_stage := TeardownPool p\<rparr>) (fa_teardowns s)\<rparr>"
    have "vals_of (map_set tid (td\<lparr>td_stage := st\<rparr>) (fa_teardowns s)) = add_mset (td\<lparr>td_stage := st\<rparr>) (vals_of (map_del tid (fa_teardowns s)))" for st
      by (rule vals_set [OF wf])
    with vals_del [OF wf Some] have "fa_tracked (s\<lparr>fa_teardowns := map_set tid (td\<lparr>td_stage := st\<rparr>) (fa_teardowns s)\<rparr>) = fa_tracked s" for st
      by (simp add: fa_tracked_def)
    moreover have "teardowns_ok (s\<lparr>fa_teardowns := map_set tid (td\<lparr>td_stage := st\<rparr>) (fa_teardowns s)\<rparr>)" for st
      using assms map_get_key [OF Some] by (auto simp: teardowns_ok_def)
    ultimately have "?good (consumers_disposed tid td err s)"
      using gone(2) by (cases err; cases "fa_pool s") (auto simp: consumers_disposed_def Let_def)
    with closed Some show ?thesis by (simp add: teardown_answer_def split: teardown_stage.split)
  qed (simp add: teardown_answer_def assms)
  then show "fa_tracked s = fa_tracked (fst (teardown_answer tid err s)) + fa_done (snd (teardown_answer tid err s))"
    "teardowns_ok (fst (teardown_answer tid err s))" by blast+
qed

lemma routine_connect_timeout: "routine s (connect_timeout s)"
  by (simp add: connect_timeout_def routine_wake_parked split: option.split)

lemma routine_step: "routine s r \<Longrightarrow> fa_tracked s = fa_tracked (fst r) + fa_done (snd r)"
  by (simp add: routine_def)

lemma fa_step_teardowns: "teardowns_ok s \<Longrightarrow> teardowns_ok (fst (fa_step s e))"
  by (cases e) (simp_all add: facade_connect_calls(2) facade_disconnect_calls(2) teardown_answer_calls(2) teardowns_ok_link
      teardowns_ok_routine [OF _ routine_connect_timeout] teardowns_ok_routine [OF _ routine_restore_answer])

lemma fa_step_conserves:
  "teardowns_ok s \<Longrightarrow> fa_tracked s + fa_entered s e = fa_tracked (fst (fa_step s e)) + fa_done (snd (fa_step s e))"
  by (cases e) (simp_all add: facade_connect_calls(1) [simplified] facade_disconnect_calls(1) [simplified] teardown_answer_calls(1) [symmetric]
      link_event_simps(1) [symmetric] routine_step [OF routine_connect_timeout, symmetric] routine_step [OF routine_restore_answer, symmetric])

interpretation fal: ledger_machine fa_step "\<lambda>e. True" teardowns_ok fa_tracked fa_entered fa_settles
  by unfold_locales (rule fa_step_teardowns, assumption, rule fa_step_conserves)

text \<open>
  C5: Every call of \<open>connect\<close> and \<open>disconnect\<close> settles at most once and none is lost. In every
  interleaving of calls with dials, losses, timers, restorations and their failures: the calls
  made are exactly those settled plus those of the one shared attempt and of the teardowns
  under way; and when there is no attempt, every call of \<open>connect\<close> has been settled.
\<close>

theorem facade_calls_settle_once:
  fixes es :: "fa_event list" and link :: connection
  defines "r \<equiv> run_machine fa_step (fa_new link) es"
  shows "total_entered fa_step fa_entered (fa_new link) es = fa_tracked (fst r) + total_settled fa_settles (snd r) \<and>
    (fa_connect (fst r) = None \<longrightarrow> (\<forall>call. count (total_entered fa_step fa_entered (fa_new link) es) (Inl call) =
       count (total_settled fa_settles (snd r)) (Inl call)))"
proof -
  have "teardowns_ok (fa_new link)" "fa_tracked (fa_new link) = {#}" by (simp_all add: teardowns_ok_def fa_new_def fa_tracked_def)
  with fal.run_conserves [of "fa_new link" es]
  have total: "total_entered fa_step fa_entered (fa_new link) es = fa_tracked (fst r) + total_settled fa_settles (snd r)"
    by (simp add: list_all_iff r_def)
  have "count (image_mset Inr M) (Inl call) = 0" for M :: "nat multiset" and call :: nat
    by (induction M) simp_all
  then have "fa_connect (fst r) = None \<longrightarrow> count (fa_tracked (fst r)) (Inl call) = 0" for call
    by (simp add: fa_tracked_def)
  with total show ?thesis by simp
qed

theorem facade_calls_settle_once_witness:
  "let r = run_machine fa_step facade_sample [FacadeConnect 0 False None, FacadeConnect 1 False None, LinkDialOk, RestoreAnswer 0 None,
       RestoreAnswer 0 None, RestoreAnswer 0 None, FacadeDisconnect 2]
   in fa_connect (fst r) = None \<and> count (total_settled fa_settles (snd r)) (Inl 1) = 1"
proof -
  define es where "es = [FacadeConnect 0 False None, FacadeConnect 1 False None, LinkDialOk, RestoreAnswer 0 None,
       RestoreAnswer 0 None, RestoreAnswer 0 None, FacadeDisconnect 2]"
  have "fa_connect (fst (run_machine fa_step facade_sample es)) = None" unfolding es_def by code_simp
  moreover have "count (total_entered fa_step fa_entered facade_sample es) (Inl 1) = 1"
    unfolding es_def by (simp only: total_entered.simps fa_entered.simps) simp
  ultimately show ?thesis
    using facade_calls_settle_once [of cn_sample es] unfolding Let_def es_def [symmetric] facade_sample_def by metis
qed

end
