(* ===== verification/Facade_Waiting.thy ===== *)
theory Facade_Waiting
  imports Facade
begin

text \<open>
  The waiters of the facade: an attempt of \<open>connect\<close> that is parked until the next reconnection
  (\<open>#doConnect\<close> of \<open>src/index.js\<close>) always has an event to come that settles it, unless the client
  was shut down. The invariant follows the reconnection of the connection through its events
  and the restoration through its stages.
\<close>

section \<open>A parked call of connect has a future\<close>

text \<open>
  What a parked attempt waits for: a reconnection that is under way (the timer, or the dial of
  the timer), or a restoration whose end the handler of \<open>'reconnected'\<close> reports.
\<close>

definition reconnecting_on :: "connection \<Rightarrow> bool" where
  "reconnecting_on p \<longleftrightarrow> cn_dial p = None \<and> cn_timer p \<noteq> None \<or> cn_dial p \<noteq> None \<and> Retry \<in> set (cn_waiters p)"

definition reported :: "facade \<Rightarrow> bool" where
  "reported s \<longleftrightarrow> (\<exists>rid rt. map_get (fa_restores s) rid = Some rt \<and> AwaitReconnected \<in> set (rt_waiters rt))"

text \<open>A dial that came too late was made late by a shutdown.\<close>

definition late_ok :: "connection \<Rightarrow> bool" where
  "late_ok p \<longleftrightarrow> (cn_dial p = Some ClosingLate \<longrightarrow> cn_shutting p)"

lemma dial_endpoint_known: "endpoints_ok p \<Longrightarrow> dial_endpoint 0 p =
    (p\<lparr>cn_dial := Some (Dialing 0)\<rparr>, [DialUrl (build_connection_string p (cn_endpoints p ! cn_current p))])"
  by (auto simp: dial_endpoint_def endpoints_ok_def)

lemma connect_cases:
  assumes "endpoints_ok p"
  shows "fst (connect c p) =
      (if cn_dial p \<noteq> None then p\<lparr>cn_waiters := cn_waiters p @ [c]\<rparr>
       else if cn_state p = Connected \<and> cn_conn p \<noteq> None then p\<lparr>cn_waiters := [], cn_dial := None\<rparr>
       else p\<lparr>cn_waiters := cn_waiters p @ [c], cn_shutting := False, cn_state := Connecting, cn_dial := Some (Dialing 0)\<rparr>)"
    and "\<And>n. ConnectResult n None \<notin> set (snd (connect c p))"
proof -
  let ?q = "p\<lparr>cn_waiters := cn_waiters p @ [c], cn_shutting := False, cn_state := Connecting\<rparr>"
  have "endpoints_ok ?q" using assms by (simp add: endpoints_ok_def)
  note dial = dial_endpoint_known [OF this]
  have fresh: "fst (connect c p) = ?q\<lparr>cn_dial := Some (Dialing 0)\<rparr>" "ConnectResult n None \<notin> set (snd (connect c p))"
    if "cn_dial p = None" "\<not> (cn_state p = Connected \<and> cn_conn p \<noteq> None)" for n
  proof -
    have "connect c p = chain (set_connection_state Connecting (p\<lparr>cn_waiters := cn_waiters p @ [c], cn_shutting := False\<rparr>)) (dial_endpoint 0)"
      using that by (auto simp: connect_def do_connect_def Let_def)
    then show "fst (connect c p) = ?q\<lparr>cn_dial := Some (Dialing 0)\<rparr>" "ConnectResult n None \<notin> set (snd (connect c p))"
      by (simp_all add: dial) (simp add: set_connection_state_def)
  qed
  have known: "connect c p = settle_connect (cn_conn p) (p\<lparr>cn_waiters := cn_waiters p @ [c]\<rparr>)"
    if "cn_dial p = None" "cn_state p = Connected \<and> cn_conn p \<noteq> None"
    using that by (simp add: connect_def do_connect_def Let_def)
  show "fst (connect c p) =
      (if cn_dial p \<noteq> None then p\<lparr>cn_waiters := cn_waiters p @ [c]\<rparr>
       else if cn_state p = Connected \<and> cn_conn p \<noteq> None then p\<lparr>cn_waiters := [], cn_dial := None\<rparr>
       else p\<lparr>cn_waiters := cn_waiters p @ [c], cn_shutting := False, cn_state := Connecting, cn_dial := Some (Dialing 0)\<rparr>)"
    using fresh(1) known by (cases "cn_dial p") (simp_all add: connect_def Let_def)
  have "ConnectResult n None \<notin> set (answer_caller (Some x) w)" for n x w by (cases w) simp_all
  then have "ConnectResult n None \<notin> set (snd (settle_connect (Some x) q))" for n x q
    by (simp add: settle_connect_def)
  note answered = this
  show "ConnectResult n None \<notin> set (snd (connect c p))" for n
  proof (cases "cn_dial p")
    case None
    show ?thesis
    proof (cases "cn_state p = Connected \<and> cn_conn p \<noteq> None")
      case True
      then obtain x where "cn_conn p = Some x" by blast
      with known [OF None True] answered show ?thesis by simp
    next
      case False
      with fresh(2) None show ?thesis by blast
    qed
  next
    case (Some d)
    then have "snd (connect c p) = []" by (simp add: connect_def Let_def)
    then show ?thesis by simp
  qed
qed

lemma cn_step_late: "cn_inv p \<Longrightarrow> late_ok p \<Longrightarrow> late_ok (fst (cn_step p e))"
proof -
  assume inv: "cn_inv p" and late: "late_ok p"
  then have ends: "endpoints_ok p" "endpoints_ok (p\<lparr>cn_timer := t, cn_attempt := k\<rparr>)" for t k
    by (auto simp: cn_inv_defs)
  show ?thesis
  proof (cases e)
    case (Connect n)
    with late ends show ?thesis by (auto simp: connect_cases late_ok_def)
  next
    case TimerFires
    with late ends show ?thesis by (auto simp: attempt_reconnect_def connect_cases late_ok_def)
  next
    case DialOk
    with late show ?thesis by (auto simp: dial_ok_def Let_def late_ok_def split: option.split dial.split)
  next
    case DialFailed
    have "cn_dial (fst (dial_failed k p)) \<noteq> Some ClosingLate" for k
      by (simp add: dial_failed_def dial_endpoint_def dial_exhausted_def Let_def)
    with DialFailed late show ?thesis by (simp add: late_ok_def split: option.split dial.split)
  next
    case LateClosed
    with late show ?thesis by (auto simp: late_closed_def late_ok_def)
  next
    case (ConnectionLost c)
    with late show ?thesis by (auto simp: connection_lost_def Let_def late_ok_def cn_result_simps)
  next
    case Disconnect
    then show ?thesis by (auto simp: disconnect_def Let_def late_ok_def disconnected_now_def split: option.split)
  next
    case (CloseDone c)
    with late show ?thesis by (auto simp: close_done_def disconnected_now_def late_ok_def)
  qed
qed

text \<open>The events by which a parked attempt learns its outcome.\<close>

definition waking :: "connection \<Rightarrow> cn_out list \<Rightarrow> bool" where
  "waking p outs \<longleftrightarrow> EmitReconnectFailed \<in> set outs \<or> EmitReconnected \<in> set outs \<and> cn_conn p \<noteq> None"

lemma start_reconnection_outs:
  assumes "\<not> cn_shutting p"
  shows "cn_timer (fst (start_reconnection p)) \<noteq> None \<or>
    cn_state (fst (start_reconnection p)) = Failed \<and> EmitReconnectFailed \<in> set (snd (start_reconnection p))"
proof (cases "attempts_spent p")
  case True
  then have "EmitReconnectFailed \<in> set (snd (schedule_reconnect (p\<lparr>cn_reconnecting := b, cn_state := st\<rparr>)))"
    "EmitReconnectFailed \<in> set (snd (schedule_reconnect p))" for b st
    by (simp_all add: schedule_reconnect_def Let_def)
  with True assms show ?thesis
    by (auto simp: start_reconnection_def cn_result_simps)
qed (use assms in \<open>simp add: fst_start_reconnection\<close>)

abbreviation not_given_up :: "connection \<Rightarrow> bool" where
  "not_given_up p \<equiv> cn_shutting p \<or> reconnecting_on p"

lemma settle_connect_wakes: "Retry \<in> set (cn_waiters p) \<Longrightarrow> EmitReconnected \<in> set (snd (settle_connect (Some c) p))"
  by (auto simp: settle_connect_def intro!: bexI [of _ Retry])

lemma dial_exhausted_goes_on:
  "not_given_up (fst (dial_exhausted p)) \<or> cn_state (fst (dial_exhausted p)) = Failed \<and> waking (fst (dial_exhausted p)) (snd (dial_exhausted p))"
proof (cases "cn_shutting p")
  case False
  then have "\<not> cn_shutting (p\<lparr>cn_conn := None\<rparr>)" by simp
  from start_reconnection_outs [OF this] False show ?thesis
    unfolding dial_exhausted_def Let_def by (auto simp: reconnecting_on_def waking_def)
qed (simp add: dial_exhausted_def Let_def)

lemma dial_failed_goes_on:
  assumes "not_given_up p" "cn_dial p = Some d"
  shows "not_given_up (fst (dial_failed k p)) \<or> waking (fst (dial_failed k p)) (snd (dial_failed k p))"
proof -
  let ?q = "p\<lparr>cn_current := (cn_current p + 1) mod length (cn_endpoints p)\<rparr>"
  show ?thesis
  proof (cases "Suc k < length (cn_endpoints ?q)")
    case True
    with assms show ?thesis by (simp add: dial_failed_def dial_endpoint_def reconnecting_on_def)
  next
    case False
    with dial_exhausted_goes_on [of ?q] show ?thesis by (auto simp: dial_failed_def dial_endpoint_def)
  qed
qed

lemma connection_lost_goes_on:
  "not_given_up p \<Longrightarrow> not_given_up (fst (connection_lost c p)) \<or> waking (fst (connection_lost c p)) (snd (connection_lost c p))"
proof (cases "cn_shutting p")
  case False
  let ?q = "p\<lparr>cn_live := removeAll c (cn_live p), cn_conn := None\<rparr>"
  assume ok: "not_given_up p"
  have q: "connection_lost c p = start_reconnection ?q" using False by (simp add: connection_lost_def Let_def)
  have "\<not> cn_shutting ?q" using False by simp
  from start_reconnection_outs [OF this] ok False show ?thesis
    unfolding q by (auto simp: reconnecting_on_def waking_def fst_start_reconnection)
qed (simp add: connection_lost_def Let_def)

text \<open>A reconnection that is under way goes on, or ends with an event that wakes the parked.\<close>

lemma reconnection_goes_on:
  assumes "cn_inv p" "late_ok p" "not_given_up p" "\<forall>n. e \<noteq> Connect n"
  shows "not_given_up (fst (cn_step p e)) \<or> waking (fst (cn_step p e)) (snd (cn_step p e))"
proof (cases e)
  case DialOk
  show ?thesis
  proof (cases "\<exists>k. cn_dial p = Some (Dialing k) \<and> \<not> cn_shutting p")
    case True
    then have "Retry \<in> set (cn_waiters p)" using assms(3) by (auto simp: reconnecting_on_def)
    with True DialOk settle_connect_wakes show ?thesis by (auto simp: dial_ok_def Let_def waking_def)
  next
    case False
    with assms DialOk show ?thesis
      by (cases "cn_dial p") (auto simp: dial_ok_def Let_def late_ok_def split: dial.split)
  qed
next
  case DialFailed
  with assms(3) dial_failed_goes_on [OF assms(3)] show ?thesis by (auto split: option.split dial.split)
next
  case LateClosed
  with assms show ?thesis by (auto simp: late_closed_def late_ok_def)
next
  case TimerFires
  have ends: "endpoints_ok (p\<lparr>cn_timer := None, cn_attempt := k\<rparr>)" for k using assms(1) by (simp add: cn_inv_defs)
  show ?thesis
  proof (cases "cn_timer p")
    case (Some t)
    then have "cn_state p \<noteq> Connected" using assms(1) by (auto simp: cn_inv_defs)
    with Some TimerFires show ?thesis
      by (auto simp: attempt_reconnect_def connect_cases [OF ends] reconnecting_on_def)
  qed (use assms TimerFires in simp)
next
  case (ConnectionLost c)
  with connection_lost_goes_on [OF assms(3)] assms(3) show ?thesis by auto
next
  case Disconnect
  then show ?thesis by (auto simp: disconnect_def Let_def disconnected_now_def split: option.split)
next
  case (CloseDone c)
  with assms(3) show ?thesis by (auto simp: close_done_def disconnected_now_def reconnecting_on_def)
qed (use assms in auto)

lemma no_none_result [simp]:
  "ConnectResult n None \<notin> set (snd (set_connection_state st p))" "ConnectResult n None \<notin> set (snd (start_reconnection p))"
  "ConnectResult n None \<notin> set (snd (disconnected_now p))" "ConnectResult n None \<notin> set (snd (settle_connect (Some c) p))"
proof -
  have "ConnectResult n None \<notin> set (answer_caller (Some c) w)" for w by (cases w) simp_all
  then show "ConnectResult n None \<notin> set (snd (settle_connect (Some c) p))" by (simp add: settle_connect_def)
qed (simp_all add: set_connection_state_def start_reconnection_def schedule_reconnect_def disconnected_now_def)

text \<open>A call is told that there is no connection only while one is being tried for, or at the end.\<close>

lemma none_result_reason:
  assumes "cn_inv p" "late_ok p" "ConnectResult n None \<in> set (snd (cn_step p e))"
  shows "not_given_up (fst (cn_step p e)) \<or> cn_state (fst (cn_step p e)) = Failed"
proof (cases e)
  case (Connect m)
  then show ?thesis using assms connect_cases(2) [of p] by (auto simp: cn_inv_defs)
next
  case DialOk
  with assms(3) show ?thesis by (auto simp: dial_ok_def Let_def split: option.splits dial.splits if_splits)
next
  case DialFailed
  with assms(3) dial_exhausted_goes_on show ?thesis
    by (auto simp: dial_failed_def dial_endpoint_def split: option.splits dial.splits if_splits)
next
  case LateClosed
  with assms show ?thesis by (auto simp: late_closed_def late_ok_def split: if_splits)
next
  case TimerFires
  have "endpoints_ok (p\<lparr>cn_timer := None, cn_attempt := k\<rparr>)" for k using assms(1) by (simp add: cn_inv_defs)
  from connect_cases(2) [OF this] TimerFires assms(3) show ?thesis by (auto simp: attempt_reconnect_def split: if_splits)
next
  case (ConnectionLost c)
  with assms(3) show ?thesis by (auto simp: connection_lost_def Let_def split: if_splits)
next
  case Disconnect
  with assms(3) show ?thesis by (auto simp: disconnect_def Let_def split: option.splits if_splits)
next
  case (CloseDone c)
  with assms(3) show ?thesis by (auto simp: close_done_def split: if_splits)
qed

text \<open>Settling or waking the attempt touches nothing but the attempt, which ends.\<close>

lemma settle_attempt_fst: "fst (settle_attempt r s) = s\<lparr>fa_connect := None\<rparr>"
  by (cases s) (auto simp: settle_attempt_def split: option.split)

lemma wake_parked_fst: "fst (wake_parked r s) = (if parked s then s\<lparr>fa_connect := None\<rparr> else s)"
  by (simp add: wake_parked_def settle_attempt_fst)

lemma emits_fst:
  "fst (emit_reconnected s) = (if parked s then s\<lparr>fa_connect := None\<rparr> else s)"
  "fst (emit_reconnect_error e s) = (if parked s then s\<lparr>fa_connect := None\<rparr> else s)"
  "fst (emit_reconnect_failed s) = (if parked s then s\<lparr>fa_connect := None\<rparr> else s)"
  "fst (emit_disconnecting s) = (if parked s then s\<lparr>fa_connect := None\<rparr> else s)"
  unfolding emit_defs by (simp_all add: wake_parked_fst)

lemma goes_on_fst: "fst (restore_goes_on r w s) \<in> {s, s\<lparr>fa_connect := None\<rparr>}"
  by (auto simp: restore_goes_on_def emits_fst settle_attempt_fst split: restore_waiter.split sum.split)

lemma all_go_on_fst: "fst (restore_all_go_on r ws s) \<in> {s, s\<lparr>fa_connect := None\<rparr>}"
proof (induction ws arbitrary: s)
  case (Cons w ws)
  from goes_on_fst [of r w s] Cons [of s] Cons [of "s\<lparr>fa_connect := None\<rparr>"] show ?case by auto
qed simp

lemma parked_update [simp]:
  "parked (s\<lparr>fa_connect := None\<rparr>) = False" "parked (s\<lparr>fa_restores := m\<rparr>) = parked s" "parked (s\<lparr>fa_restore := x\<rparr>) = parked s"
  "parked (s\<lparr>fa_pool := p\<rparr>) = parked s" "parked (s\<lparr>fa_link := l\<rparr>) = parked s" "parked (s\<lparr>fa_next := n\<rparr>) = parked s"
  "parked (s\<lparr>fa_teardowns := t\<rparr>) = parked s" "parked (s\<lparr>fa_closing := cl\<rparr>) = parked s"
  "parked (s\<lparr>fa_connect := Some (a\<lparr>ca_stage := st\<rparr>)\<rparr>) = (st = AttemptParked)"
  by (simp_all add: parked_def)

text \<open>A waiting handler of \<open>'reconnected'\<close> wakes the parked attempt when its restoration ends.\<close>

lemma all_go_on_unparks: "AwaitReconnected \<in> set ws \<Longrightarrow> \<not> parked (fst (restore_all_go_on r ws s))"
proof (induction ws arbitrary: s)
  case (Cons w ws)
  show ?case
  proof (cases "w = AwaitReconnected")
    case True
    have "\<not> parked (fst (restore_goes_on r w s))"
      by (simp add: True restore_goes_on_def emits_fst split: sum.split)
    with all_go_on_fst [of r ws "fst (restore_goes_on r w s)"] show ?thesis by auto
  qed (use Cons in simp)
qed simp

definition hopeful :: "facade \<Rightarrow> bool" where
  "hopeful s \<longleftrightarrow> (parked s \<longrightarrow> not_given_up (fa_link s) \<or> reported s)"

lemma reported_update [simp]:
  "reported (s\<lparr>fa_connect := c\<rparr>) = reported s" "reported (s\<lparr>fa_pool := p\<rparr>) = reported s" "reported (s\<lparr>fa_link := l\<rparr>) = reported s"
  "reported (s\<lparr>fa_teardowns := t\<rparr>) = reported s" "reported (s\<lparr>fa_closing := cl\<rparr>) = reported s" "reported (s\<lparr>fa_next := n\<rparr>) = reported s"
  "reported (s\<lparr>fa_restore := x\<rparr>) = reported s"
  by (simp_all add: reported_def)

lemma do_restore_reported:
  "reported s \<Longrightarrow> fa_next s \<notin> key_set (fa_restores s) \<Longrightarrow> reported (fst (do_restore_state w s))"
  "cn_conn (fa_link s) \<noteq> None \<Longrightarrow> reported (fst (do_restore_state AwaitReconnected s))"
proof -
  show "cn_conn (fa_link s) \<noteq> None \<Longrightarrow> reported (fst (do_restore_state AwaitReconnected s))"
    by (auto simp: do_restore_state_def reported_def map_get_set)
  assume "reported s" and fresh: "fa_next s \<notin> key_set (fa_restores s)"
  then obtain rid rt where rt: "map_get (fa_restores s) rid = Some rt" "AwaitReconnected \<in> set (rt_waiters rt)"
    by (auto simp: reported_def)
  with fresh have other: "rid \<noteq> fa_next s" by (auto dest: map_get_key)
  have none: "cn_conn (fa_link s) = None \<Longrightarrow> fst (do_restore_state w s) \<in> {s, s\<lparr>fa_connect := None\<rparr>}"
    using goes_on_fst [of "Inl (error_object ''No active connection to RabbitMQ'')" w s] by (simp add: do_restore_state_def)
  have "cn_conn (fa_link s) \<noteq> None \<Longrightarrow> reported (fst (do_restore_state w s))"
    using rt other by (auto simp: do_restore_state_def reported_def map_get_set intro!: exI [of _ rid])
  moreover have "fst (do_restore_state w s) \<in> {s, s\<lparr>fa_connect := None\<rparr>} \<Longrightarrow> reported (fst (do_restore_state w s))"
    using \<open>reported s\<close> by auto
  ultimately show "reported (fst (do_restore_state w s))" using none by (cases "cn_conn (fa_link s)") blast+
qed

text \<open>The restorations are numbered by the counter, and the slot names one of them.\<close>

definition restores_ok :: "facade \<Rightarrow> bool" where
  "restores_ok s \<longleftrightarrow> wf_map (fa_restores s) \<and> key_set (fa_restores s) \<subseteq> {..<fa_next s} \<and>
     (\<forall>rid. fa_restore s = Some rid \<longrightarrow> rid \<in> key_set (fa_restores s))"

lemma do_restore_fst:
  "fst (do_restore_state w s) = (case cn_conn (fa_link s) of
      Some c \<Rightarrow> s\<lparr>fa_restores := map_set (fa_next s) \<lparr>rt_stage = RestoreBuilding c, rt_waiters = [w]\<rparr> (fa_restores s),
                    fa_restore := Some (fa_next s), fa_next := Suc (fa_next s)\<rparr>
    | None \<Rightarrow> fst (restore_goes_on (Inl (error_object ''No active connection to RabbitMQ'')) w s))"
  by (simp add: do_restore_state_def split: option.split)

lemma restores_ok_update [simp]:
  "restores_ok (s\<lparr>fa_connect := c\<rparr>) = restores_ok s" "restores_ok (s\<lparr>fa_pool := p\<rparr>) = restores_ok s"
  "restores_ok (s\<lparr>fa_link := l\<rparr>) = restores_ok s" "restores_ok (s\<lparr>fa_teardowns := t\<rparr>) = restores_ok s"
  "restores_ok (s\<lparr>fa_closing := cl\<rparr>) = restores_ok s"
  by (simp_all add: restores_ok_def)

lemma goes_on_restores_ok: "restores_ok s \<Longrightarrow> restores_ok (fst (restore_goes_on r w s))"
  using goes_on_fst [of r w s] by auto

lemma restore_state_ok: "restores_ok s \<Longrightarrow> restores_ok (fst (restore_state w s))"
proof -
  assume ok: "restores_ok s"
  then have "restores_ok (fst (do_restore_state w s))"
    by (auto simp: do_restore_fst goes_on_restores_ok split: option.split) (auto simp: restores_ok_def)
  moreover have "map_get (fa_restores s) rid = Some rt \<Longrightarrow>
      restores_ok (s\<lparr>fa_restores := map_set rid (rt\<lparr>rt_waiters := rt_waiters rt @ [w]\<rparr>) (fa_restores s)\<rparr>)" for rid rt
    using ok by (auto simp: restores_ok_def dest: map_get_key)
  ultimately show ?thesis by (auto simp: restore_state_def split: option.split)
qed

lemma restore_state_reported:
  assumes "restores_ok s"
  shows "reported s \<Longrightarrow> reported (fst (restore_state w s))"
    and "cn_conn (fa_link s) \<noteq> None \<Longrightarrow> reported (fst (restore_state AwaitReconnected s))"
proof -
  have fresh: "fa_next s \<notin> key_set (fa_restores s)" using assms by (auto simp: restores_ok_def)
  have join: "reported s \<or> w = AwaitReconnected \<Longrightarrow> map_get (fa_restores s) rid = Some rt \<Longrightarrow>
      reported (s\<lparr>fa_restores := map_set rid (rt\<lparr>rt_waiters := rt_waiters rt @ [w]\<rparr>) (fa_restores s)\<rparr>)" for rid rt w
    unfolding reported_def by (auto simp: map_get_set) (metis option.inject)
  show "reported s \<Longrightarrow> reported (fst (restore_state w s))"
    using fresh join [of w] do_restore_reported(1) by (auto simp: restore_state_def split: option.split)
  show "cn_conn (fa_link s) \<noteq> None \<Longrightarrow> reported (fst (restore_state AwaitReconnected s))"
    using join [of AwaitReconnected] do_restore_reported(2) by (auto simp: restore_state_def split: option.split)
qed

lemma connect_answered_fst:
  "fst (connect_answered res a s) \<in> {s\<lparr>fa_connect := None\<rparr>,
     s\<lparr>fa_connect := Some (a\<lparr>ca_stage := AttemptParked\<rparr>)\<rparr>} \<or>
   (\<exists>c. res = Some c \<and> fst (connect_answered res a s) = fst (restore_state (AwaitConnect c) (s\<lparr>fa_connect := Some (a\<lparr>ca_stage := AttemptRestoring\<rparr>)\<rparr>)))"
  by (cases res) (simp_all add: connect_answered_def settle_attempt_fst)

lemma disconnect_over_fst: "\<exists>cl. fst (disconnect_over s) = s\<lparr>fa_closing := cl\<rparr>"
proof (cases "fa_closing s")
  case Nil
  then have "fst (disconnect_over s) = s\<lparr>fa_closing := []\<rparr>" by (simp add: disconnect_over_def)
  then show ?thesis by blast
qed (auto simp: disconnect_over_def)

lemma handle_link_restores:
  assumes "restores_ok s"
  shows "restores_ok (fst (handle_link out s))" and "reported s \<Longrightarrow> reported (fst (handle_link out s))"
proof -
  have answered: "restores_ok (fst (connect_answered res a s))" "reported s \<Longrightarrow> reported (fst (connect_answered res a s))" for res a
    using connect_answered_fst [of res a s] assms restore_state_ok restore_state_reported(1)
    by auto
  obtain cl where closing: "fst (disconnect_over s) = s\<lparr>fa_closing := cl\<rparr>" using disconnect_over_fst by blast
  show "restores_ok (fst (handle_link out s))"
  proof (cases out)
    case EmitDisconnected
    with assms show ?thesis by (simp add: handle_disconnection_def restores_ok_def)
  qed (use assms answered closing in \<open>simp_all add: handle_reconnection_def restore_state_ok emits_fst split: option.split\<close>)
  show "reported s \<Longrightarrow> reported (fst (handle_link out s))"
  proof (cases out)
    case EmitDisconnected
    then show "reported s \<Longrightarrow> ?thesis" by (simp add: handle_disconnection_def)
  qed (use assms answered closing in \<open>simp_all add: handle_reconnection_def restore_state_reported emits_fst split: option.split\<close>)
qed

lemma restore_state_parked: "parked (fst (restore_state w s)) \<Longrightarrow> parked s"
proof -
  assume p: "parked (fst (restore_state w s))"
  have "parked (fst (do_restore_state w s)) \<Longrightarrow> parked s"
    using goes_on_fst [of "Inl (error_object ''No active connection to RabbitMQ'')" w s]
    by (auto simp: do_restore_fst parked_def split: option.splits)
  with p show "parked s" by (auto simp: restore_state_def parked_def split: option.splits)
qed

lemma handle_link_hopeful:
  assumes "restores_ok s" "hopeful s \<or> waking (fa_link s) [out]"
    and "\<And>n. out = ConnectResult n None \<Longrightarrow> not_given_up (fa_link s) \<or> cn_state (fa_link s) = Failed"
  shows "hopeful (fst (handle_link out s))"
proof (cases "not_given_up (fa_link s)")
  case True
  with routine_handle_link [of s out] show ?thesis by (simp add: hopeful_def routine_def)
next
  case lost: False
  show ?thesis
  proof (cases "reported s")
    case True
    with handle_link_restores(2) [OF assms(1)] show ?thesis by (simp add: hopeful_def)
  next
    case False
    with lost assms(2) have asleep: "\<not> parked s \<or> waking (fa_link s) [out]" by (auto simp: hopeful_def)
    show ?thesis
    proof (cases out)
      case EmitReconnected
      have "cn_conn (fa_link s) \<noteq> None \<Longrightarrow> reported (fst (handle_link out s))"
        using restore_state_reported(2) [OF assms(1)] EmitReconnected by (simp add: handle_reconnection_def)
      moreover have "parked (fst (handle_link out s)) \<Longrightarrow> parked s"
        using restore_state_parked EmitReconnected by (simp add: handle_reconnection_def)
      ultimately show ?thesis using asleep EmitReconnected by (auto simp: hopeful_def waking_def)
    next
      case EmitReconnectFailed
      then show ?thesis by (simp add: hopeful_def emits_fst)
    next
      case (ConnectResult n res)
      have "\<not> parked s" using asleep ConnectResult by (simp add: waking_def)
      moreover have "\<not> parked (fst (connect_answered res a s))" for a
      proof (cases res)
        case None
        with ConnectResult assms(3) lost have "cn_state (fa_link s) = Failed" by blast
        with None show ?thesis by (simp add: connect_answered_def settle_attempt_fst)
      next
        case (Some c)
        then show ?thesis
          using restore_state_parked [of "AwaitConnect c" "s\<lparr>fa_connect := Some (a\<lparr>ca_stage := AttemptRestoring\<rparr>)\<rparr>"]
          by (auto simp: connect_answered_def settle_attempt_fst)
      qed
      ultimately show ?thesis using ConnectResult by (simp add: hopeful_def split: option.split)
    next
      case DisconnectDone
      with asleep disconnect_over_fst [of s] show ?thesis by (auto simp: hopeful_def waking_def)
    qed (use asleep in \<open>simp_all add: hopeful_def waking_def handle_disconnection_def\<close>)
  qed
qed

lemma handle_links_hopeful:
  "restores_ok s \<Longrightarrow> hopeful s \<or> waking (fa_link s) outs \<Longrightarrow>
     (\<And>n. ConnectResult n None \<in> set outs \<Longrightarrow> not_given_up (fa_link s) \<or> cn_state (fa_link s) = Failed) \<Longrightarrow>
     hopeful (fst (handle_links outs s))"
proof (induction outs arbitrary: s)
  case (Cons out outs)
  let ?q = "fst (handle_link out s)"
  have link: "fa_link ?q = fa_link s" using routine_handle_link [of s out] by (simp add: routine_def)
  have none: "\<And>n. out = ConnectResult n None \<Longrightarrow> not_given_up (fa_link s) \<or> cn_state (fa_link s) = Failed"
    using Cons.prems(3) by auto
  have "hopeful ?q \<or> waking (fa_link ?q) outs"
  proof (cases "hopeful s \<or> waking (fa_link s) [out]")
    case True
    have "hopeful ?q" by (rule handle_link_hopeful [OF Cons.prems(1) True]) (rule none)
    then show ?thesis ..
  next
    case False
    with Cons.prems(2) show ?thesis unfolding link by (auto simp: waking_def)
  qed
  then show ?case
    unfolding handle_links.simps chain_simps
  proof (intro Cons.IH handle_link_restores [OF Cons.prems(1)])
    show "not_given_up (fa_link ?q) \<or> cn_state (fa_link ?q) = Failed" if "ConnectResult n None \<in> set outs" for n
      using Cons.prems(3) [of n] that unfolding link by simp
  qed
qed (simp add: waking_def)

lemma handle_links_restores_ok: "restores_ok s \<Longrightarrow> restores_ok (fst (handle_links outs s))"
  by (induction outs arbitrary: s) (simp_all add: handle_link_restores)

lemma link_event_ok: "restores_ok s \<Longrightarrow> restores_ok (fst (link_event e s))"
  by (simp add: link_event_def handle_links_restores_ok split: prod.split)

text \<open>One event of the connection, from a state where it is well.\<close>

lemma link_event_hopeful:
  assumes "restores_ok s" "cn_inv (fa_link s)" "late_ok (fa_link s)"
    and "hopeful s" "(\<forall>n. e \<noteq> Connect n) \<or> \<not> parked s"
  shows "hopeful (fst (link_event e s))"
proof -
  obtain link outs where step: "cn_step (fa_link s) e = (link, outs)" by fastforce
  have "hopeful (s\<lparr>fa_link := link\<rparr>) \<or> waking link outs"
  proof (cases "parked s \<and> \<not> reported s")
    case True
    with assms(4) have "not_given_up (fa_link s)" by (simp add: hopeful_def)
    from reconnection_goes_on [OF assms(2,3) this, of e] True assms(5) step show ?thesis by (auto simp: hopeful_def)
  qed (auto simp: hopeful_def)
  moreover have "not_given_up link \<or> cn_state link = Failed" if "ConnectResult n None \<in> set outs" for n
    using none_result_reason [OF assms(2,3), of n e] that step by simp
  ultimately show ?thesis
    using handle_links_hopeful [of "s\<lparr>fa_link := link\<rparr>" outs] assms(1) by (simp add: link_event_def step)
qed

lemma restore_settled_ok: "restores_ok s \<Longrightarrow> restores_ok (fst (restore_settled rid r s))"
proof -
  assume ok: "restores_ok s"
  let ?q = "s\<lparr>fa_restores := map_del rid (fa_restores s), fa_restore := (if fa_restore s = Some rid then None else fa_restore s)\<rparr>"
  have "restores_ok ?q" using ok by (auto simp: restores_ok_def)
  then have "restores_ok (fst (restore_all_go_on r ws ?q))" for ws
    using all_go_on_fst [of r ws ?q] by (metis empty_iff insert_iff restores_ok_update(1))
  with ok show ?thesis unfolding restore_settled_def by (cases "map_get (fa_restores s) rid") simp_all
qed

lemma restore_settled_hopeful: "hopeful s \<Longrightarrow> hopeful (fst (restore_settled rid r s))"
proof (cases "map_get (fa_restores s) rid")
  case (Some rt)
  assume h: "hopeful s"
  let ?q = "s\<lparr>fa_restores := map_del rid (fa_restores s), fa_restore := (if fa_restore s = Some rid then None else fa_restore s)\<rparr>"
  let ?t = "fst (restore_all_go_on r (rt_waiters rt) ?q)"
  have settled: "fst (restore_settled rid r s) = ?t" by (simp only: restore_settled_def Some option.case)
  show ?thesis
  proof (cases "AwaitReconnected \<in> set (rt_waiters rt)")
    case True
    then show ?thesis unfolding settled hopeful_def using all_go_on_unparks by blast
  next
    case False
    have "hopeful ?q"
      using h Some False unfolding hopeful_def reported_def by (auto simp: map_get_del) (metis option.inject)
    moreover have "?t \<in> {?q, ?q\<lparr>fa_connect := None\<rparr>}" by (rule all_go_on_fst)
    ultimately show ?thesis
      unfolding settled by (metis empty_iff insert_iff hopeful_def parked_update(1))
  qed
qed (simp add: restore_settled_def)

lemma to_stage_keeps:
  assumes "map_get (fa_restores s) rid = Some rt"
  shows "restores_ok s \<Longrightarrow> restores_ok (to_stage rid rt stage s)"
    and "hopeful (to_stage rid rt stage s) = hopeful s"
proof -
  show "restores_ok s \<Longrightarrow> restores_ok (to_stage rid rt stage s)"
    using map_get_key [OF assms] by (auto simp: restores_ok_def to_stage_def)
  have "reported (to_stage rid rt stage s) = reported s"
    unfolding reported_def to_stage_def using assms
    by (auto simp: map_get_set) (metis restore.select_convs(2) restore.surjective restore.update_convs(1) option.inject)
  then show "hopeful (to_stage rid rt stage s) = hopeful s" by (simp add: hopeful_def) (simp add: to_stage_def)
qed

lemma hopeful_update [simp]:
  "hopeful (s\<lparr>fa_pool := p\<rparr>) = hopeful s" "hopeful (s\<lparr>fa_teardowns := t\<rparr>) = hopeful s"
  "hopeful (s\<lparr>fa_closing := cl\<rparr>) = hopeful s"
  by (simp_all add: hopeful_def)

lemma restore_answer_keeps:
  assumes "restores_ok s" "hopeful s"
  shows "restores_ok (fst (restore_answer rid err s)) \<and> hopeful (fst (restore_answer rid err s))"
proof (cases "map_get (fa_restores s) rid")
  case (Some rt)
  let ?good = "\<lambda>r. restores_ok (fst r) \<and> hopeful (fst r)"
  have pool: "map_get (fa_restores (s\<lparr>fa_pool := p\<rparr>)) rid = Some rt" for p using Some by simp
  have staged: "?good (to_stage rid rt stage s, out)" "?good (to_stage rid rt stage (s\<lparr>fa_pool := p\<rparr>), out)" for stage p out
    using to_stage_keeps [OF Some] to_stage_keeps [OF pool] assms by simp_all
  have settled: "?good (restore_settled rid r s)" for r
    using assms by (simp add: restore_settled_ok restore_settled_hopeful)
  have "?good (restore_step_failed rid rt e s)" for e
    using staged settled by (simp add: restore_step_failed_def)
  then show ?thesis
    using Some staged settled
    by (cases "rt_stage rt"; cases err)
      (simp_all add: restore_answer_def pool_initialized_def exchange_ensured_def consumers_recreated_def)
qed (use assms in \<open>simp add: restore_answer_def\<close>)

text \<open>The invariant of the facade, on which the lemmas above rest.\<close>

definition fa_inv :: "facade \<Rightarrow> bool" where
  "fa_inv s \<longleftrightarrow> cn_inv (fa_link s) \<and> late_ok (fa_link s) \<and> restores_ok s \<and> hopeful s"

lemma link_event_inv:
  assumes "cn_inv (fa_link s)" "late_ok (fa_link s)" "restores_ok s" "hopeful s" "(\<forall>n. e \<noteq> Connect n) \<or> \<not> parked s"
  shows "fa_inv (fst (link_event e s))"
  using link_event_hopeful [OF assms(3,1,2,4,5)] link_event_ok [OF assms(3)] cn_step_inv [OF assms(1)] cn_step_late [OF assms(1,2)]
  by (simp add: fa_inv_def link_event_simps)

lemma link_event_keeps: "fa_inv s \<Longrightarrow> \<forall>n. e \<noteq> Connect n \<Longrightarrow> fa_inv (fst (link_event e s))"
  by (rule link_event_inv) (simp_all add: fa_inv_def)

lemma disconnect_link_inv: "fa_inv s \<Longrightarrow> fa_inv (fst (disconnect_link call clean s))"
  unfolding disconnect_link_def Let_def by (intro link_event_inv) (simp_all add: fa_inv_def)

lemma fa_inv_update [simp]:
  "fa_inv (s\<lparr>fa_pool := p\<rparr>) = fa_inv s" "fa_inv (s\<lparr>fa_teardowns := t\<rparr>) = fa_inv s"
  by (simp_all add: fa_inv_def)

lemma fa_inv_unparked: "fa_inv s \<Longrightarrow> fa_inv (s\<lparr>fa_connect := None\<rparr>)"
  by (simp add: fa_inv_def hopeful_def)

lemma facade_connect_inv: "fa_inv s \<Longrightarrow> fa_inv (fst (facade_connect call wait timeout s))"
proof (cases "fa_connect s")
  case None
  assume inv: "fa_inv s"
  let ?q = "s\<lparr>fa_connect := Some \<lparr>ca_calls = [call], ca_wait = wait, ca_timeout = timeout, ca_stage = AttemptDialing\<rparr>\<rparr>"
  have "\<not> parked ?q" by (simp add: parked_def)
  then have "fa_inv (fst (link_event (Connect call) ?q))"
    using inv by (intro link_event_inv) (simp_all add: fa_inv_def hopeful_def)
  with None show ?thesis by (simp add: facade_connect_def)
next
  case (Some a)
  assume "fa_inv s"
  with Some show ?thesis by (simp add: facade_connect_def fa_inv_def hopeful_def parked_def)
qed

lemma fa_step_inv: "fa_inv s \<Longrightarrow> fa_inv (fst (fa_step s e))"
proof (cases e)
  case (FacadeDisconnect call)
  assume inv: "fa_inv s"
  have "restores_ok q \<Longrightarrow> restores_ok (q\<lparr>fa_teardowns := t, fa_next := Suc (fa_next q)\<rparr>)" for q t
    by (auto simp: restores_ok_def)
  moreover have "hopeful (q\<lparr>fa_next := n\<rparr>) = hopeful q" for q n by (simp add: hopeful_def)
  ultimately have "fa_inv q \<Longrightarrow> fa_inv (q\<lparr>fa_teardowns := t, fa_next := Suc (fa_next q)\<rparr>)" for q t
    by (simp add: fa_inv_def)
  moreover have "fa_inv (fst (emit_disconnecting s))" using inv by (simp add: emits_fst fa_inv_unparked)
  ultimately show ?thesis by (simp add: FacadeDisconnect facade_disconnect_def)
next
  case ConnectTimeout
  assume "fa_inv s"
  with ConnectTimeout show ?thesis by (simp add: connect_timeout_def wake_parked_fst fa_inv_unparked split: option.split)
next
  case (TeardownAnswer tid err)
  assume "fa_inv s"
  then have "fa_inv (fst (consumers_disposed tid td err s))" "fa_inv (fst (teardown_pool_closed tid td s))" for td
    by (auto simp: consumers_disposed_def teardown_pool_closed_def Let_def intro!: disconnect_link_inv split: option.split)
  with \<open>fa_inv s\<close> TeardownAnswer show ?thesis by (simp add: teardown_answer_def split: option.split teardown_stage.split)
next
  case (RestoreAnswer rid err)
  assume "fa_inv s"
  with RestoreAnswer restore_answer_keeps [of s rid err] routine_restore_answer [of s rid err] show ?thesis
    by (simp add: fa_inv_def routine_def)
qed (simp_all add: facade_connect_inv link_event_keeps)

interpretation fam: event_machine fa_step "\<lambda>e. True" fa_inv
  by unfold_locales (rule fa_step_inv)

lemma fa_new_inv: "cn_new opts = Inr link \<Longrightarrow> fa_inv (fa_new link)"
  using cn_new_inv [of opts link]
  by (auto simp: fa_inv_def fa_new_def late_ok_def restores_ok_def hopeful_def parked_def cn_new_def Let_def split: sum.splits if_splits)

text \<open>
  C7: \<open>connect({ waitForConnection })\<close> does not hang. In every run, while an attempt is parked and no
  shutdown was asked for, either the reconnection timer is armed, or a dial of the timer is in
  flight, or a restoration is under way whose end is reported; in that last case the end of
  the restoration, in success or failure, settles the attempt, and so do a shutdown and the
  last failed reconnection.
\<close>

theorem parked_connect_has_a_future:
  fixes es :: "fa_event list" and link :: connection
  assumes "cn_new opts = Inr link"
  defines "s \<equiv> fst (run_machine fa_step (fa_new link) es)"
  shows "(parked s \<longrightarrow> cn_shutting (fa_link s) \<or> reconnecting_on (fa_link s) \<or> reported s) \<and>
    (map_get (fa_restores s) rid = Some rt \<and> AwaitReconnected \<in> set (rt_waiters rt) \<longrightarrow> \<not> parked (fst (restore_settled rid r s))) \<and>
    \<not> parked (fst (fa_step s (FacadeDisconnect call))) \<and> \<not> parked (fst (handle_link EmitReconnectFailed s))"
proof -
  have "fa_inv s" unfolding s_def by (rule fam.run_inv) (simp_all add: fa_new_inv [OF assms(1)] list_all_iff)
  then have "parked s \<longrightarrow> cn_shutting (fa_link s) \<or> reconnecting_on (fa_link s) \<or> reported s"
    by (simp add: fa_inv_def hopeful_def)
  moreover have "\<not> parked (fst (restore_settled rid r s))"
    if "map_get (fa_restores s) rid = Some rt" "AwaitReconnected \<in> set (rt_waiters rt)"
    using that all_go_on_unparks by (simp only: restore_settled_def option.case) blast
  moreover have "\<not> parked (fst (fa_step s (FacadeDisconnect call)))"
    by (simp add: facade_disconnect_def emits_fst)
  moreover have "\<not> parked (fst (handle_link EmitReconnectFailed s))" by (simp add: emits_fst)
  ultimately show ?thesis by blast
qed

theorem parked_connect_has_a_future_witness:
  "let s = fst (run_machine fa_step facade_sample [FacadeConnect 0 True None, LinkDialFailed, LinkDialFailed, LinkTimer, LinkDialOk])
   in parked s \<and> reported s \<and> \<not> parked (fst (fa_step s (FacadeDisconnect 1)))"
proof -
  define es where "es = [FacadeConnect 0 True None, LinkDialFailed, LinkDialFailed, LinkTimer, LinkDialOk]"
  define s where "s = fst (run_machine fa_step facade_sample es)"
  have "parked s" "\<not> cn_shutting (fa_link s)" "cn_dial (fa_link s) = None" "cn_timer (fa_link s) = None"
    unfolding s_def es_def by code_simp+
  then show ?thesis
    using parked_connect_has_a_future [OF cn_sample, of es]
    unfolding Let_def es_def [symmetric] s_def [symmetric] facade_sample_def [symmetric] reconnecting_on_def by blast
qed

text \<open>
  A \<open>disconnect\<close> during the first dial finds no parked attempt to abort; when the dial then fails,
  the attempt parks with no timer, no dial and no restoration, and every later \<open>connect\<close> joins it.
\<close>

theorem connect_parks_after_disconnect:
  "let s = fst (run_machine fa_step facade_sample
       [FacadeConnect 0 True None, FacadeDisconnect 1, LinkDialFailed, TeardownAnswer 0 None, LinkDialFailed])
   in parked s \<and> cn_timer (fa_link s) = None \<and> cn_dial (fa_link s) = None \<and> fa_restores s = [] \<and> fa_teardowns s = [] \<and>
      snd (fa_step s (FacadeConnect 2 False None)) = []"
  by code_simp

text \<open>
  A \<open>connect\<close> that comes while the pool of a reconnection is installed but the state not yet
  restored resolves at once; the restoration may still fail and take the pool away.
\<close>

theorem connect_resolves_before_restored:
  "let r = run_machine fa_step facade_sample
       [FacadeConnect 0 False None, LinkDialOk, RestoreAnswer 0 None, RestoreAnswer 0 None, RestoreAnswer 0 None,
        LinkLost 0, LinkTimer, LinkDialOk, RestoreAnswer 1 None, FacadeConnect 1 False None,
        RestoreAnswer 1 (Some (error_object ''x''))]
   in ConnectSettled 1 (Inr (Some 1)) \<in> set (snd r) \<and> fa_pool (fst r) = None \<and> RecreateConsumers 1 \<notin> set (snd r)"
  by code_simp

text \<open>
  A pool that is ready while \<open>disconnect\<close> closes the connection is installed after the check for
  a pool: it survives the shutdown, and the next \<open>connect\<close> takes it for a sign that the state
  is restored and resolves with a pool of the closed connection.
\<close>

theorem pool_survives_disconnect:
  "let r = run_machine fa_step facade_sample
       [FacadeConnect 0 False None, LinkDialOk, FacadeDisconnect 1, TeardownAnswer 1 None, RestoreAnswer 0 None, LinkCloseDone 0,
        RestoreAnswer 0 None, RestoreAnswer 0 None, FacadeConnect 2 False None, LinkDialOk]
   in DisconnectSettled 1 \<in> set (snd r) \<and> ConnectSettled 2 (Inr (Some 1)) \<in> set (snd r) \<and> fa_pool (fst r) = Some (0, 0)"
  by code_simp

end
