(* ===== verification/Facade_Fence.thy ===== *)
theory Facade_Fence
  imports Facade_Waiting
begin

text \<open>
  The fences around \<open>#restoreState\<close> and \<open>#setupChannelPool\<close> of \<open>src/index.js\<close>: which restoration
  may install a pool when connections come and go.
\<close>

section \<open>Restorations are fenced by the connection\<close>

text \<open>A connection that nobody has asked to shut down.\<close>

definition link_calm :: "connection \<Rightarrow> bool" where
  "link_calm p \<longleftrightarrow> cn_inv p \<and> late_ok p \<and> \<not> cn_shutting p \<and> cn_closing p = [] \<and> (cn_conn p \<noteq> None \<longrightarrow> cn_state p = Connected) \<and>
     (\<forall>c. cn_conn p = Some c \<longrightarrow> c < cn_next p) \<and> (\<forall>c \<in> set (cn_live p). cn_conn p = Some c)"

definition link_moves :: "connection \<Rightarrow> connection \<Rightarrow> cn_out list \<Rightarrow> bool" where
  "link_moves p q outs \<longleftrightarrow> cn_next p \<le> cn_next q \<and>
     (cn_conn q = cn_conn p \<or> cn_conn p = None \<and> cn_conn q = Some (cn_next p) \<or> cn_conn q = None \<and> EmitDisconnected \<in> set outs)"

text \<open>The parts of the connection that matter here.\<close>

definition link_plain :: "connection \<Rightarrow> bool" where
  "link_plain p \<longleftrightarrow> \<not> cn_shutting p \<and> cn_closing p = [] \<and> (cn_conn p \<noteq> None \<longrightarrow> cn_state p = Connected) \<and>
     (\<forall>c. cn_conn p = Some c \<longrightarrow> c < cn_next p) \<and> (\<forall>c \<in> set (cn_live p). cn_conn p = Some c)"

lemma link_calm_plain: "link_calm p \<longleftrightarrow> cn_inv p \<and> late_ok p \<and> link_plain p"
  by (auto simp: link_calm_def link_plain_def)

definition down :: "nat \<Rightarrow> connection \<Rightarrow> bool" where
  "down n p \<longleftrightarrow> \<not> cn_shutting p \<and> cn_closing p = [] \<and> cn_conn p = None \<and> cn_live p = [] \<and> cn_next p = n"

lemma down_plain: "down n p \<Longrightarrow> link_plain p" "link_plain p \<Longrightarrow> cn_conn p = None \<Longrightarrow> down (cn_next p) p"
  by (auto simp: down_def link_plain_def neq_Nil_conv)

lemma down_update [simp]:
  "down n (p\<lparr>cn_current := i\<rparr>) = down n p" "down n (p\<lparr>cn_dial := d\<rparr>) = down n p" "down n (p\<lparr>cn_waiters := w\<rparr>) = down n p"
  "down n (p\<lparr>cn_timer := t\<rparr>) = down n p" "down n (p\<lparr>cn_state := st\<rparr>) = down n p" "down n (p\<lparr>cn_reconnecting := b\<rparr>) = down n p"
  by (simp_all add: down_def)

lemma start_reconnection_down: "down n p \<Longrightarrow> down n (fst (start_reconnection p))"
  by (simp add: fst_start_reconnection)

lemma dial_failed_down: "down n p \<Longrightarrow> down n (fst (dial_failed k p))"
proof -
  let ?q = "p\<lparr>cn_current := (cn_current p + 1) mod length (cn_endpoints p)\<rparr>"
  assume d: "down n p"
  then have "down n (?q\<lparr>cn_conn := None\<rparr>)" "\<not> cn_shutting (?q\<lparr>cn_conn := None\<rparr>)" by (simp_all add: down_def)
  from this(2) start_reconnection_down [OF this(1)] have "down n (fst (dial_exhausted ?q))"
    unfolding dial_exhausted_def Let_def by (simp del: connection.update_convs)
  with d show ?thesis by (simp add: dial_failed_def dial_endpoint_def)
qed

lemma connect_plain:
  assumes "link_plain p" "endpoints_ok p"
  shows "link_plain (fst (connect c p)) \<and> cn_conn (fst (connect c p)) = cn_conn p \<and> cn_next (fst (connect c p)) = cn_next p"
  using assms by (auto simp: connect_cases link_plain_def)

lemma cn_step_calm:
  assumes "link_calm p" "e \<noteq> Disconnect"
  shows "link_calm (fst (cn_step p e)) \<and> link_moves p (fst (cn_step p e)) (snd (cn_step p e))"
proof -
  have plain: "link_plain p" "cn_inv p" "late_ok p" and ends: "endpoints_ok p" using assms(1) by (auto simp: link_calm_plain cn_inv_defs)
  have dialling: "cn_conn p = None" if "cn_dial p = Some d" for d
    using that plain by (auto simp: link_plain_def cn_inv_defs)
  have "link_plain (fst (cn_step p e)) \<and> link_moves p (fst (cn_step p e)) (snd (cn_step p e))"
  proof (cases e)
    case (Connect n)
    with connect_plain [OF plain(1) ends, of "User n"] show ?thesis by (simp add: link_moves_def)
  next
    case DialOk
    with plain dialling show ?thesis
      by (auto simp: dial_ok_def Let_def link_plain_def link_moves_def split: option.split dial.split)
  next
    case DialFailed
    have "link_plain (fst (dial_failed k p)) \<and> link_moves p (fst (dial_failed k p)) outs" if "cn_dial p = Some d" for d k outs
      using dial_failed_down [OF down_plain(2) [OF plain(1) dialling [OF that]], of k] dialling [OF that] down_plain(1)
      by (auto simp: down_def link_moves_def)
    with DialFailed plain show ?thesis by (auto simp: link_moves_def split: option.split dial.split)
  next
    case LateClosed
    with plain show ?thesis by (auto simp: late_ok_def link_plain_def link_moves_def)
  next
    case TimerFires
    have "link_plain (p\<lparr>cn_timer := None, cn_attempt := k\<rparr>)" "endpoints_ok (p\<lparr>cn_timer := None, cn_attempt := k\<rparr>)"
      "link_plain (p\<lparr>cn_timer := None\<rparr>)" for k
      using plain(1) ends by (simp_all add: link_plain_def endpoints_ok_def)
    with connect_plain TimerFires plain(1) show ?thesis by (simp add: attempt_reconnect_def link_moves_def)
  next
    case (ConnectionLost c)
    show ?thesis
    proof (cases "c \<in> set (cn_live p)")
      case True
      with plain have "cn_conn p = Some c" "cn_state p = Connected" "\<not> cn_shutting p" "\<not> cn_reconnecting p"
        by (auto simp: link_plain_def cn_inv_defs)
      note lost = this
      let ?q = "p\<lparr>cn_live := removeAll c (cn_live p), cn_conn := None\<rparr>"
      have "removeAll c (cn_live p) = []" using plain(1) lost(1) by (induction "cn_live p") (auto simp: link_plain_def removeAll_filter_not_eq filter_empty_conv)
      with plain(1) have "down (cn_next p) ?q" by (simp add: down_def link_plain_def)
      from start_reconnection_down [OF this] have "down (cn_next p) (fst (connection_lost c p))"
        using lost by (simp add: connection_lost_def Let_def)
      moreover have "EmitDisconnected \<in> set (snd (connection_lost c p))"
        using lost by (simp add: connection_lost_def Let_def start_reconnection_def)
      ultimately show ?thesis
        using ConnectionLost True by (simp add: down_plain(1) link_moves_def down_def)
    qed (use ConnectionLost plain in \<open>simp add: link_moves_def\<close>)
  next
    case (CloseDone c)
    with plain show ?thesis by (simp add: link_plain_def link_moves_def)
  qed (use assms in simp)
  then show ?thesis
    using cn_step_inv [OF plain(2)] cn_step_late [OF plain(2,3)] by (simp add: link_calm_plain)
qed

text \<open>
  A restoration that holds the slot is building on the current connection or past that; one
  that has lost it builds on a connection that is gone, or owns no pool any more.
\<close>

definition pool_owner :: "facade \<Rightarrow> nat option" where
  "pool_owner s = map_option fst (fa_pool s)"

fun stage_fenced :: "facade \<Rightarrow> nat \<Rightarrow> restore_stage \<Rightarrow> bool" where
  "stage_fenced s rid (RestoreBuilding c) \<longleftrightarrow> pool_owner s \<noteq> Some rid \<and> (fa_restore s = Some rid \<longleftrightarrow> cn_conn (fa_link s) = Some c)"
| "stage_fenced s rid (RestoreClosing e) \<longleftrightarrow> True"
| "stage_fenced s rid stage \<longleftrightarrow> (pool_owner s = Some rid \<longrightarrow> fa_restore s = Some rid)"

fun old_stage :: "nat \<Rightarrow> restore_stage \<Rightarrow> bool" where
  "old_stage n (RestoreBuilding c) \<longleftrightarrow> c < n"
| "old_stage n stage \<longleftrightarrow> True"

text \<open>What holds at any moment, and what holds except while the connection's loss is being handled.\<close>

definition grounded :: "facade \<Rightarrow> bool" where
  "grounded s \<longleftrightarrow> link_calm (fa_link s) \<and> restores_ok s \<and> fa_teardowns s = [] \<and>
     (\<forall>rid rt. map_get (fa_restores s) rid = Some rt \<longrightarrow> old_stage (cn_next (fa_link s)) (rt_stage rt))"

definition fenced :: "facade \<Rightarrow> bool" where
  "fenced s \<longleftrightarrow> grounded s \<and> (\<forall>p c. fa_pool s = Some (p, c) \<longrightarrow> cn_conn (fa_link s) = Some c \<and> p < fa_next s) \<and>
     (\<forall>rid rt. map_get (fa_restores s) rid = Some rt \<longrightarrow> stage_fenced s rid (rt_stage rt))"

lemma stage_fenced_update [simp]:
  "stage_fenced (s\<lparr>fa_connect := a\<rparr>) rid stage = stage_fenced s rid stage"
  "stage_fenced (s\<lparr>fa_closing := cl\<rparr>) rid stage = stage_fenced s rid stage"
  "stage_fenced (s\<lparr>fa_restores := m\<rparr>) rid stage = stage_fenced s rid stage"
  by (cases stage; simp add: pool_owner_def)+

lemma fenced_update [simp]:
  "fenced (s\<lparr>fa_connect := a\<rparr>) = fenced s" "fenced (s\<lparr>fa_closing := cl\<rparr>) = fenced s"
  "grounded (s\<lparr>fa_connect := a\<rparr>) = grounded s" "grounded (s\<lparr>fa_closing := cl\<rparr>) = grounded s"
  by (simp_all add: fenced_def grounded_def)

lemma fenced_goes_on:
  "fenced s \<Longrightarrow> fenced (fst (restore_goes_on r w s))" "grounded s \<Longrightarrow> grounded (fst (restore_goes_on r w s))"
  "fenced s \<Longrightarrow> fenced (fst (restore_all_go_on r ws s))"
  using goes_on_fst [of r w s] all_go_on_fst [of r ws s] by auto

lemma restore_state_fenced: "fenced s \<Longrightarrow> fenced (fst (restore_state w s))"
proof -
  assume f: "fenced s"
  then have ok: "restores_ok s" by (simp add: fenced_def grounded_def)
  then have fresh: "fa_next s \<notin> key_set (fa_restores s)" by (auto simp: restores_ok_def)
  have start: "fenced (fst (do_restore_state w s))" if free: "fa_restore s = None"
  proof (cases "cn_conn (fa_link s)")
    case (Some c)
    let ?q = "fst (do_restore_state w s)"
    have q: "?q = s\<lparr>fa_restores := map_set (fa_next s) \<lparr>rt_stage = RestoreBuilding c, rt_waiters = [w]\<rparr> (fa_restores s),
        fa_restore := Some (fa_next s), fa_next := Suc (fa_next s)\<rparr>" by (simp add: do_restore_fst Some)
    have "restores_ok ?q" using restore_state_ok [OF ok, of w] free by (simp add: restore_state_def)
    moreover have "c < cn_next (fa_link s)" using f Some by (simp add: fenced_def grounded_def link_calm_def)
    ultimately have "grounded ?q"
      using f unfolding q by (auto simp: fenced_def grounded_def map_get_set)
    moreover have "stage_fenced ?q rid (rt_stage rt)" if "map_get (fa_restores s) rid = Some rt" for rid rt
    proof -
      have "rid \<noteq> fa_next s" using that fresh by (auto dest: map_get_key)
      moreover have "stage_fenced s rid (rt_stage rt)" using f that by (simp add: fenced_def)
      ultimately show ?thesis using free unfolding q by (cases "rt_stage rt") (auto simp: pool_owner_def)
    qed
    moreover have "pool_owner s \<noteq> Some (fa_next s)" using f by (auto simp: fenced_def pool_owner_def)
    moreover have "\<forall>p c. fa_pool s = Some (p, c) \<longrightarrow> cn_conn (fa_link s) = Some c \<and> p < fa_next s" using f by (simp add: fenced_def)
    ultimately show ?thesis
      unfolding fenced_def using Some by (auto simp: q map_get_set pool_owner_def less_Suc_eq split: if_splits)
  qed (use f in \<open>simp add: do_restore_fst fenced_goes_on\<close>)
  have join: "fenced (s\<lparr>fa_restores := map_set rid (rt\<lparr>rt_waiters := ws\<rparr>) (fa_restores s)\<rparr>)"
    if "map_get (fa_restores s) rid = Some rt" for rid rt ws
    using f that map_get_key [OF that] by (auto simp: fenced_def grounded_def restores_ok_def map_get_set)
  show ?thesis
  proof (cases "fa_restore s")
    case (Some rid)
    then have "rid \<in> key_set (fa_restores s)" using ok by (simp add: restores_ok_def)
    then obtain rt where "map_get (fa_restores s) rid = Some rt" using map_get_None by fastforce
    with Some join show ?thesis by (simp add: restore_state_def)
  qed (use start in \<open>simp add: restore_state_def\<close>)
qed

lemma restore_state_grounded: "grounded s \<Longrightarrow> grounded (fst (restore_state w s))"
proof -
  assume g: "grounded s"
  then have ok: "restores_ok (fst (restore_state w s))" by (simp add: grounded_def restore_state_ok)
  have "\<forall>c. cn_conn (fa_link s) = Some c \<longrightarrow> c < cn_next (fa_link s)" using g by (simp add: grounded_def link_calm_def)
  then have "grounded (fst (do_restore_state w s))" if "restores_ok (fst (do_restore_state w s))"
    using g that fenced_goes_on(2) [OF g] by (auto simp: do_restore_fst grounded_def map_get_set split: option.splits)
  with g ok show ?thesis by (auto simp: restore_state_def grounded_def map_get_set split: option.splits)
qed

lemma connect_answered_fenced:
  "fenced s \<Longrightarrow> fenced (fst (connect_answered res a s))" "grounded s \<Longrightarrow> grounded (fst (connect_answered res a s))"
  using connect_answered_fst [of res a s] by (auto simp: restore_state_fenced restore_state_grounded)

lemma handle_disconnection_fences:
  assumes "grounded s" "cn_conn (fa_link s) = None" shows "fenced (fst (handle_disconnection s))"
proof -
  have "stage_fenced (s\<lparr>fa_restore := None, fa_pool := None\<rparr>) rid stage" for rid stage
    using assms(2) by (cases stage) (simp_all add: pool_owner_def)
  moreover have "grounded (s\<lparr>fa_restore := None, fa_pool := None\<rparr>)"
    using assms(1) by (auto simp: grounded_def restores_ok_def)
  ultimately show ?thesis by (simp add: handle_disconnection_def fenced_def)
qed

lemma handle_disconnection_fenced:
  "fenced s \<Longrightarrow> cn_conn (fa_link s) = None \<Longrightarrow> fenced (fst (handle_disconnection s))"
  by (rule handle_disconnection_fences) (simp_all add: fenced_def)

text \<open>The other events keep what holds; \<open>'disconnected'\<close> comes only when there is no connection.\<close>

lemma handle_link_fenced:
  assumes "out = EmitDisconnected \<longrightarrow> cn_conn (fa_link s) = None"
  shows "fenced s \<Longrightarrow> fenced (fst (handle_link out s))" and "grounded s \<Longrightarrow> grounded (fst (handle_link out s))"
proof -
  obtain cl where closing: "fst (disconnect_over s) = s\<lparr>fa_closing := cl\<rparr>" using disconnect_over_fst by blast
  show "fenced (fst (handle_link out s))" if f: "fenced s"
  proof (cases out)
    case (ConnectResult n res)
    with f connect_answered_fenced(1) show ?thesis by (auto split: option.split)
  qed (use f assms closing in \<open>simp_all add: handle_reconnection_def restore_state_fenced emits_fst handle_disconnection_fenced\<close>)
  show "grounded (fst (handle_link out s))" if g: "grounded s"
  proof (cases out)
    case (ConnectResult n res)
    with g connect_answered_fenced(2) show ?thesis by (auto split: option.split)
  next
    case EmitDisconnected
    with g assms handle_disconnection_fences [OF g] show ?thesis by (simp add: fenced_def)
  qed (use g closing in \<open>simp_all add: handle_reconnection_def restore_state_grounded emits_fst\<close>)
qed

lemma handle_links_fenced:
  assumes "EmitDisconnected \<in> set outs \<longrightarrow> cn_conn (fa_link s) = None"
    and "fenced s \<or> grounded s \<and> EmitDisconnected \<in> set outs"
  shows "fenced (fst (handle_links outs s))"
  using assms
proof (induction outs arbitrary: s)
  case (Cons out outs)
  let ?q = "fst (handle_link out s)"
  have link: "fa_link ?q = fa_link s" using routine_handle_link [of s out] by (simp add: routine_def)
  have out: "out = EmitDisconnected \<longrightarrow> cn_conn (fa_link s) = None" using Cons.prems(1) by auto
  have "fenced ?q \<or> grounded ?q \<and> EmitDisconnected \<in> set outs"
  proof (cases "fenced s")
    case True
    with handle_link_fenced(1) [OF out] show ?thesis by blast
  next
    case False
    with Cons.prems(2) have g: "grounded s" "EmitDisconnected \<in> set (out # outs)" by auto
    show ?thesis
    proof (cases "out = EmitDisconnected")
      case True
      with g(1) out handle_disconnection_fences show ?thesis by simp
    next
      case False
      with g handle_link_fenced(2) [OF out] show ?thesis by auto
    qed
  qed
  with Cons.prems(1) link show ?case unfolding handle_links.simps chain_simps by (intro Cons.IH) auto
qed simp

text \<open>A connection that announces its loss has none.\<close>

lemma disconnected_means_no_connection:
  assumes "link_calm p" "e \<noteq> Disconnect" "EmitDisconnected \<in> set (snd (cn_step p e))"
  shows "cn_conn (fst (cn_step p e)) = None"
proof -
  have quiet: "EmitDisconnected \<notin> set (snd (set_connection_state st q))" "EmitDisconnected \<notin> set (snd (settle_connect r q))" for st q r
  proof -
    have "EmitDisconnected \<notin> set (answer_caller r w)" for w by (cases w) simp_all
    then show "EmitDisconnected \<notin> set (snd (settle_connect r q))" by (simp add: settle_connect_def)
  qed (simp add: set_connection_state_def)
  have conn: "cn_conn (fst (start_reconnection q)) = cn_conn q" for q by (simp add: fst_start_reconnection)
  have ends: "endpoints_ok p" using assms(1) by (simp add: link_calm_def cn_inv_defs)
  have calm: "EmitDisconnected \<notin> set (snd (connect c q))" if "endpoints_ok q" for c q
  proof -
    have "endpoints_ok (q\<lparr>cn_waiters := w, cn_shutting := False, cn_state := Connecting\<rparr>)" for w using that by (simp add: endpoints_ok_def)
    from dial_endpoint_known [OF this] show ?thesis by (simp add: connect_def do_connect_def Let_def quiet)
  qed
  show ?thesis
  proof (cases e)
    case (Connect n)
    with calm [OF ends] assms(3) show ?thesis by simp
  next
    case TimerFires
    have "endpoints_ok (p\<lparr>cn_timer := None, cn_attempt := k\<rparr>)" for k using ends by (simp add: endpoints_ok_def)
    with calm TimerFires assms(3) show ?thesis by (simp add: attempt_reconnect_def split: if_splits)
  next
    case DialOk
    with assms(3) quiet show ?thesis by (auto simp: dial_ok_def Let_def split: option.splits dial.splits if_splits)
  next
    case DialFailed
    have "EmitDisconnected \<in> set (snd (dial_failed k p)) \<Longrightarrow> cn_conn (fst (dial_failed k p)) = None" for k
      by (simp add: dial_failed_def dial_endpoint_def dial_exhausted_def Let_def conn split: if_splits)
    with DialFailed assms(3) show ?thesis by (simp split: option.splits dial.splits)
  next
    case LateClosed
    with assms(3) quiet show ?thesis by (auto simp: late_closed_def split: if_splits)
  next
    case (ConnectionLost c)
    with assms(3) show ?thesis by (auto simp: connection_lost_def Let_def conn split: if_splits)
  next
    case (CloseDone c)
    with assms(3) quiet show ?thesis by (auto simp: close_done_def disconnected_now_def split: if_splits)
  qed (use assms in simp)
qed

lemma link_event_fenced:
  assumes "fenced s" "e \<noteq> Disconnect" shows "fenced (fst (link_event e s))"
proof -
  obtain link outs where step: "cn_step (fa_link s) e = (link, outs)" by fastforce
  let ?q = "s\<lparr>fa_link := link\<rparr>"
  have calm: "link_calm (fa_link s)" using assms(1) by (simp add: fenced_def grounded_def)
  from cn_step_calm [OF calm assms(2)] step
  have link: "link_calm link" and moves: "link_moves (fa_link s) link outs" by simp_all
  have later: "old_stage n stage \<Longrightarrow> n \<le> m \<Longrightarrow> old_stage m stage" for n m stage by (cases stage) simp_all
  have "old_stage (cn_next link) (rt_stage rt)" if "map_get (fa_restores s) rid = Some rt" for rid rt
    by (rule later [of "cn_next (fa_link s)"]) (use assms(1) that moves in \<open>auto simp: fenced_def grounded_def link_moves_def\<close>)
  then have grounded: "grounded ?q"
    using assms(1) link by (simp add: fenced_def grounded_def)
  have pool: "\<forall>p c. fa_pool s = Some (p, c) \<longrightarrow> cn_conn (fa_link s) = Some c \<and> p < fa_next s" using assms(1) by (simp add: fenced_def)
  have fenced: "fenced ?q" if "cn_conn link = cn_conn (fa_link s) \<or> cn_conn (fa_link s) = None \<and> cn_conn link = Some (cn_next (fa_link s))"
  proof -
    have "stage_fenced ?q rid (rt_stage rt)" if rt: "map_get (fa_restores s) rid = Some rt" for rid rt
    proof -
      have "stage_fenced s rid (rt_stage rt)" "old_stage (cn_next (fa_link s)) (rt_stage rt)"
        using assms(1) rt by (auto simp: fenced_def grounded_def)
      with \<open>cn_conn link = cn_conn (fa_link s) \<or> _\<close> show ?thesis by (cases "rt_stage rt") (auto simp: pool_owner_def)
    qed
    moreover have "\<forall>p c. fa_pool s = Some (p, c) \<longrightarrow> cn_conn link = Some c \<and> p < fa_next s" using pool that by auto
    ultimately show ?thesis using grounded by (simp add: fenced_def)
  qed
  have only: "EmitDisconnected \<in> set outs \<longrightarrow> cn_conn link = None"
    using disconnected_means_no_connection [OF calm assms(2)] step by simp
  have "fenced ?q \<or> grounded ?q \<and> EmitDisconnected \<in> set outs"
    using fenced grounded moves unfolding link_moves_def by blast
  from handle_links_fenced [OF _ this] only show ?thesis by (simp add: link_event_def step)
qed

lemma restore_settled_fenced: "fenced s \<Longrightarrow> fenced (fst (restore_settled rid r s))"
proof (cases "map_get (fa_restores s) rid")
  case (Some rt)
  assume f: "fenced s"
  let ?q = "s\<lparr>fa_restores := map_del rid (fa_restores s), fa_restore := (if fa_restore s = Some rid then None else fa_restore s)\<rparr>"
  have "stage_fenced ?q rid' stage = stage_fenced s rid' stage" if "rid' \<noteq> rid" for rid' stage
    using that by (cases stage) (auto simp: pool_owner_def)
  moreover have "grounded ?q" using f by (auto simp: fenced_def grounded_def restores_ok_def map_get_del)
  moreover have "fa_pool ?q = fa_pool s" "fa_link ?q = fa_link s" "fa_next ?q = fa_next s"
    "\<And>k rt. map_get (fa_restores ?q) k = Some rt \<Longrightarrow> k \<noteq> rid \<and> map_get (fa_restores s) k = Some rt"
    by (simp_all add: map_get_del split: if_splits)
  ultimately have "fenced ?q" using f unfolding fenced_def by metis
  from fenced_goes_on(3) [OF this, of r "rt_waiters rt"] show ?thesis
    by (simp only: restore_settled_def Some option.case)
qed (simp add: restore_settled_def)

lemma to_stage_grounded:
  assumes "map_get (fa_restores s) rid = Some rt" "old_stage (cn_next (fa_link s)) stage" "grounded s"
  shows "grounded (to_stage rid rt stage (s\<lparr>fa_pool := p\<rparr>))"
  using assms map_get_key [OF assms(1)] by (auto simp: to_stage_def grounded_def restores_ok_def map_get_set)

lemma to_stage_fenced:
  assumes "fenced s" "map_get (fa_restores s) rid = Some rt"
    and "stage_fenced (s\<lparr>fa_pool := p\<rparr>) rid stage" "old_stage (cn_next (fa_link s)) stage"
    and "p = fa_pool s \<or> p = None \<or> (\<exists>c. p = Some (rid, c) \<and> cn_conn (fa_link s) = Some c \<and> fa_restore s = Some rid)"
  shows "fenced (to_stage rid rt stage (s\<lparr>fa_pool := p\<rparr>))"
proof -
  have "grounded s" using assms(1) by (simp add: fenced_def)
  note ground = to_stage_grounded [OF assms(2,4) this]
  have small: "rid < fa_next s" using assms(1) map_get_key [OF assms(2)] by (auto simp: fenced_def grounded_def restores_ok_def)
  have "stage_fenced (s\<lparr>fa_pool := p\<rparr>) rid' (rt_stage rt')" if "map_get (fa_restores s) rid' = Some rt'" "rid' \<noteq> rid" for rid' rt'
  proof -
    have "stage_fenced s rid' (rt_stage rt')" using assms(1) that(1) by (simp add: fenced_def)
    with assms(5) that(2) show ?thesis
      by (cases "rt_stage rt'"; elim disjE exE conjE) (simp_all add: pool_owner_def)
  qed
  moreover have "\<forall>q c. p = Some (q, c) \<longrightarrow> cn_conn (fa_link s) = Some c \<and> q < fa_next s"
    using assms(5)
  proof (elim disjE exE conjE)
    assume "p = fa_pool s"
    then show ?thesis using assms(1) by (simp add: fenced_def)
  qed (use small in simp_all)
  ultimately show ?thesis
    using ground assms(3) by (auto simp: fenced_def to_stage_def map_get_set)
qed

lemma restore_answer_fenced: "fenced s \<Longrightarrow> fenced (fst (restore_answer rid err s))"
proof (cases "map_get (fa_restores s) rid")
  case (Some rt)
  assume f: "fenced s"
  then have now: "stage_fenced s rid (rt_stage rt)" using Some by (simp add: fenced_def)
  note settled = restore_settled_fenced [OF f]
  have same: "s\<lparr>fa_pool := fa_pool s\<rparr> = s" by simp
  have closing: "fenced (to_stage rid rt (RestoreClosing e) s)" "fenced (to_stage rid rt (RestoreClosing e) (s\<lparr>fa_pool := None\<rparr>))" for e
    using to_stage_fenced [OF f Some, of "fa_pool s" "RestoreClosing e"] to_stage_fenced [OF f Some, of None "RestoreClosing e"] same by simp_all
  then have failed: "fenced (fst (restore_step_failed rid rt e s))" for e
    using settled by (simp add: restore_step_failed_def)
  show ?thesis
  proof (cases "rt_stage rt")
    case (RestoreBuilding c)
    have "fenced (to_stage rid rt RestoreExchange (s\<lparr>fa_pool := Some (rid, c)\<rparr>))" if "cn_conn (fa_link s) = Some c"
      using now that RestoreBuilding by (intro to_stage_fenced [OF f Some]) (simp_all add: pool_owner_def)
    with RestoreBuilding Some settled closing show ?thesis
      by (simp add: restore_answer_def pool_initialized_def split: option.split)
  next
    case RestoreExchange
    have "fenced (to_stage rid rt RestoreConsumers s)"
      using to_stage_fenced [OF f Some, of "fa_pool s" RestoreConsumers] now RestoreExchange same by simp
    with RestoreExchange Some failed show ?thesis by (simp add: restore_answer_def exchange_ensured_def split: option.split)
  next
    case RestoreConsumers
    with Some failed settled show ?thesis by (simp add: restore_answer_def consumers_recreated_def split: option.split)
  next
    case (RestoreClosing e)
    with Some settled show ?thesis by (simp add: restore_answer_def)
  qed
qed (simp add: restore_answer_def)

lemma fa_step_fenced:
  assumes "fenced s" "\<forall>call. e \<noteq> FacadeDisconnect call" shows "fenced (fst (fa_step s e))"
proof (cases e)
  case (FacadeConnect call wait timeout)
  have "fenced (fst (link_event (Connect call) (s\<lparr>fa_connect := a\<rparr>)))" for a
    using assms(1) by (intro link_event_fenced) simp_all
  with FacadeConnect assms(1) show ?thesis by (simp add: facade_connect_def split: option.split)
next
  case ConnectTimeout
  with assms(1) show ?thesis by (simp add: connect_timeout_def wake_parked_fst split: option.split)
next
  case (TeardownAnswer tid err)
  have "fa_teardowns s = []" using assms(1) by (simp add: fenced_def grounded_def)
  with assms(1) TeardownAnswer show ?thesis by (simp add: teardown_answer_def)
qed (use assms in \<open>simp_all add: link_event_fenced restore_answer_fenced\<close>)

text \<open>The events of a client that is not told to disconnect.\<close>

fun keeps_running :: "fa_event \<Rightarrow> bool" where
  "keeps_running (FacadeDisconnect call) = False"
| "keeps_running _ = True"

interpretation faf: event_machine fa_step keeps_running fenced
proof
  show "fenced (fst (fa_step s e))" if "fenced s" "keeps_running e" for s e
    by (rule fa_step_fenced [OF that(1)]) (use that(2) in auto)
qed

lemma fa_new_fenced: "cn_new opts = Inr link \<Longrightarrow> fenced (fa_new link)"
  using cn_new_inv [of opts link]
  by (auto simp: fenced_def grounded_def fa_new_def restores_ok_def link_calm_def late_ok_def cn_new_def Let_def split: sum.splits if_splits)

text \<open>A restoration that has lost the slot leaves the pool alone, whatever it is answered.\<close>

lemma goes_on_pool: "fa_pool (fst (restore_all_go_on r ws s)) = fa_pool s"
  using all_go_on_fst [of r ws s] by auto

lemma settled_pool: "fa_pool (fst (restore_settled rid r s)) = fa_pool s"
  by (simp add: restore_settled_def goes_on_pool split: option.split)

lemma stale_restoration_keeps_pool:
  assumes "fenced s" "fa_restore s \<noteq> Some rid"
  shows "fa_pool (fst (restore_answer rid err s)) = fa_pool s"
proof (cases "map_get (fa_restores s) rid")
  case (Some rt)
  then have "stage_fenced s rid (rt_stage rt)" using assms(1) by (simp add: fenced_def)
  with assms(2) show ?thesis
    by (cases "rt_stage rt") (auto simp: restore_answer_def Some pool_initialized_def exchange_ensured_def consumers_recreated_def
        restore_step_failed_def to_stage_def pool_owner_def settled_pool chain_simps split: option.split)
qed (simp add: restore_answer_def)

text \<open>
  C6: Restorations are fenced by the connection, however often it flaps. As long as nobody
  disconnects the client: an installed pool is one of the connection the client has, so nothing
  is published on a dead one once the loss was handled; a restoration that builds on the
  current connection or owns the installed pool is the one that callers join, so there is at
  most one; one that is not joined any more never touches the client's pool again, whatever it
  is answered, and if its own pool becomes ready it closes it. (It may still have the consumers
  recreated once more, see \<open>stale_restoration_recreates\<close>.)
\<close>

theorem restorations_fenced:
  fixes es :: "fa_event list" and link :: connection
  assumes "cn_new opts = Inr link" "list_all keeps_running es"
  defines "s \<equiv> fst (run_machine fa_step (fa_new link) es)"
  shows "(\<forall>p c. fa_pool s = Some (p, c) \<longrightarrow> cn_conn (fa_link s) = Some c) \<and>
    (\<forall>rid rt. map_get (fa_restores s) rid = Some rt \<and>
       (pool_owner s = Some rid \<and> rt_stage rt \<in> {RestoreExchange, RestoreConsumers} \<or>
        (\<exists>c. rt_stage rt = RestoreBuilding c \<and> cn_conn (fa_link s) = Some c)) \<longrightarrow> fa_restore s = Some rid) \<and>
    (\<forall>rid. fa_restore s \<noteq> Some rid \<longrightarrow>
       (\<forall>err. fa_pool (fst (fa_step s (RestoreAnswer rid err))) = fa_pool s) \<and>
       (\<forall>rt c. map_get (fa_restores s) rid = Some rt \<and> rt_stage rt = RestoreBuilding c \<longrightarrow>
          snd (fa_step s (RestoreAnswer rid None)) = [ClosePool rid]))"
proof -
  have f: "fenced s" unfolding s_def by (rule faf.run_inv [OF fa_new_fenced [OF assms(1)] assms(2)])
  have "fa_restore s = Some rid" if "map_get (fa_restores s) rid = Some rt"
    "pool_owner s = Some rid \<and> rt_stage rt \<in> {RestoreExchange, RestoreConsumers} \<or>
        (\<exists>c. rt_stage rt = RestoreBuilding c \<and> cn_conn (fa_link s) = Some c)" for rid rt
  proof -
    have "stage_fenced s rid (rt_stage rt)" using f that(1) by (simp add: fenced_def)
    with that(2) show ?thesis by auto
  qed
  moreover have "snd (fa_step s (RestoreAnswer rid None)) = [ClosePool rid]"
    if "map_get (fa_restores s) rid = Some rt" "rt_stage rt = RestoreBuilding c" "fa_restore s \<noteq> Some rid" for rid rt c
  proof -
    have "stage_fenced s rid (RestoreBuilding c)" using f that(1,2) unfolding fenced_def by metis
    with that show ?thesis by (simp add: restore_answer_def pool_initialized_def to_stage_def)
  qed
  moreover have "fa_pool (fst (fa_step s (RestoreAnswer rid err))) = fa_pool s" if "fa_restore s \<noteq> Some rid" for rid err
    using stale_restoration_keeps_pool [OF f that] by simp
  moreover have "\<forall>p c. fa_pool s = Some (p, c) \<longrightarrow> cn_conn (fa_link s) = Some c" using f by (simp add: fenced_def)
  ultimately show ?thesis by blast
qed

theorem restorations_fenced_witness:
  "let s = fst (run_machine fa_step facade_sample
       [FacadeConnect 0 False None, LinkDialOk, LinkLost 0, LinkTimer, LinkDialOk])
   in fa_restore s = Some 1 \<and> snd (fa_step s (RestoreAnswer 0 None)) = [ClosePool 0]"
proof -
  define es where "es = [FacadeConnect 0 False None, LinkDialOk, LinkLost 0, LinkTimer, LinkDialOk]"
  define s where "s = fst (run_machine fa_step facade_sample es)"
  have "list_all keeps_running es" unfolding es_def by simp
  moreover have "map_get (fa_restores s) 0 = Some \<lparr>rt_stage = RestoreBuilding 0, rt_waiters = [AwaitConnect 0]\<rparr>" "fa_restore s = Some 1"
    unfolding s_def es_def by code_simp+
  ultimately show ?thesis
    using restorations_fenced [OF cn_sample, of es]
    unfolding Let_def es_def [symmetric] s_def [symmetric] facade_sample_def [symmetric] by simp
qed

text \<open>
  The slot fences the pool, not the recreation of the consumers. A restoration that asserts its
  exchange while the connection is replaced goes on, should the answer still come, to recreate
  the consumers beside the restoration that has taken its place.
\<close>

theorem stale_restoration_recreates:
  "let (s, out) = run_machine fa_step facade_sample
       [FacadeConnect 0 False None, LinkDialOk, RestoreAnswer 0 None, LinkLost 0, LinkTimer, LinkDialOk,
        RestoreAnswer 1 None, RestoreAnswer 1 None, RestoreAnswer 0 None]
   in map_option rt_stage (map_get (fa_restores s) 0) = Some RestoreConsumers \<and>
      map_option rt_stage (map_get (fa_restores s) 1) = Some RestoreConsumers \<and>
      {RecreateConsumers 0, RecreateConsumers 1} \<subseteq> set out"
  by code_simp

end
