(* ===== verification/Worker_Pool.thy ===== *)
theory Worker_Pool
  imports Utils
begin

text \<open>
  \<open>src/consumers/worker-pool.js\<close>: a pool of worker threads with an idle queue, a queue of
  waiting \<open>run\<close> calls and a bounded number of respawns per worker id. Worker objects are
  numbered in the order of their creation, \<open>run\<close> calls are the tasks. An event is a call of
  the pool or an event of a worker thread; its continuation in the microtask queue (the
  \<open>await\<close> of \<open>acquire\<close>, the \<open>finally\<close> of \<open>run\<close>) belongs to it. Payloads can be cloned: that
  \<open>postMessage\<close> throws on one that cannot (and \<open>run\<close> rejects with that) is not modelled.
\<close>

section \<open>State\<close>

record 't worker_pool =
  wp_max_respawns :: nat
  wp_workers :: "nat list"
  wp_idle :: "nat list"
  wp_waiters :: "'t list"
  wp_respawn_counts :: "(nat, nat) jsmap"
  wp_terminated :: bool
  \<comment> \<open>the closure variable \<open>workerId\<close> of each worker, and the workers that have not exited\<close>
  wp_ids :: "(nat, nat) jsmap"
  wp_alive :: "nat list"
  \<comment> \<open>the \<open>run\<close> call whose listeners are attached to a worker\<close>
  wp_running :: "(nat, 't) jsmap"
  wp_next :: nat

datatype wp_error = PoolTerminated | AllWorkersDied | WorkerExited | WorkerError jsval

datatype 't wp_out =
    Post nat 't
  | Resolve 't jsval
  | Reject 't wp_error
  | TerminateWorker nat

section \<open>Operations\<close>

definition wp_reject_all_waiters :: "wp_error \<Rightarrow> 't worker_pool \<Rightarrow> 't worker_pool \<times> 't wp_out list" where
  "wp_reject_all_waiters e p = (p\<lparr>wp_waiters := []\<rparr>, map (\<lambda>t. Reject t e) (wp_waiters p))"

definition wp_start :: "nat \<Rightarrow> 't \<Rightarrow> 't worker_pool \<Rightarrow> 't worker_pool \<times> 't wp_out list" where
  "wp_start w t p = (p\<lparr>wp_running := map_set w t (wp_running p)\<rparr>, [Post w t])"

definition wp_release :: "nat \<Rightarrow> 't worker_pool \<Rightarrow> 't worker_pool \<times> 't wp_out list" where
  "wp_release w p =
     (if w \<notin> set (wp_workers p) then (p, [])
      else case wp_waiters p of
             t # ts \<Rightarrow> wp_start w t (p\<lparr>wp_waiters := ts\<rparr>)
           | [] \<Rightarrow> (p\<lparr>wp_idle := wp_idle p @ [w]\<rparr>, []))"

definition wp_spawn :: "nat \<Rightarrow> 't worker_pool \<Rightarrow> 't worker_pool \<times> 't wp_out list" where
  "wp_spawn worker_id p =
     (let w = wp_next p
      in wp_release w (p\<lparr>wp_next := Suc w, wp_ids := map_set w worker_id (wp_ids p),
           wp_alive := wp_alive p @ [w], wp_workers := wp_workers p @ [w]\<rparr>))"

fun wp_spawn_all :: "nat list \<Rightarrow> 't worker_pool \<Rightarrow> 't worker_pool" where
  "wp_spawn_all [] p = p"
| "wp_spawn_all (i # ids) p = wp_spawn_all ids (fst (wp_spawn i p))"

definition wp_new :: "nat \<Rightarrow> nat \<Rightarrow> 't worker_pool" where
  "wp_new worker_count max_respawns = wp_spawn_all [0 ..< worker_count]
     \<lparr>wp_max_respawns = max_respawns, wp_workers = [], wp_idle = [], wp_waiters = [],
      wp_respawn_counts = [], wp_terminated = False, wp_ids = [], wp_alive = [],
      wp_running = [], wp_next = 0\<rparr>"

text \<open>The loop of \<open>acquire\<close> over the idle queue.\<close>

fun wp_take_idle :: "nat list \<Rightarrow> nat list \<Rightarrow> nat option \<times> nat list" where
  "wp_take_idle workers [] = (None, [])"
| "wp_take_idle workers (w # ws) = (if w \<in> set workers then (Some w, ws) else wp_take_idle workers ws)"

definition wp_run :: "'t \<Rightarrow> 't worker_pool \<Rightarrow> 't worker_pool \<times> 't wp_out list" where
  "wp_run t p =
     (if wp_terminated p then (p, [Reject t PoolTerminated])
      else case wp_take_idle (wp_workers p) (wp_idle p) of
             (Some w, idle) \<Rightarrow> wp_start w t (p\<lparr>wp_idle := idle\<rparr>)
           | (None, idle) \<Rightarrow>
               if wp_workers p = [] then (p\<lparr>wp_idle := idle\<rparr>, [Reject t AllWorkersDied])
               else (p\<lparr>wp_idle := idle, wp_waiters := wp_waiters p @ [t]\<rparr>, []))"

text \<open>The listeners of a \<open>run\<close> call: they are removed, the call settles, the worker is released.\<close>

definition wp_finish :: "nat \<Rightarrow> ('t \<Rightarrow> 't wp_out) \<Rightarrow> 't worker_pool \<Rightarrow> 't worker_pool \<times> 't wp_out list" where
  "wp_finish w outcome p = (case map_get (wp_running p) w of
      None \<Rightarrow> (p, [])
    | Some t \<Rightarrow> apsnd (\<lambda>out. outcome t # out) (wp_release w (p\<lparr>wp_running := map_del w (wp_running p)\<rparr>)))"

text \<open>The pool's own \<open>exit\<close> listener; it runs before the one of a \<open>run\<close> call.\<close>

definition wp_on_exit :: "nat \<Rightarrow> 't worker_pool \<Rightarrow> 't worker_pool \<times> 't wp_out list" where
  "wp_on_exit w p =
     (let p1 = p\<lparr>wp_alive := removeAll w (wp_alive p), wp_workers := removeAll w (wp_workers p),
                 wp_idle := remove1 w (wp_idle p)\<rparr>;
          worker_id = the (map_get (wp_ids p) w);
          respawns = (case map_get (wp_respawn_counts p) worker_id of Some n \<Rightarrow> n | None \<Rightarrow> 0)
      in if wp_terminated p then (p1, [])
         else if respawns < wp_max_respawns p
         then wp_spawn worker_id
                (p1\<lparr>wp_respawn_counts := map_set worker_id (Suc respawns) (wp_respawn_counts p1)\<rparr>)
         else if wp_workers p1 = [] then wp_reject_all_waiters AllWorkersDied p1
         else (p1, []))"

definition wp_exit :: "nat \<Rightarrow> 't worker_pool \<Rightarrow> 't worker_pool \<times> 't wp_out list" where
  "wp_exit w p =
     (if w \<notin> set (wp_alive p) then (p, [])
      else case wp_on_exit w p of (p1, out1) \<Rightarrow>
             case wp_finish w (\<lambda>t. Reject t WorkerExited) p1 of (p2, out2) \<Rightarrow> (p2, out1 @ out2))"

definition wp_terminate :: "'t worker_pool \<Rightarrow> 't worker_pool \<times> 't wp_out list" where
  "wp_terminate p =
     apsnd (\<lambda>out. out @ map TerminateWorker (wp_workers p))
       (wp_reject_all_waiters PoolTerminated (p\<lparr>wp_terminated := True\<rparr>))"

text \<open>The end of \<open>terminate\<close>, when every thread has answered.\<close>

definition wp_terminate_end :: "'t worker_pool \<Rightarrow> 't worker_pool" where
  "wp_terminate_end p = (if wp_terminated p then p\<lparr>wp_workers := [], wp_idle := []\<rparr> else p)"

datatype 't wp_event =
    Run 't
  | WorkerMessage nat jsval
  | WorkerErrorEvent nat jsval
  | WorkerExit nat
  | Terminate
  | TerminateEnd

fun wp_step :: "'t worker_pool \<Rightarrow> 't wp_event \<Rightarrow> 't worker_pool \<times> 't wp_out list" where
  "wp_step p (Run t) = wp_run t p"
| "wp_step p (WorkerMessage w v) = (if w \<in> set (wp_alive p) then wp_finish w (\<lambda>t. Resolve t v) p else (p, []))"
| "wp_step p (WorkerErrorEvent w e) =
     (if w \<in> set (wp_alive p) then wp_finish w (\<lambda>t. Reject t (WorkerError e)) p else (p, []))"
| "wp_step p (WorkerExit w) = wp_exit w p"
| "wp_step p Terminate = wp_terminate p"
| "wp_step p TerminateEnd = (wp_terminate_end p, [])"

section \<open>Invariant\<close>

definition wp_count :: "'t worker_pool \<Rightarrow> nat \<Rightarrow> nat" where
  "wp_count p i = (case map_get (wp_respawn_counts p) i of Some n \<Rightarrow> n | None \<Rightarrow> 0)"

definition wp_id :: "'t worker_pool \<Rightarrow> nat \<Rightarrow> nat" where
  "wp_id p w = the (map_get (wp_ids p) w)"

text \<open>
  \<open>wp_shape W X p\<close>: idle and busy workers are disjoint and, with the workers \<open>W\<close> in hand
  (between two queues inside one operation), they are all workers of a live pool; a call waits
  only when no worker is idle; \<open>X\<close> are workers that
  have exited while their \<open>run\<close> call still has its listeners. \<open>wp_budget n p\<close>: each of the \<open>n\<close>
  worker ids has at most one worker and at most \<open>maxRespawns\<close> respawns.
\<close>

definition wp_shape :: "nat set \<Rightarrow> nat set \<Rightarrow> 't worker_pool \<Rightarrow> bool" where
  "wp_shape W X p \<longleftrightarrow>
     distinct (wp_workers p) \<and> distinct (wp_idle p) \<and> wf_map (wp_running p)
   \<and> set (wp_idle p) \<subseteq> set (wp_workers p) \<and> set (wp_workers p) \<subseteq> set (wp_alive p)
   \<and> key_set (wp_running p) \<subseteq> set (wp_alive p) \<union> X
   \<and> X \<inter> set (wp_workers p) = {}
   \<and> set (wp_idle p) \<inter> key_set (wp_running p) = {}
   \<and> W \<inter> set (wp_idle p) = {} \<and> W \<inter> key_set (wp_running p) = {}
   \<and> (\<not> wp_terminated p \<longrightarrow> set (wp_workers p) = set (wp_alive p)
        \<and> set (wp_workers p) \<subseteq> set (wp_idle p) \<union> key_set (wp_running p) \<union> W)
   \<and> (wp_waiters p \<noteq> [] \<longrightarrow> wp_idle p = [] \<and> \<not> wp_terminated p)
   \<and> (\<forall>w \<in> set (wp_alive p) \<union> X. w < wp_next p)"

definition wp_budget :: "nat \<Rightarrow> 't worker_pool \<Rightarrow> bool" where
  "wp_budget n p \<longleftrightarrow>
     inj_on (wp_id p) (set (wp_workers p)) \<and> (\<forall>w \<in> set (wp_workers p). wp_id p w < n)
   \<and> (\<forall>i. wp_count p i \<le> wp_max_respawns p)
   \<and> wp_next p \<le> n + (\<Sum>i < n. wp_count p i)"

definition wp_served :: "'t worker_pool \<Rightarrow> bool" where
  "wp_served p \<longleftrightarrow> wp_waiters p \<noteq> [] \<longrightarrow> wp_workers p \<noteq> []"

definition wp_inv :: "nat \<Rightarrow> 't worker_pool \<Rightarrow> bool" where
  "wp_inv n p \<longleftrightarrow> wp_shape {} {} p \<and> wp_budget n p \<and> wp_served p"

lemma wp_budget_cong:
  "wp_workers q = wp_workers p \<Longrightarrow> wp_ids q = wp_ids p \<Longrightarrow> wp_respawn_counts q = wp_respawn_counts p \<Longrightarrow>
   wp_max_respawns q = wp_max_respawns p \<Longrightarrow> wp_next q = wp_next p \<Longrightarrow> wp_budget n p \<Longrightarrow> wp_budget n q"
  by (simp add: wp_budget_def wp_id_def [abs_def] wp_count_def)

lemma wp_release_served: "wp_served p \<Longrightarrow> wp_served (fst (wp_release w p))"
  by (auto simp: wp_served_def wp_release_def wp_start_def split: list.split)

lemma wp_spawn_served: "wp_served (fst (wp_spawn i p))"
  by (auto simp: wp_served_def wp_spawn_def wp_release_def wp_start_def Let_def split: list.split)

lemma wp_release_shape: "wp_shape {w} X p \<Longrightarrow> wp_shape {} X (fst (wp_release w p))"
  by (cases "wp_waiters p") (auto simp: wp_shape_def wp_release_def wp_start_def)

lemma wp_release_budget [simp]: "wp_budget n (fst (wp_release w p)) = wp_budget n p"
  by (cases "wp_waiters p") (auto simp: wp_budget_def wp_release_def wp_start_def wp_id_def [abs_def] wp_count_def)

lemma wp_release_fields [simp]:
  "wp_next (fst (wp_release w p)) = wp_next p" "wp_ids (fst (wp_release w p)) = wp_ids p"
  "wp_workers (fst (wp_release w p)) = wp_workers p" "wp_alive (fst (wp_release w p)) = wp_alive p"
  "wp_respawn_counts (fst (wp_release w p)) = wp_respawn_counts p"
  "wp_terminated (fst (wp_release w p)) = wp_terminated p"
  "wp_max_respawns (fst (wp_release w p)) = wp_max_respawns p"
  by (auto simp: wp_release_def wp_start_def split: list.split)

lemma wp_spawn_shape:
  assumes "wp_shape {} X p" shows "wp_shape {} X (fst (wp_spawn i p))"
proof -
  have "wp_shape {wp_next p} X (p\<lparr>wp_next := Suc (wp_next p), wp_ids := map_set (wp_next p) i (wp_ids p),
           wp_alive := wp_alive p @ [wp_next p], wp_workers := wp_workers p @ [wp_next p]\<rparr>)"
    using assms by (auto simp: wp_shape_def less_Suc_eq)
  then show ?thesis by (simp add: wp_spawn_def Let_def wp_release_shape)
qed

lemma wp_spawn_budget:
  assumes "wp_shape {} X p" "wp_budget n p" "i < n" "i \<notin> wp_id p ` set (wp_workers p)"
    and "wp_next p < n + (\<Sum>i < n. wp_count p i)"
  shows "wp_budget n (fst (wp_spawn i p))"
proof -
  have fresh: "wp_next p \<notin> set (wp_workers p)" using assms(1) by (auto simp: wp_shape_def)
  define q where "q = p\<lparr>wp_next := Suc (wp_next p), wp_ids := map_set (wp_next p) i (wp_ids p),
           wp_alive := wp_alive p @ [wp_next p], wp_workers := wp_workers p @ [wp_next p]\<rparr>"
  have id: "wp_id q w = (if w = wp_next p then i else wp_id p w)" for w
    by (simp add: q_def wp_id_def map_simps)
  have q: "wp_workers q = wp_workers p @ [wp_next p]" "wp_count q = wp_count p"
    "wp_max_respawns q = wp_max_respawns p" "wp_next q = Suc (wp_next p)"
    by (auto simp: q_def wp_count_def)
  have "inj_on (wp_id q) (set (wp_workers p)) = inj_on (wp_id p) (set (wp_workers p))"
    by (rule inj_on_cong) (use fresh id in auto)
  moreover have "wp_id q ` set (wp_workers p) = wp_id p ` set (wp_workers p)"
    by (rule image_cong) (use fresh id in auto)
  ultimately have "wp_budget n q"
    using assms(2-5) fresh by (auto simp: wp_budget_def q id)
  then show ?thesis by (simp add: wp_spawn_def Let_def q_def)
qed

lemma wp_spawn_id:
  assumes "wp_shape {} X p"
  shows "wp_id (fst (wp_spawn i p)) ` set (wp_workers (fst (wp_spawn i p)))
     = insert i (wp_id p ` set (wp_workers p))"
proof -
  have "w \<noteq> wp_next p" if "w \<in> set (wp_workers p)" for w
    using assms that by (auto simp: wp_shape_def)
  then show ?thesis by (auto simp: wp_spawn_def Let_def wp_id_def map_simps image_iff)
qed

lemma wp_spawn_all_inv:
  assumes "wp_inv n p" "distinct ids" "\<forall>i \<in> set ids. i < n \<and> i \<notin> wp_id p ` set (wp_workers p)"
    and "wp_next p + length ids \<le> n + (\<Sum>i < n. wp_count p i)"
  shows "wp_inv n (wp_spawn_all ids p)"
  using assms
proof (induction ids arbitrary: p)
  case (Cons i ids)
  have "wp_inv n (fst (wp_spawn i p))"
    using Cons.prems by (auto simp: wp_inv_def wp_spawn_served intro!: wp_spawn_shape wp_spawn_budget)
  moreover have "wp_next (fst (wp_spawn i p)) = Suc (wp_next p)" "wp_count (fst (wp_spawn i p)) = wp_count p"
    by (auto simp: wp_spawn_def Let_def wp_count_def)
  ultimately show ?case
    using Cons.prems wp_spawn_id [of "{}" p i] by (simp, intro Cons.IH) (auto simp: wp_inv_def wp_spawn_served)
qed simp

lemma wp_new_inv: "wp_inv n (wp_new n m)"
  unfolding wp_new_def
  by (rule wp_spawn_all_inv) (auto simp: wp_inv_def wp_shape_def wp_served_def wp_budget_def wp_count_def map_get_def)

lemma wp_run_inv:
  assumes "wp_inv n p" shows "wp_inv n (fst (wp_run t p))"
proof -
  have "wp_budget n (fst (wp_run t p))"
    by (rule wp_budget_cong [where p = p])
       (use assms in \<open>auto simp: wp_inv_def wp_run_def wp_start_def split: option.split prod.split\<close>)
  moreover have "wp_served (fst (wp_run t p))"
    using assms by (auto simp: wp_inv_def wp_served_def wp_run_def wp_start_def split: option.split prod.split)
  moreover have "wp_shape {} {} (fst (wp_run t p))"
  proof (cases "wp_idle p")
    case Nil
    with assms show ?thesis by (auto simp: wp_inv_def wp_run_def wp_shape_def)
  next
    case (Cons w ws)
    with assms have "w \<in> set (wp_workers p)" by (auto simp: wp_inv_def wp_shape_def)
    with assms Cons show ?thesis by (auto simp: wp_inv_def wp_run_def wp_start_def wp_shape_def)
  qed
  ultimately show ?thesis by (simp add: wp_inv_def)
qed

lemma wp_finish_inv:
  assumes "wp_shape {} X p" "wp_budget n p" "wp_served p" "X = {} \<or> X = {w}"
  shows "wp_inv n (fst (wp_finish w out p))"
proof (cases "map_get (wp_running p) w")
  case None
  with assms(4) have "key_set (wp_running p) \<inter> X = {}" by (auto simp: map_simps)
  with assms(1) have "wp_shape {} {} p" by (auto simp: wp_shape_def)
  with None assms show ?thesis by (simp add: wp_finish_def wp_inv_def)
next
  case (Some t)
  then have w: "w \<in> key_set (wp_running p)" by (rule map_get_key)
  let ?q = "p\<lparr>wp_running := map_del w (wp_running p)\<rparr>"
  have "key_set (wp_running p) - {w} \<subseteq> set (wp_alive p)" "w \<notin> set (wp_idle p)"
    using assms(1,4) w by (auto simp: wp_shape_def)
  with assms(1) have "wp_shape {w} {} ?q" by (simp add: wp_shape_def) blast
  moreover have "wp_budget n ?q" by (rule wp_budget_cong [OF _ _ _ _ _ assms(2)]) simp_all
  moreover have "wp_served ?q" using assms(3) by (simp add: wp_served_def)
  ultimately show ?thesis using Some by (simp add: wp_finish_def wp_inv_def wp_release_shape wp_release_served)
qed

lemma wp_on_exit_inv:
  assumes inv: "wp_inv n p" and w: "w \<in> set (wp_alive p)"
  shows "wp_shape {} {w} (fst (wp_on_exit w p)) \<and> wp_budget n (fst (wp_on_exit w p))
    \<and> wp_served (fst (wp_on_exit w p))"
proof -
  define q where "q = p\<lparr>wp_alive := removeAll w (wp_alive p), wp_workers := removeAll w (wp_workers p),
                 wp_idle := remove1 w (wp_idle p)\<rparr>"
  have fields: "wp_workers q = removeAll w (wp_workers p)" "wp_id q = wp_id p" "wp_count q = wp_count p"
    "wp_max_respawns q = wp_max_respawns p" "wp_next q = wp_next p" "wp_terminated q = wp_terminated p"
    "wp_waiters q = wp_waiters p"
    by (auto simp: q_def wp_id_def [abs_def] wp_count_def [abs_def])
  have shape: "wp_shape {} {w} q"
    using inv w by (auto simp: q_def wp_inv_def wp_shape_def set_remove1_eq distinct_removeAll)
  have budget: "wp_budget n q"
    using inv by (auto simp: wp_inv_def wp_budget_def fields inj_on_def)
  let ?i = "wp_id p w" and ?c = "wp_count p (wp_id p w)"
  let ?r = "q\<lparr>wp_respawn_counts := map_set ?i (Suc ?c) (wp_respawn_counts q)\<rparr>"
  have on_exit: "wp_on_exit w p = (if wp_terminated p then (q, [])
      else if ?c < wp_max_respawns p then wp_spawn ?i ?r
      else if wp_workers q = [] then wp_reject_all_waiters AllWorkersDied q else (q, []))"
    by (simp add: wp_on_exit_def Let_def q_def wp_id_def wp_count_def)
  have respawn: "wp_shape {} {w} (fst (wp_spawn ?i ?r)) \<and> wp_budget n (fst (wp_spawn ?i ?r))"
    if c: "?c < wp_max_respawns p" and live: "\<not> wp_terminated p"
  proof -
    have shape_r: "wp_shape {} {w} ?r" using shape by (auto simp: wp_shape_def)
    have member: "w \<in> set (wp_workers p)" using inv w live by (auto simp: wp_inv_def wp_shape_def)
    have id: "wp_id ?r = wp_id p" by (simp add: wp_id_def [abs_def] q_def)
    have count: "wp_count ?r = (wp_count p)(?i := Suc ?c)"
      by (auto simp: wp_count_def map_simps q_def)
    have i: "?i < n" "?i \<notin> wp_id ?r ` set (wp_workers ?r)"
      using inv member by (auto simp: wp_inv_def wp_budget_def id fields inj_on_def)
    have "(\<Sum>j < n. wp_count ?r j) = Suc (\<Sum>j < n. wp_count p j)"
      using i(1) by (simp add: count sum.remove [of _ ?i])
    with budget have "wp_next ?r < n + (\<Sum>j < n. wp_count ?r j)" by (simp add: wp_budget_def fields)
    moreover have "wp_budget n ?r"
      using budget calculation c
      by (auto simp: wp_budget_def id count fields)
    ultimately show ?thesis using shape_r i by (intro conjI wp_spawn_shape wp_spawn_budget)
  qed
  have rejected: "wp_shape {} {w} (q\<lparr>wp_waiters := []\<rparr>) \<and> wp_budget n (q\<lparr>wp_waiters := []\<rparr>)"
    using shape wp_budget_cong [OF _ _ _ _ _ budget, of "q\<lparr>wp_waiters := []\<rparr>"] by (auto simp: wp_shape_def)
  consider "wp_terminated p" | "\<not> wp_terminated p" "?c < wp_max_respawns p"
    | "\<not> wp_terminated p" "\<not> ?c < wp_max_respawns p" by blast
  then show ?thesis
  proof cases
    case 1
    then have "wp_waiters q = []" using inv by (auto simp: fields wp_inv_def wp_shape_def)
    with 1 shape budget show ?thesis by (simp add: on_exit wp_served_def)
  next
    case 2
    then show ?thesis using respawn by (simp add: on_exit wp_spawn_served)
  next
    case 3
    then show ?thesis
      using shape budget rejected by (simp add: on_exit wp_reject_all_waiters_def wp_served_def)
  qed
qed

lemma wp_finish_inv': "wp_inv n p \<Longrightarrow> wp_inv n (fst (wp_finish w out p))"
  by (rule wp_finish_inv [where X = "{}"]) (simp_all add: wp_inv_def)

lemma wp_step_inv:
  assumes inv: "wp_inv n p" shows "wp_inv n (fst (wp_step p e))"
proof (cases e)
  case (WorkerExit w)
  have "wp_inv n (fst (wp_finish w out (fst (wp_on_exit w p))))" if "w \<in> set (wp_alive p)" for out
    using wp_on_exit_inv [OF inv that] by (intro wp_finish_inv) auto
  with WorkerExit inv show ?thesis by (simp add: wp_exit_def split_def)
next
  case Terminate
  have "wp_budget n (fst (wp_terminate p))"
    by (rule wp_budget_cong [where p = p])
       (use inv in \<open>simp_all add: wp_terminate_def wp_reject_all_waiters_def wp_inv_def\<close>)
  with Terminate inv show ?thesis
    by (simp add: wp_inv_def wp_shape_def wp_served_def wp_terminate_def wp_reject_all_waiters_def)
next
  case TerminateEnd
  with inv show ?thesis
    by (auto simp: wp_inv_def wp_shape_def wp_served_def wp_budget_def wp_terminate_end_def wp_count_def)
qed (use inv in \<open>simp_all add: wp_run_inv wp_finish_inv'\<close>)

section \<open>The ledger of \<open>run\<close> calls\<close>

definition wp_tracked :: "'t worker_pool \<Rightarrow> 't multiset" where
  "wp_tracked p = mset (wp_waiters p) + vals_of (wp_running p)"

fun wp_entered :: "'t worker_pool \<Rightarrow> 't wp_event \<Rightarrow> 't multiset" where
  "wp_entered p (Run t) = {#t#}"
| "wp_entered p _ = {#}"

fun wp_settles :: "'t wp_out \<Rightarrow> 't multiset" where
  "wp_settles (Resolve t _) = {#t#}"
| "wp_settles (Reject t _) = {#t#}"
| "wp_settles _ = {#}"

abbreviation wp_settled :: "'t wp_out list \<Rightarrow> 't multiset" where
  "wp_settled out \<equiv> total_settled wp_settles out"

lemma wp_settled_rejects [simp]: "wp_settled (map (\<lambda>t. Reject t e) ts) = mset ts"
  by (induction ts) auto

lemma wp_settled_terminate [simp]: "wp_settled (map TerminateWorker ws) = {#}"
  by (induction ws) auto

lemma wp_start_ledger:
  "w \<notin> key_set (wp_running p) \<Longrightarrow> wp_tracked (fst (wp_start w t p)) = add_mset t (wp_tracked p)
     \<and> wp_settled (snd (wp_start w t p)) = {#}"
  by (simp add: wp_start_def wp_tracked_def vals_set_new)

lemma wp_release_ledger:
  "w \<notin> key_set (wp_running p) \<Longrightarrow> wp_tracked (fst (wp_release w p)) = wp_tracked p
     \<and> wp_settled (snd (wp_release w p)) = {#}"
  by (auto simp: wp_release_def wp_start_def wp_tracked_def vals_set_new split: list.split)

lemma wp_spawn_ledger:
  assumes "wp_shape {} X p"
  shows "wp_tracked (fst (wp_spawn i p)) = wp_tracked p \<and> wp_settled (snd (wp_spawn i p)) = {#}"
proof -
  have "wp_next p \<notin> key_set (wp_running p)" using assms by (auto simp: wp_shape_def)
  then show ?thesis by (simp add: wp_spawn_def Let_def wp_release_ledger, simp add: wp_tracked_def)
qed

lemma wp_finish_ledger:
  assumes "wf_map (wp_running p)" "\<And>t. wp_settles (out t) = {#t#}"
  shows "wp_tracked p = wp_tracked (fst (wp_finish w out p)) + wp_settled (snd (wp_finish w out p))"
proof (cases "map_get (wp_running p) w")
  case (Some t)
  let ?q = "p\<lparr>wp_running := map_del w (wp_running p)\<rparr>"
  have "wp_tracked p = add_mset t (wp_tracked ?q)"
    using vals_del [OF assms(1) Some] by (simp add: wp_tracked_def)
  with Some show ?thesis by (simp add: wp_finish_def wp_release_ledger assms(2))
qed (simp add: wp_finish_def)

lemma wp_on_exit_ledger:
  assumes "wp_inv n p" "w \<in> set (wp_alive p)"
  shows "wp_tracked p = wp_tracked (fst (wp_on_exit w p)) + wp_settled (snd (wp_on_exit w p))"
proof -
  have shape: "wp_shape {} {w} (p\<lparr>wp_alive := removeAll w (wp_alive p), wp_workers := removeAll w (wp_workers p),
        wp_idle := remove1 w (wp_idle p), wp_respawn_counts := rc\<rparr>)" for rc
    using assms by (auto simp: wp_inv_def wp_shape_def set_remove1_eq distinct_removeAll)
  show ?thesis
    using wp_spawn_ledger [OF shape]
    by (simp add: wp_on_exit_def Let_def wp_reject_all_waiters_def, simp add: wp_tracked_def)
qed

lemma wp_step_ledger:
  assumes inv: "wp_inv n p"
  shows "wp_tracked p + wp_entered p e = wp_tracked (fst (wp_step p e)) + wp_settled (snd (wp_step p e))"
proof -
  have wf: "wf_map (wp_running p)" using inv by (simp add: wp_inv_def wp_shape_def)
  show ?thesis
  proof (cases e)
    case (Run t)
    show ?thesis
    proof (cases "wp_idle p")
      case Nil
      with Run show ?thesis by (simp add: wp_run_def wp_tracked_def)
    next
      case (Cons w ws)
      with inv have "w \<in> set (wp_workers p)" "w \<notin> key_set (wp_running p)"
        by (auto simp: wp_inv_def wp_shape_def)
      with Run Cons show ?thesis by (simp add: wp_run_def wp_start_ledger, simp add: wp_tracked_def)
    qed
  next
    case (WorkerExit w)
    show ?thesis
    proof (cases "w \<in> set (wp_alive p)")
      case True
      let ?q = "fst (wp_on_exit w p)"
      have "wf_map (wp_running ?q)" using wp_on_exit_inv [OF inv True] by (simp add: wp_shape_def)
      then have "wp_tracked ?q = wp_tracked (fst (wp_finish w (\<lambda>t. Reject t WorkerExited) ?q))
          + wp_settled (snd (wp_finish w (\<lambda>t. Reject t WorkerExited) ?q))"
        by (rule wp_finish_ledger) simp
      with wp_on_exit_ledger [OF inv True] WorkerExit True show ?thesis
        by (simp add: wp_exit_def split_def add_ac)
    qed (use WorkerExit in \<open>simp add: wp_exit_def\<close>)
  qed (use wp_finish_ledger [OF wf] in \<open>auto simp: wp_terminate_def wp_reject_all_waiters_def
         wp_terminate_end_def wp_tracked_def\<close>)
qed

interpretation wp: ledger_machine wp_step "\<lambda>_. True" "wp_inv n" wp_tracked wp_entered wp_settles for n
  by unfold_locales (auto intro: wp_step_inv wp_step_ledger)

lemma wp_run_from_new_inv: "wp_inv n (fst (run_machine wp_step (wp_new n m) es))"
  by (rule wp.run_inv) (auto simp: wp_new_inv list_all_iff)

section \<open>Properties\<close>

text \<open>
  C14: No task is lost, none is answered twice. In every run of the pool, whatever the calls,
  the answers, errors and deaths of the workers and the termination, the \<open>run\<close> calls made
  are, counted with multiplicity, exactly the calls settled (resolved or rejected) plus those
  still waiting or in a worker; and once the pool is terminated and its threads are gone, all
  of them are settled.
\<close>

theorem worker_pool_settles_every_run:
  fixes es :: "'t wp_event list"
  assumes "(p, out) = run_machine wp_step (wp_new n m) es"
  shows "total_entered wp_step wp_entered (wp_new n m) es
           = mset (wp_waiters p) + image_mset snd (mset (wp_running p)) + total_settled wp_settles out
    \<and> (wp_terminated p \<and> wp_alive p = [] \<longrightarrow>
         total_entered wp_step wp_entered (wp_new n m) es = total_settled wp_settles out)"
proof -
  have "wp_tracked (wp_new n m :: 't worker_pool) = {#}"
  proof -
    have "wp_running p = [] \<Longrightarrow> wp_waiters p = [] \<Longrightarrow> wp_tracked (wp_spawn_all ids p) = {#}" for ids and p :: "'t worker_pool"
      by (induction ids arbitrary: p) (auto simp: wp_tracked_def wp_spawn_def wp_release_def Let_def)
    then show ?thesis by (simp add: wp_new_def)
  qed
  moreover have "p = fst (run_machine wp_step (wp_new n m) es)" "out = snd (run_machine wp_step (wp_new n m) es)"
    using assms by (metis fst_conv, metis snd_conv)
  ultimately have ledger: "total_entered wp_step wp_entered (wp_new n m) es = wp_tracked p + total_settled wp_settles out"
    using wp.run_conserves [OF wp_new_inv [of n m], of es] by (simp add: list_all_iff)
  have "wp_inv n p" using wp_run_from_new_inv [of n m es] assms by (metis fst_conv)
  then have "wp_terminated p \<and> wp_alive p = [] \<Longrightarrow> wp_tracked p = {#}"
    by (auto simp: wp_inv_def wp_shape_def wp_tracked_def key_set_def)
  with ledger show ?thesis by (simp add: wp_tracked_def)
qed

theorem worker_pool_settles_every_run_witness:
  "total_entered wp_step wp_entered (wp_new 1 0) [Run ''a'', Run ''b'', Terminate, WorkerExit 0]
     = total_settled wp_settles [Post 0 ''a'', Reject ''b'' PoolTerminated, TerminateWorker 0, Reject ''a'' WorkerExited]"
proof -
  define es where "es = [Run ''a'', Run ''b'', Terminate, WorkerExit 0]"
  define r where "r = run_machine wp_step (wp_new 1 0) es"
  have "wp_terminated (fst r) \<and> wp_alive (fst r) = []"
    and "snd r = [Post 0 ''a'', Reject ''b'' PoolTerminated, TerminateWorker 0, Reject ''a'' WorkerExited]"
    unfolding r_def es_def by code_simp+
  moreover have "(fst r, snd r) = run_machine wp_step (wp_new 1 0) es" by (simp add: r_def)
  ultimately show ?thesis
    unfolding es_def [symmetric] using worker_pool_settles_every_run by metis
qed

lemma wp_finish_max: "wp_max_respawns (fst (wp_finish w out p)) = wp_max_respawns p"
  by (simp add: wp_finish_def split: option.split)

lemma wp_on_exit_max: "wp_max_respawns (fst (wp_on_exit w p)) = wp_max_respawns p"
  by (simp add: wp_on_exit_def wp_spawn_def wp_reject_all_waiters_def Let_def)

lemma wp_step_max: "wp_max_respawns (fst (wp_step p e)) = wp_max_respawns p"
  by (cases e) (simp_all add: wp_run_def wp_start_def wp_finish_max wp_on_exit_max wp_exit_def split_def
      wp_reject_all_waiters_def wp_terminate_def wp_terminate_end_def split: option.split)

lemma wp_run_max: "wp_max_respawns (fst (run_machine wp_step p es)) = wp_max_respawns p"
  by (induction es arbitrary: p) (simp_all add: wp_step_max)

lemma wp_spawn_all_max: "wp_max_respawns (wp_spawn_all ids q) = wp_max_respawns q"
  by (induction ids arbitrary: q) (auto simp: wp_spawn_def Let_def)

lemma wp_new_max: "wp_max_respawns (wp_new n m) = m"
  by (simp add: wp_new_def wp_spawn_all_max)

lemma wp_inv_bounds:
  assumes "wp_inv n p"
  shows "length (wp_workers p) \<le> n" "distinct (map (wp_id p) (wp_workers p))"
    and "wp_next p \<le> n * (wp_max_respawns p + 1)"
proof -
  have "card (wp_id p ` set (wp_workers p)) \<le> card {..<n}"
    by (rule card_mono) (use assms in \<open>auto simp: wp_inv_def wp_budget_def\<close>)
  then show "length (wp_workers p) \<le> n" "distinct (map (wp_id p) (wp_workers p))"
    using assms by (auto simp: wp_inv_def wp_budget_def wp_shape_def card_image distinct_card distinct_map)
  have "(\<Sum>i < n. wp_count p i) \<le> (\<Sum>i < n. wp_max_respawns p)"
    by (rule sum_mono) (use assms in \<open>auto simp: wp_inv_def wp_budget_def\<close>)
  with assms show "wp_next p \<le> n * (wp_max_respawns p + 1)" by (simp add: wp_inv_def wp_budget_def)
qed

text \<open>
  The pool keeps its workers busy and bounded. At any time a call waits only while no
  worker is idle and some worker is running a task, every busy worker runs one task and is not
  idle, at most \<open>workerCount\<close> workers are in the pool, with distinct ids, and at most
  \<open>workerCount * (maxRespawns + 1)\<close> threads have ever been created.
\<close>

theorem worker_pool_bounded:
  "let p = fst (run_machine wp_step (wp_new n m) es)
   in (wp_waiters p = [] \<or> wp_idle p = [] \<and> wp_running p \<noteq> [])
    \<and> distinct (map fst (wp_running p)) \<and> set (wp_idle p) \<inter> set (map fst (wp_running p)) = {}
    \<and> length (wp_workers p) \<le> n \<and> distinct (map (wp_id p) (wp_workers p))
    \<and> wp_next p \<le> n * (m + 1)"
proof -
  define p where "p = fst (run_machine wp_step (wp_new n m) es)"
  have inv: "wp_inv n p" unfolding p_def by (rule wp_run_from_new_inv)
  have "wp_max_respawns p = m" by (simp add: p_def wp_run_max wp_new_max)
  moreover have "wp_running p \<noteq> []" if "wp_waiters p \<noteq> []"
    using that inv by (auto simp: wp_inv_def wp_shape_def wp_served_def)
  ultimately show ?thesis
    using inv wp_inv_bounds [OF inv] unfolding p_def [symmetric] Let_def
    by (auto simp: wp_inv_def wp_shape_def key_set_def)
qed

text \<open>
  A worker thread that dies of an uncaught exception reports \<open>error\<close> before \<open>exit\<close>. The
  \<open>error\<close> listener of the \<open>run\<close> call releases the worker while it is still in the pool, so the
  next waiting call is handed to the dying thread and fails with it, although its replacement is
  idle right after.
\<close>

lemma dying_worker_fails_next_task:
  "run_machine wp_step (wp_new 1 1) [Run ''a'', Run ''b'', WorkerErrorEvent 0 v, WorkerExit 0] =
     (\<lparr>wp_max_respawns = 1, wp_workers = [1], wp_idle = [1], wp_waiters = [], wp_respawn_counts = [(0, 1)],
       wp_terminated = False, wp_ids = [(0, 0), (1, 0)], wp_alive = [1], wp_running = [], wp_next = 2\<rparr>,
      [Post 0 ''a'', Reject ''a'' (WorkerError v), Post 0 ''b'', Reject ''b'' WorkerExited])"
  by code_simp

end
