(* ===== verification/Prefetch_Optimizer.thy ===== *)
theory Prefetch_Optimizer
  imports Consume_Pipeline Worker_Pool
begin

text \<open>
  The two subscriptions of \<open>src/consumers/consumer-manager.js\<close> that wrap the plain one:
  \<open>subscribeWithOptimizedPrefetch\<close>, whose closure adapts the prefetch of its channel to the
  time the handlers take, and \<open>subscribeParallel\<close>, whose handler runs in a pool of workers.
  The prefetch in force on each channel is part of the state: it is what the last successful
  call of \<open>prefetch\<close> on that channel set. Numbers of the options are finite.
\<close>

section \<open>State of the optimizer\<close>

record prefetch_options =
  pf_initial :: rat
  pf_max :: rat
  pf_min :: rat
  pf_interval :: rat
  pf_increase :: rat
  pf_decrease :: rat

definition default_prefetch :: prefetch_options where
  "default_prefetch = \<lparr>pf_initial = 10, pf_max = 1000, pf_min = 1, pf_interval = 1000, pf_increase = 3 / 2, pf_decrease = 3 / 4\<rparr>"

text \<open>
  The closure's variables; the consumer it reads (its epoch, its channel, how many of its setups
  are in flight, on which channels they have set the prefetch), the prefetch in force per
  channel, and the runs of the optimizer that wait for a prefetch to be re-applied.
\<close>

record optimizer =
  op_current :: rat
  op_last :: rat
  op_times :: "rat list"
  op_known :: nat
  op_epoch :: nat
  op_channel :: nat
  op_setups :: nat
  op_prepared :: "nat list"
  op_force :: "(nat, rat) jsmap"
  op_waiting :: nat

datatype op_out = SetPrefetch nat rat

definition op_new :: "prefetch_options \<Rightarrow> rat \<Rightarrow> optimizer" where
  "op_new opts now = \<lparr>op_current = pf_initial opts, op_last = now, op_times = [], op_known = 1, op_epoch = 1, op_channel = 0,
     op_setups = 0, op_prepared = [], op_force = [(0, pf_initial opts)], op_waiting = 0\<rparr>"

section \<open>Operations\<close>

text \<open>A prefetch call that fails is logged and changes nothing.\<close>

definition apply_prefetch :: "bool \<Rightarrow> optimizer \<Rightarrow> optimizer \<times> op_out list" where
  "apply_prefetch ok s =
     (if ok then (s\<lparr>op_force := map_set (op_channel s) (op_current s) (op_force s)\<rparr>, [SetPrefetch (op_channel s) (op_current s)])
      else (s, []))"

text \<open>The sum of no times over their number is \<open>0 / 0\<close>, which is \<open>NaN\<close>.\<close>

definition average :: "rat list \<Rightarrow> jsnum" where
  "average ts = (if ts = [] then NaN else Fin (sum_list ts / of_nat (length ts)))"

definition new_prefetch :: "prefetch_options \<Rightarrow> jsnum \<Rightarrow> rat \<Rightarrow> rat" where
  "new_prefetch opts avg current =
     (if num_lt avg (Fin 100) \<and> current < pf_max opts then min (of_int \<lfloor>current * pf_increase opts\<rfloor>) (pf_max opts)
      else if num_lt (Fin 500) avg \<and> pf_min opts < current then max (of_int \<lfloor>current * pf_decrease opts\<rfloor>) (pf_min opts)
      else current)"

definition optimize_window :: "prefetch_options \<Rightarrow> rat \<Rightarrow> bool \<Rightarrow> optimizer \<Rightarrow> optimizer \<times> op_out list" where
  "optimize_window opts now ok s =
     (if now - op_last s < pf_interval opts then (s, [])
      else (let p = new_prefetch opts (average (op_times s)) (op_current s);
                s1 = s\<lparr>op_last := now, op_times := []\<rparr>
            in if p = op_current s then (s1, []) else apply_prefetch ok (s1\<lparr>op_current := p\<rparr>)))"

text \<open>
  \<open>optimizePrefetch\<close>: \<open>present\<close> says that the consumer is registered. The re-application is
  awaited; the rest of the run follows when its answer is there.
\<close>

definition optimize_prefetch :: "prefetch_options \<Rightarrow> bool \<Rightarrow> rat \<Rightarrow> bool \<Rightarrow> optimizer \<Rightarrow> optimizer \<times> op_out list" where
  "optimize_prefetch opts present now ok s =
     (if \<not> present then (s, [])
      else if op_epoch s \<noteq> op_known s
           then (let s1 = s\<lparr>op_known := op_epoch s\<rparr>
                 in if op_current s1 \<noteq> pf_initial opts then apply_prefetch ok (s1\<lparr>op_waiting := Suc (op_waiting s1)\<rparr>)
                    else optimize_window opts now ok s1)
           else optimize_window opts now ok s)"

section \<open>Events\<close>

text \<open>
  A handler ends after some time, in success or failure; the answer to a re-application arrives;
  a setup of the consumer (by a recovery or a recreation) bumps the epoch, sets the initial
  prefetch on its channel, a fresh one or the one the consumer has, and is then installed or
  fails, before or after the prefetch was set.
\<close>

datatype op_event =
    HandlerEnds rat bool bool rat bool
  | Reapplied rat bool
  | RecreationStarts
  | SetupSets nat
  | RecreationEnds nat
  | RecreationFails "nat option"

fun op_step :: "prefetch_options \<Rightarrow> optimizer \<Rightarrow> op_event \<Rightarrow> optimizer \<times> op_out list" where
  "op_step opts s (HandlerEnds duration returned present now ok) =
     (let s1 = s\<lparr>op_times := op_times s @ [duration]\<rparr>
      in if returned then optimize_prefetch opts present now ok s1 else (s1, []))"
| "op_step opts s (Reapplied now ok) =
     (case op_waiting s of 0 \<Rightarrow> (s, []) | Suc n \<Rightarrow> optimize_window opts now ok (s\<lparr>op_waiting := n\<rparr>))"
| "op_step opts s RecreationStarts = (s\<lparr>op_epoch := Suc (op_epoch s), op_setups := Suc (op_setups s)\<rparr>, [])"
| "op_step opts s (SetupSets ch) =
     (if length (op_prepared s) < op_setups s
      then (s\<lparr>op_prepared := ch # op_prepared s, op_force := map_set ch (pf_initial opts) (op_force s)\<rparr>, []) else (s, []))"
| "op_step opts s (RecreationEnds ch) =
     (if ch \<in> set (op_prepared s)
      then (s\<lparr>op_channel := ch, op_setups := op_setups s - 1, op_prepared := remove1 ch (op_prepared s)\<rparr>, []) else (s, []))"
| "op_step opts s (RecreationFails prepared) = (case prepared of
      Some ch \<Rightarrow> if ch \<in> set (op_prepared s)
        then (s\<lparr>op_setups := op_setups s - 1, op_prepared := remove1 ch (op_prepared s)\<rparr>, []) else (s, [])
    | None \<Rightarrow> if length (op_prepared s) < op_setups s then (s\<lparr>op_setups := op_setups s - 1\<rparr>, []) else (s, []))"

section \<open>The prefetch stays within its bounds\<close>

definition sane_options :: "prefetch_options \<Rightarrow> bool" where
  "sane_options opts \<longleftrightarrow> pf_initial opts \<in> \<int> \<and> pf_min opts \<in> \<int> \<and> pf_max opts \<in> \<int> \<and> 0 \<le> pf_min opts \<and>
     pf_min opts \<le> pf_initial opts \<and> pf_initial opts \<le> pf_max opts \<and> 1 \<le> pf_increase opts \<and> 0 \<le> pf_decrease opts \<and> pf_decrease opts \<le> 1"

abbreviation in_bounds :: "prefetch_options \<Rightarrow> rat \<Rightarrow> bool" where
  "in_bounds opts p \<equiv> p \<in> \<int> \<and> pf_min opts \<le> p \<and> p \<le> pf_max opts"

lemma prefetch_up_down:
  assumes "sane_options opts" "in_bounds opts p"
  shows "p \<le> of_int \<lfloor>p * pf_increase opts\<rfloor>" and "of_int \<lfloor>p * pf_decrease opts\<rfloor> \<le> p"
proof -
  from assms obtain i where p: "p = of_int i" by (auto elim: Ints_cases)
  have pos: "0 \<le> p" using assms by (auto simp: sane_options_def)
  have "p * 1 \<le> p * pf_increase opts" using pos assms(1) by (intro mult_left_mono) (auto simp: sane_options_def)
  then show "p \<le> of_int \<lfloor>p * pf_increase opts\<rfloor>" unfolding p by (simp add: le_floor_iff)
  have "p * pf_decrease opts \<le> p * 1" using pos assms(1) by (intro mult_left_mono) (auto simp: sane_options_def)
  then show "of_int \<lfloor>p * pf_decrease opts\<rfloor> \<le> p" using of_int_floor_le [of "p * pf_decrease opts"] by linarith
qed

lemma new_prefetch_bounds:
  assumes "sane_options opts" "in_bounds opts p"
  shows "in_bounds opts (new_prefetch opts avg p)"
    and "num_lt avg (Fin 100) \<Longrightarrow> p \<le> new_prefetch opts avg p"
    and "num_lt (Fin 500) avg \<Longrightarrow> new_prefetch opts avg p \<le> p"
proof -
  note up = prefetch_up_down(1) [OF assms] and down = prefetch_up_down(2) [OF assms]
  show "in_bounds opts (new_prefetch opts avg p)"
    using assms up down by (auto simp: new_prefetch_def sane_options_def min_def max_def)
  have excl: "num_lt avg (Fin 100) \<Longrightarrow> \<not> num_lt (Fin 500) avg" by (cases avg) auto
  show "num_lt avg (Fin 100) \<Longrightarrow> p \<le> new_prefetch opts avg p"
    using assms(2) up excl by (auto simp: new_prefetch_def)
  show "num_lt (Fin 500) avg \<Longrightarrow> new_prefetch opts avg p \<le> p"
    using assms(2) down excl by (auto simp: new_prefetch_def)
qed

definition op_inv :: "prefetch_options \<Rightarrow> optimizer \<Rightarrow> bool" where
  "op_inv opts s \<longleftrightarrow> sane_options opts \<and> in_bounds opts (op_current s)"

lemma apply_prefetch_inv: "op_inv opts s \<Longrightarrow> op_inv opts (fst (apply_prefetch ok s))"
  by (simp add: op_inv_def apply_prefetch_def)

lemma optimize_window_inv: "op_inv opts s \<Longrightarrow> op_inv opts (fst (optimize_window opts now ok s))"
  using new_prefetch_bounds(1) [of opts "op_current s"] by (auto simp: op_inv_def optimize_window_def apply_prefetch_def Let_def)

lemma op_step_inv: "op_inv opts s \<Longrightarrow> op_inv opts (fst (op_step opts s e))"
proof (cases e)
  case (HandlerEnds d r p now ok)
  assume "op_inv opts s"
  then have "op_inv opts (s\<lparr>op_times := t, op_known := k\<rparr>)" "op_inv opts (s\<lparr>op_times := t\<rparr>)" for t k
    by (simp_all add: op_inv_def)
  with HandlerEnds show ?thesis
    by (auto simp: optimize_prefetch_def Let_def optimize_window_inv) (simp add: op_inv_def apply_prefetch_def)
next
  case (Reapplied now ok)
  assume "op_inv opts s"
  then have "op_inv opts (s\<lparr>op_waiting := n\<rparr>)" for n by (simp add: op_inv_def)
  with Reapplied \<open>op_inv opts s\<close> show ?thesis by (simp add: optimize_window_inv split: nat.split)
qed (auto simp: op_inv_def split: option.split)

lemma op_step_sets: "op_inv opts s \<Longrightarrow> SetPrefetch ch p \<in> set (snd (op_step opts s e)) \<Longrightarrow> in_bounds opts p"
  using new_prefetch_bounds(1) [of opts "op_current s"]
  by (cases e) (auto simp: op_inv_def optimize_prefetch_def optimize_window_def apply_prefetch_def Let_def split: if_splits nat.splits option.splits)

interpretation opm: event_machine "op_step opts" "\<lambda>e. True" "op_inv opts" for opts
  by unfold_locales (rule op_step_inv)

text \<open>
  C25: The adapted prefetch stays within its bounds and moves the right way. With whole options
  where \<open>0 <= min <= initial <= max\<close> and factors that grow and shrink, whatever handlers end,
  fail, overlap and are recreated: the prefetch stays a whole number between \<open>minPrefetch\<close> and
  \<open>maxPrefetch\<close>, every value the optimizer sets on a channel is one, and a window of fast
  handlers (under 100 ms on average) never lowers it, one of slow handlers (over 500 ms) never
  raises it.
\<close>

theorem prefetch_within_bounds:
  fixes es :: "op_event list" and start :: rat and opts :: prefetch_options
  assumes "sane_options opts"
  defines "r \<equiv> run_machine (op_step opts) (op_new opts start) es"
  shows "in_bounds opts (op_current (fst r)) \<and> (\<forall>ch p. SetPrefetch ch p \<in> set (snd r) \<longrightarrow> in_bounds opts p) \<and>
    (num_lt (average ts) (Fin 100) \<longrightarrow> op_current (fst r) \<le> new_prefetch opts (average ts) (op_current (fst r))) \<and>
    (num_lt (Fin 500) (average ts) \<longrightarrow> new_prefetch opts (average ts) (op_current (fst r)) \<le> op_current (fst r))"
proof -
  have new: "op_inv opts (op_new opts start)" using assms(1) by (auto simp: op_inv_def op_new_def sane_options_def)
  then have "op_inv opts (fst r)" unfolding r_def by (rule opm.run_inv) (simp add: list_all_iff)
  then have "in_bounds opts (op_current (fst r))" by (simp add: op_inv_def)
  moreover have "in_bounds opts p" if set: "SetPrefetch ch p \<in> set (snd r)" for ch p
  proof -
    have safe: "\<forall>ch p. x = SetPrefetch ch p \<longrightarrow> in_bounds opts p" if "op_inv opts s" "x \<in> set (snd (op_step opts s e))" for s e x
      using op_step_sets [OF that(1)] that(2) by blast
    have "\<forall>c q. SetPrefetch ch p = SetPrefetch c q \<longrightarrow> in_bounds opts q"
    proof (rule opm.run_safe [of opts "\<lambda>x. \<forall>c q. x = SetPrefetch c q \<longrightarrow> in_bounds opts q" "op_new opts start" es "SetPrefetch ch p"])
      show "\<forall>c q. x = SetPrefetch c q \<longrightarrow> in_bounds opts q" if "op_inv opts s" "True" "x \<in> set (snd (op_step opts s e))" for s e x
        using safe [OF that(1,3)] .
    qed (use new set in \<open>simp_all add: list_all_iff r_def\<close>)
    then show ?thesis by blast
  qed
  ultimately show ?thesis using new_prefetch_bounds [OF assms(1)] by blast
qed

theorem prefetch_within_bounds_witness:
  "sane_options default_prefetch \<and>
   in_bounds default_prefetch (op_current (fst (run_machine (op_step default_prefetch) (op_new default_prefetch 0)
      [HandlerEnds 5 True True 1000 True, HandlerEnds 900 True True 2500 True])))"
proof -
  have "sane_options default_prefetch" by (simp add: sane_options_def default_prefetch_def)
  with prefetch_within_bounds [OF this, of 0] show ?thesis by blast
qed

section \<open>Belief and reality\<close>





lemma optimize_window_known [simp]:
  "op_known (fst (optimize_window opts now ok s)) = op_known s" "op_epoch (fst (optimize_window opts now ok s)) = op_epoch s"
  "op_setups (fst (optimize_window opts now ok s)) = op_setups s"
  by (simp_all add: optimize_window_def apply_prefetch_def Let_def)







text \<open>
  A handler that ends between the bump of the epoch and the installation of the new channel
  uses up the re-application on the dead channel: the optimizer goes on believing in 15 while
  the new channel runs with 10.
\<close>

theorem late_handler_loses_reapplication:
  "let q = fst (run_machine (op_step default_prefetch) (op_new default_prefetch 0)
       [HandlerEnds 5 True True 1000 True, RecreationStarts, HandlerEnds 5 True True 1200 False, SetupSets 1, RecreationEnds 1,
        HandlerEnds 5 True True 1500 True])
   in op_current q = 15 \<and> op_channel q = 1 \<and> map_get (op_force q) 1 = Some 10"
  by code_simp

text \<open>
  Once it has fallen to 1, its default minimum, the prefetch never grows again with the default
  factor: the floor of 1.5 is 1.
\<close>

theorem prefetch_stuck_at_one: "new_prefetch default_prefetch avg 1 = 1"
proof -
  have "\<lfloor>3 / 2 :: rat\<rfloor> = 1" by (simp add: floor_eq_iff)
  then show ?thesis by (simp add: new_prefetch_def default_prefetch_def)
qed

text \<open>
  While a run of the optimizer waits for its re-application another one may use up the window:
  the first then finds no samples, whose average is \<open>NaN\<close>, and only restarts the interval.
\<close>

theorem empty_window_reached:
  "let s = fst (run_machine (op_step default_prefetch) (op_new default_prefetch 0)
       [HandlerEnds 5 True True 1000 True, RecreationStarts, SetupSets 1, RecreationEnds 1, HandlerEnds 5 True True 1500 True,
        HandlerEnds 5 True True 2000 True])
   in op_waiting s = 1 \<and> op_times s = [] \<and> \<not> 3000 - op_last s < pf_interval default_prefetch \<and> average (op_times s) = NaN"
  by code_simp

section \<open>Parallel processing\<close>

text \<open>
  What the handler of \<open>subscribeParallel\<close> does with the outcome of the run in the pool, as the
  result of a handler that leaves the settlement to the library.
\<close>

definition parallel_error :: "jsval \<Rightarrow> jsval" where
  "parallel_error result =
     (case js_or (opt_prop result ''error'') (JStr ''Worker processing failed'') of
        JSym d \<Rightarrow> type_error
      | v \<Rightarrow> (case js_String v of Some text \<Rightarrow> error_object text | None \<Rightarrow> type_error))"

definition worker_failed :: "jsval \<Rightarrow> bool" where
  "worker_failed result \<longleftrightarrow> \<not> truthy result \<or> opt_prop result ''success'' = JBool False"

definition parallel_handler :: "jsval + jsval \<Rightarrow> handler_result" where
  "parallel_handler run = \<lparr>hr_ops = [], hr_error = (case run of
      Inl e \<Rightarrow> Some e
    | Inr result \<Rightarrow> if worker_failed result then Some (parallel_error result) else None)\<rparr>"

definition parallel_prefetch :: "rat \<Rightarrow> nat \<Rightarrow> rat" where
  "parallel_prefetch prefetch workers = prefetch * of_nat workers"

text \<open>
  A message processed in parallel is acknowledged exactly if its worker reported success. With
  content that decodes and a pool whose rejections can be described: the delivery is settled by
  one call, an ack if the run gave a truthy result that does not say \<open>success: false\<close>, and
  otherwise a nack with the requeue flag of the retry policy, also when the pool rejected the
  run.
\<close>

theorem parallel_ack_iff_worker_succeeded:
  assumes "\<not> sb_no_ack sub"
    and "decode (sb_platform sub) (sb_codec sub) (dl_content d) (truthy (dl_header d ''x-compressed'')) = Inr content"
    and "\<forall>e. run = Inl e \<longrightarrow> describable e"
  shows "broker_calls (snd (consume_delivery sub ch d (\<lambda>c m. parallel_handler run) None tm)) =
    [case run of
       Inl e \<Rightarrow> BrokerNack ch d (should_requeue d e (sb_policy sub))
     | Inr result \<Rightarrow> if worker_failed result then BrokerNack ch d (should_requeue d (parallel_error result) (sb_policy sub))
                    else BrokerAck ch d]"
proof -
  have "describable (error_object t)" for t
    by (simp add: describable_def describe_line_def describe_error_def js_simps)
  then have "describable (parallel_error result)" for result
    by (simp add: parallel_error_def describable_type_error split: jsval.split option.split)
  moreover have out: "delivery_outcome sub d (\<lambda>c m. parallel_handler run) = ([], hr_error (parallel_handler run))"
    using assms(2) by (simp add: delivery_outcome_def parallel_handler_def)
  ultimately have "\<forall>error. snd (delivery_outcome sub d (\<lambda>c m. parallel_handler run)) = Some error \<longrightarrow> describable error"
    using assms(3) by (auto simp: parallel_handler_def split: sum.splits if_splits)
  from consume_delivery_outcome [OF this, of ch None tm] assms(1) show ?thesis
    unfolding out by (auto simp: parallel_handler_def settle_ack_def attach_ack_controls_def split: sum.split)
qed

theorem parallel_ack_iff_worker_succeeded_witness:
  "broker_calls (snd (consume_delivery sample_subscription 3 (plain_delivery 7)
      (\<lambda>c m. parallel_handler (Inr (JObj True [(''success'', JBool False)]))) None sample_times)) =
     [BrokerNack 3 (plain_delivery 7) True]"
proof -
  have "\<not> sb_no_ack sample_subscription" by (simp add: sample_subscription_def)
  moreover have "worker_failed (JObj True [(''success'', JBool False)])" by code_simp
  moreover have "should_requeue (plain_delivery 7) (parallel_error (JObj True [(''success'', JBool False)])) (sb_policy sample_subscription)"
    by code_simp
  ultimately show ?thesis
    using parallel_ack_iff_worker_succeeded [OF _ sample_decode, of "Inr (JObj True [(''success'', JBool False)])" 3 sample_times] by simp
qed

end
