(* ===== verification/Accepted_Mutants.thy ===== *)
theory Accepted_Mutants
  imports Prefetch_Optimizer Channel_Pool Publisher Facade
begin

text \<open>
  \<open>stryker-mutation-policy.js\<close> lists mutations of the source that the project accepts as
  equivalent, each with an argument. Here some of these arguments are checked: a mutated twin
  of an operation is the operation with the mutation, and is shown to agree with it, or a
  state is given in which it does not.
\<close>

section \<open>Twins\<close>

text \<open>Token bucket: \<open>tokensToAdd >= 0\<close>.\<close>

definition tb_refill_at_zero :: "'k token_bucket \<Rightarrow> rat \<Rightarrow> tb_bucket \<Rightarrow> tb_bucket" where
  "tb_refill_at_zero s now b =
     (let tokens_to_add = (now - tb_last_refill b) * tb_rate s
      in if tokens_to_add \<ge> 0
         then \<lparr>tb_tokens = min (tb_size s) (tb_tokens b + tokens_to_add), tb_last_refill = now\<rparr>
         else b)"

text \<open>
  Fixed window: the default of an absent counter is an empty object. Its window start is
  \<open>undefined\<close>, which differs from every number, and its count is never read before it is set.
\<close>

definition fw_roll_emptied :: "rat \<Rightarrow> (rat \<times> rat) option \<Rightarrow> fw_counter" where
  "fw_roll_emptied ws c = (case c of
      Some (used, t) \<Rightarrow> if t \<noteq> ws then \<lparr>fw_count = 0, fw_start = ws\<rparr> else \<lparr>fw_count = used, fw_start = t\<rparr>
    | None \<Rightarrow> \<lparr>fw_count = 0, fw_start = ws\<rparr>)"

definition fw_check_emptied :: "'k \<Rightarrow> rat \<Rightarrow> rat \<Rightarrow> 'k fixed_window \<Rightarrow> 'k fixed_window \<times> rat option" where
  "fw_check_emptied key cost now s =
     (let ws = fw_window_start (fw_window_ms s) now;
          found = map_get (fw_counters s) key;
          counter = fw_roll_emptied ws (map_option (\<lambda>c. (fw_count c, fw_start c)) found);
          s1 = (case found of
                  Some _ \<Rightarrow> s\<lparr>fw_counters := map_set key counter (fw_counters s)\<rparr>
                | None \<Rightarrow> s)
      in if fw_count counter + cost > fw_max_requests s then (s1, None)
         else (s1\<lparr>fw_counters := map_set key (counter\<lparr>fw_count := fw_count counter + cost\<rparr>) (fw_counters s1)\<rparr>, Some 0))"

text \<open>Retry policy: without the early return for \<open>'none'\<close>, whose \<open>attempts\<close> are \<open>undefined\<close>.\<close>

definition budget_of :: "retry_policy \<Rightarrow> jsnum" where
  "budget_of policy = (case policy of PolicyAttempts n \<Rightarrow> Fin (of_nat n) | _ \<Rightarrow> NaN)"

definition should_requeue_falling_through :: "delivery \<Rightarrow> jsval \<Rightarrow> retry_policy \<Rightarrow> bool" where
  "should_requeue_falling_through message error policy =
     (if opt_prop error ''retryable'' = JBool False then False
      else if policy = PolicyOnce then \<not> dl_redelivered message
      else case js_Number (dl_header message ''x-delivery-count'') of
             Fin delivery_count \<Rightarrow> num_lt (Fin (delivery_count + 1)) (budget_of policy)
           | _ \<Rightarrow> if \<not> dl_redelivered message then num_lt (Fin 1) (budget_of policy) else False)"

text \<open>Priority: the range check without \<open>priority !== undefined\<close>.\<close>

definition validate_priority_unguarded :: "publish_options \<Rightarrow> publisher \<Rightarrow> jsval option" where
  "validate_priority_unguarded options pb =
     (if num_lt (js_Number (po_priority options)) (Fin 0) \<or> num_lt (pb_max_priority pb) (js_Number (po_priority options))
      then Some (error_object (''Invalid priority value. Must be between 0 and '' @ num_str (pb_max_priority pb))) else None)"

text \<open>Reconnection: the budget without \<open>maxReconnectAttempts !== Infinity\<close>.\<close>

definition attempts_spent_unguarded :: "connection \<Rightarrow> bool" where
  "attempts_spent_unguarded p = num_le (cn_max_attempts p) (Fin (of_nat (cn_attempt p)))"

text \<open>Channel pool: a ring scan of one more slot.\<close>

definition get_channel_longer :: "channel_pool \<Rightarrow> channel_pool \<times> (string + nat)" where
  "get_channel_longer p =
     (if cp_channels p = [] then (p, Inl ''Channel pool is not initialized'')
      else case next_channel (Suc (length (cp_channels p))) p of
             (p1, Some ch) \<Rightarrow> (p1, Inr ch)
           | (p1, None) \<Rightarrow> (p1, Inl ''No usable channels available in the pool''))"

text \<open>Prefetch: the new value without the operands that compare with the bounds.\<close>

definition new_prefetch_uncapped :: "prefetch_options \<Rightarrow> jsnum \<Rightarrow> rat \<Rightarrow> rat" where
  "new_prefetch_uncapped opts avg current =
     (if num_lt avg (Fin 100) then min (of_int \<lfloor>current * pf_increase opts\<rfloor>) (pf_max opts)
      else if num_lt (Fin 500) avg then max (of_int \<lfloor>current * pf_decrease opts\<rfloor>) (pf_min opts)
      else current)"

text \<open>Connection: one operand of \<open>state === 'connected' && #connection\<close>, and its disjunction.\<close>

definition do_connect_if :: "bool \<Rightarrow> connection \<Rightarrow> connection \<times> cn_out list" where
  "do_connect_if there p =
     (if there then settle_connect (cn_conn p) p
      else chain (set_connection_state Connecting (p\<lparr>cn_shutting := False\<rparr>)) (dial_endpoint 0))"

text \<open>Restoration: the slot is given up whoever owns it.\<close>

definition restore_settled_unowned :: "nat \<Rightarrow> jsval + unit \<Rightarrow> facade \<Rightarrow> facade \<times> fa_out list" where
  "restore_settled_unowned rid r s = (case map_get (fa_restores s) rid of
      None \<Rightarrow> (s, [])
    | Some rt \<Rightarrow> restore_all_go_on r (rt_waiters rt) (s\<lparr>fa_restores := map_del rid (fa_restores s), fa_restore := None\<rparr>))"

section \<open>Those that agree\<close>

text \<open>
  The lemmas \<open>_same\<close>, each under the condition its statement names: the refill of a token
  bucket at \<open>>= 0\<close>, with a positive rate and a bucket within its size; the emptied default of a
  fixed window; the retry decision without the early return for \<open>'none'\<close>; the priority check
  without its guard for \<open>undefined\<close>; the reconnection budget without its guard for \<open>Infinity\<close>;
  the answer, not the cursor, of a ring scan of one more slot; the prefetch without its cap
  operands, while it is within whole bounds; and \<open>connect\<close> on a connection that keeps its
  invariant, where a connected state implies a connection.
\<close>

lemma next_channel_split:
  "next_channel (n + m) p = (case next_channel n p of (p1, Some ch) \<Rightarrow> (p1, Some ch) | (p1, None) \<Rightarrow> next_channel m p1)"
  by (induction n arbitrary: p) (simp_all add: Let_def split: option.split)

lemma next_channel_none:
  assumes "cp_channels p \<noteq> []" "cp_index p < length (cp_channels p)" "next_channel n p = (p1, None)"
  shows "cp_channels p1 = cp_channels p \<and> cp_index p1 = (cp_index p + n) mod length (cp_channels p) \<and>
    (\<forall>j < n. cp_channels p ! ((cp_index p + j) mod length (cp_channels p)) = None)"
  using assms
proof (induction n arbitrary: p)
  case (Suc n)
  let ?q = "p\<lparr>cp_index := (cp_index p + 1) mod length (cp_channels p)\<rparr>"
  have none: "cp_channels p ! cp_index p = None" and rest: "next_channel n ?q = (p1, None)"
    using Suc.prems(3) by (simp_all add: Let_def split: option.splits)
  have "cp_index ?q < length (cp_channels ?q)" using Suc.prems(1) by simp
  from Suc.IH [OF _ this rest] Suc.prems(1)
  have IH: "cp_channels p1 = cp_channels p" "cp_index p1 = (cp_index p + 1 + n) mod length (cp_channels p)"
    "\<forall>j < n. cp_channels p ! ((cp_index p + 1 + j) mod length (cp_channels p)) = None"
    by (simp_all add: mod_add_left_eq)
  have "cp_channels p ! ((cp_index p + j) mod length (cp_channels p)) = None" if "j < Suc n" for j
    using that none Suc.prems(2) IH(3) by (cases j) simp_all
  with IH show ?case by simp
qed simp

lemma get_channel_longer_same:
  assumes "cp_index p < length (cp_channels p)"
  shows "snd (get_channel_longer p) = snd (get_channel p)"
proof -
  let ?n = "length (cp_channels p)"
  obtain p1 r where r: "next_channel ?n p = (p1, r)" by fastforce
  have "next_channel (Suc ?n) p = (case r of Some ch \<Rightarrow> (p1, Some ch) | None \<Rightarrow> next_channel 1 p1)"
    by (simp only: Suc_eq_plus1 next_channel_split r prod.case)
  moreover have "snd (next_channel 1 p1) = None" if "r = None"
  proof -
    have ne: "cp_channels p \<noteq> []" using assms by auto
    from next_channel_none [OF ne assms r [unfolded that]]
    have "cp_channels p1 ! cp_index p1 = None" using assms ne by (metis add_0_right length_greater_0_conv mod_add_self2 mod_less)
    then show ?thesis by (simp add: Let_def)
  qed
  ultimately show ?thesis
    using r by (cases r) (auto simp: get_channel_longer_def get_channel_def split_def simp del: next_channel.simps split: option.split)
qed

lemma new_prefetch_uncapped_same:
  assumes "sane_options opts" "in_bounds opts current"
  shows "new_prefetch_uncapped opts avg current = new_prefetch opts avg current"
proof -
  note prefetch_up_down [OF assms]
  moreover have "\<not> (num_lt avg (Fin 100) \<and> num_lt (Fin 500) avg)" by (cases avg) auto
  ultimately show ?thesis
    using assms(2) by (auto simp: new_prefetch_uncapped_def new_prefetch_def)
qed

lemma fw_roll_emptied_same:
  "fw_roll_emptied ws (map_option (\<lambda>c. (fw_count c, fw_start c)) found) =
     fw_roll ws (case found of Some c \<Rightarrow> c | None \<Rightarrow> \<lparr>fw_count = 0, fw_start = ws\<rparr>)"
  by (cases found) (simp_all add: fw_roll_emptied_def fw_roll_def)

lemma fw_check_emptied_same: "fw_check_emptied k c t s = fw_check k c t s"
  by (simp only: fw_check_emptied_def fw_check_def fw_roll_emptied_same)

lemma tb_refill_at_zero_same:
  assumes "0 < tb_rate s" "tb_bucket_ok (tb_size s) b"
  shows "tb_refill_at_zero s now b = tb_refill s now b"
proof (cases "(now - tb_last_refill b) * tb_rate s = 0")
  case True
  then have "now = tb_last_refill b" using assms(1) by simp
  then show ?thesis using assms(2) by (simp add: tb_refill_at_zero_def tb_refill_def tb_bucket_ok_def)
qed (auto simp: tb_refill_at_zero_def tb_refill_def Let_def)

lemma should_requeue_falling_through_same: "should_requeue_falling_through d e policy = should_requeue d e policy"
  by (cases policy) (auto simp: should_requeue_falling_through_def should_requeue_def budget_of_def split: jsnum.split)

lemma validate_priority_unguarded_same: "validate_priority_unguarded options pb = validate_priority options pb"
  by (cases "po_priority options"; cases "pb_max_priority pb") (auto simp: validate_priority_unguarded_def validate_priority_def)

lemma attempts_spent_unguarded_same: "attempts_spent_unguarded p = attempts_spent p"
  by (cases "cn_max_attempts p") (simp_all add: attempts_spent_unguarded_def attempts_spent_def)

lemma do_connect_if_same: "cn_inv p \<Longrightarrow> do_connect_if (cn_state p = Connected) p = do_connect p"
  by (auto simp: do_connect_if_def do_connect_def cn_inv_def connected_ok_def)

section \<open>Those that do not\<close>

text \<open>
  The ownership check when a restoration settles is said to need a caller that cannot exist.
  The connection is lost while the first restoration builds its pool, the second builds on the
  new connection, and the first one fails late: without the check the next \<open>connect\<close> starts a
  third restoration beside the second, on the same connection; with it \<open>connect\<close> joins.
\<close>

theorem ownership_check_matters:
  "let s = fst (run_machine fa_step facade_sample
         [FacadeConnect 0 False None, LinkDialOk, LinkLost 0, LinkTimer, LinkDialOk]);
       e = error_object ''late''
   in snd (fa_step (fst (fa_step s (RestoreAnswer 0 (Some e)))) (FacadeConnect 1 False None)) = [] \<and>
     map_option rt_stage (map_get (fa_restores s) 1) = Some (RestoreBuilding 1) \<and>
     snd (fa_step (fst (restore_settled_unowned 0 (Inl e) s)) (FacadeConnect 1 False None)) = [InitPool 2 1]"
  by code_simp

text \<open>
  The operands \<open>state === 'connected'\<close> and \<open>#connection\<close> are said never to disagree. While
  \<open>disconnect\<close> awaits the closing, the connection is set in another state: the disjunction
  hands a \<open>connect\<close> that comes then the connection that is being closed.
\<close>

theorem connected_operands_disagree:
  "let p = fst (run_machine cn_step cn_sample [Connect 0, DialOk, Disconnect]);
       q = p\<lparr>cn_waiters := [User 1]\<rparr>
   in cn_state p = Disconnecting \<and> cn_conn p = Some 0 \<and> ConnectResult 1 (Some 0) \<notin> set (snd (do_connect q)) \<and>
     snd (do_connect_if (cn_state q = Connected \<or> cn_conn q \<noteq> None) q) = [ConnectResult 1 (Some 0)]"
  by code_simp

text \<open>
  The cap operands of the prefetch are said only to save arithmetic. An initial prefetch above
  the maximum stays as it is under fast handlers, and without the operand falls to the maximum.
\<close>

theorem prefetch_caps_matter:
  "let opts = default_prefetch\<lparr>pf_initial := 200, pf_max := 100\<rparr>
   in new_prefetch opts (Fin 50) (pf_initial opts) = 200 \<and> new_prefetch_uncapped opts (Fin 50) (pf_initial opts) = 100"
  by (simp add: Let_def default_prefetch_def new_prefetch_def new_prefetch_uncapped_def)

text \<open>
  The ring scan of one more slot is said not to find another channel nor to change the throw. It
  leaves the cursor one slot further: once the slots of an exhausted pool are filled again, the
  next \<open>getChannel\<close> hands out another channel.
\<close>

theorem longer_scan_moves_cursor:
  "let p = (cp_new 2)\<lparr>cp_channels := [None, None]\<rparr>;
       next_after = (\<lambda>q. snd (get_channel (q\<lparr>cp_channels := [Some 5, Some 6]\<rparr>)))
   in next_after (fst (get_channel p)) = Inr 5 \<and> next_after (fst (get_channel_longer p)) = Inr 6"
  by code_simp

end
