(* ===== verification/Mutation_Policy.thy ===== *)
theory Mutation_Policy
  imports Prelude "HOL-Library.Char_ord" "HOL-Library.List_Lexorder"
begin

text \<open>
  The matchers of \<open>stryker-mutation-policy.js\<close>: which nodes of a syntax tree the mutation tool
  leaves alone. A tree has the node types the matchers ask for, every other type is
  \<open>OtherNode\<close>. A path is a node with the way back to the root: each enclosing node with the
  index of the child taken, so that two equal subtrees at different places differ as paths, as
  the objects of the source do.
\<close>

section \<open>Syntax trees and paths\<close>

datatype ast =
    Identifier string
  | PrivateName string
  | StringLiteral string
  | TemplateLiteral "ast list"
  | MemberExpression ast bool ast
  | OptionalMemberExpression ast bool ast
  | CallExpression ast "ast list"
  | OptionalCallExpression ast "ast list"
  | ExpressionStatement ast
  | ObjectProperty bool ast ast
  | ObjectMethod bool ast "ast list"
  | ObjectExpression "ast list"
  | LogicalExpression string ast ast
  | OtherNode string "ast list"

fun children :: "ast \<Rightarrow> ast list" where
  "children (TemplateLiteral ns) = ns"
| "children (MemberExpression object _ property) = [object, property]"
| "children (OptionalMemberExpression object _ property) = [object, property]"
| "children (CallExpression callee args) = callee # args"
| "children (OptionalCallExpression callee args) = callee # args"
| "children (ExpressionStatement expression) = [expression]"
| "children (ObjectProperty _ key value) = [key, value]"
| "children (ObjectMethod _ key ns) = key # ns"
| "children (ObjectExpression properties) = properties"
| "children (LogicalExpression _ left right) = [left, right]"
| "children (OtherNode _ ns) = ns"
| "children _ = []"

datatype path = Path (pt_node: ast) (pt_ups: "(ast \<times> nat) list")

fun parent_path :: "path \<Rightarrow> path option" where
  "parent_path (Path n []) = None"
| "parent_path (Path n ((m, i) # us)) = Some (Path m us)"

text \<open>\<open>path.findParent\<close>: the nearest enclosing node that satisfies a predicate.\<close>

fun find_parent :: "(ast \<Rightarrow> bool) \<Rightarrow> (ast \<times> nat) list \<Rightarrow> path option" where
  "find_parent P [] = None"
| "find_parent P ((m, i) # us) = (if P m then Some (Path m us) else find_parent P us)"

fun is_call :: "ast \<Rightarrow> bool" where
  "is_call (CallExpression _ _) = True"
| "is_call _ = False"

fun is_optional_call :: "ast \<Rightarrow> bool" where
  "is_optional_call (OptionalCallExpression _ _) = True"
| "is_optional_call _ = False"

fun is_string :: "ast \<Rightarrow> bool" where
  "is_string (StringLiteral _) = True"
| "is_string _ = False"

fun is_text :: "ast \<Rightarrow> bool" where
  "is_text (StringLiteral _) = True"
| "is_text (TemplateLiteral _) = True"
| "is_text _ = False"

text \<open>\<open>node.callee\<close>, and \<open>node.key?.name\<close>.\<close>

fun callee_of :: "ast \<Rightarrow> ast option" where
  "callee_of (CallExpression callee _) = Some callee"
| "callee_of (OptionalCallExpression callee _) = Some callee"
| "callee_of _ = None"

fun name_of :: "ast \<Rightarrow> string option" where
  "name_of (Identifier x) = Some x"
| "name_of _ = None"

fun key_name :: "ast \<Rightarrow> string option" where
  "key_name (ObjectProperty _ key _) = name_of key"
| "key_name (ObjectMethod _ key _) = name_of key"
| "key_name _ = None"


section \<open>The matchers\<close>

text \<open>The reasons the matchers give, each a sentence of the source, all of them truthy.\<close>

datatype reason =
    PhrasingIsNotContract
  | RemovalIsPhrasing
  | LabelIsPhrasing
  | SuccessLogIsPhrasing
  | EncodingIsUtf8
  | BreakerNameInternal
  | DefaultIsRepaired

definition log_methods :: "string list" where
  "log_methods = [''info'', ''warn'', ''error'', ''debug'']"

definition logger_property :: "ast \<Rightarrow> bool" where
  "logger_property property = (case property of
      Identifier x \<Rightarrow> x = ''logger''
    | PrivateName x \<Rightarrow> x = ''logger''
    | _ \<Rightarrow> False)"

fun is_logger_object :: "ast \<Rightarrow> bool" where
  "is_logger_object (Identifier x) = (x = ''logger'')"
| "is_logger_object (MemberExpression _ _ property) = logger_property property"
| "is_logger_object (OptionalMemberExpression _ _ property) = logger_property property"
| "is_logger_object _ = False"

definition is_logger_method :: "ast \<Rightarrow> ast \<Rightarrow> bool" where
  "is_logger_method object method = (case method of
      Identifier x \<Rightarrow> if x \<notin> set log_methods then False else is_logger_object object
    | _ \<Rightarrow> False)"

definition is_logger_call :: "ast \<Rightarrow> bool" where
  "is_logger_call node = (case callee_of node of
      Some (MemberExpression object _ method) \<Rightarrow> is_logger_method object method
    | Some (OptionalMemberExpression object _ method) \<Rightarrow> is_logger_method object method
    | _ \<Rightarrow> False)"

definition log_string :: "path \<Rightarrow> reason option" where
  "log_string p =
     (if \<not> is_text (pt_node p) then None
      else case find_parent (\<lambda>m. is_call m \<or> is_optional_call m) (pt_ups p) of
          Some call \<Rightarrow> if is_logger_call (pt_node call) then Some PhrasingIsNotContract else None
        | None \<Rightarrow> None)"

definition log_call_rule :: "path \<Rightarrow> reason option" where
  "log_call_rule p =
     (let call = (case pt_node p of ExpressionStatement expression \<Rightarrow> expression | node \<Rightarrow> node)
      in if \<not> is_call call \<and> \<not> is_optional_call call then None
         else if is_logger_call call then Some RemovalIsPhrasing
         else None)"

definition detached_label :: "path \<Rightarrow> reason option" where
  "detached_label p =
     (if \<not> is_text (pt_node p) then None
      else case find_parent is_call (pt_ups p) of
          Some call \<Rightarrow> if callee_of (pt_node call) = Some (Identifier ''detached'') then Some LabelIsPhrasing else None
        | None \<Rightarrow> None)"

definition success_log_hook :: "path \<Rightarrow> reason option" where
  "success_log_hook p = (case pt_node p of
      ObjectProperty _ key _ \<Rightarrow> if key = Identifier ''successLog'' then Some SuccessLogIsPhrasing else None
    | _ \<Rightarrow> None)"

text \<open>
  \<open>args[1] === path.node\<close> compares objects: the node is the child of the call at index 2, after
  the callee and the first argument.
\<close>

definition is_buffer_from :: "ast \<Rightarrow> bool" where
  "is_buffer_from callee = (case callee of
      MemberExpression object _ property \<Rightarrow> object = Identifier ''Buffer'' \<and> property = Identifier ''from''
    | _ \<Rightarrow> False)"

definition buffer_encoding :: "path \<Rightarrow> reason option" where
  "buffer_encoding p =
     (if \<not> is_string (pt_node p) then None
      else case pt_ups p of
          (CallExpression callee args, i) # _ \<Rightarrow> if is_buffer_from callee \<and> i = 2 then Some EncodingIsUtf8 else None
        | _ \<Rightarrow> None)"

definition breaker_name :: "path \<Rightarrow> reason option" where
  "breaker_name p = (case pt_node p of
      ObjectProperty _ key _ \<Rightarrow>
        if key \<noteq> Identifier ''name'' then None
        else (case find_parent is_call (pt_ups p) of
            Some call \<Rightarrow> if callee_of (pt_node call) = Some (Identifier ''circuitBreaker'') then Some BreakerNameInternal else None
          | None \<Rightarrow> None)
    | _ \<Rightarrow> None)"

text \<open>\<open>sort()\<close> of the keys' names: by characters, \<open>undefined\<close> last.\<close>

definition sort_names :: "string option list \<Rightarrow> string option list" where
  "sort_names xs = map Some (sort (List.map_filter id xs)) @ filter (\<lambda>x. x = None) xs"

definition repaired_window_counter :: "path \<Rightarrow> reason option" where
  "repaired_window_counter p = (case pt_node p of
      ObjectExpression properties \<Rightarrow>
        (let ks = sort_names (map key_name properties)
         in if ks = [Some ''count'', Some ''windowStart''] \<and>
               (case pt_ups p of (LogicalExpression _ _ _, _) # _ \<Rightarrow> True | _ \<Rightarrow> False)
            then Some DefaultIsRepaired else None)
    | _ \<Rightarrow> None)"

type_synonym rule = "path \<Rightarrow> reason option"

definition policy_rules :: "rule list" where
  "policy_rules = [log_string, log_call_rule, detached_label, success_log_hook, buffer_encoding, breaker_name, repaired_window_counter]"

text \<open>\<open>shouldIgnore\<close>: the first reason given.\<close>

fun should_ignore_by :: "rule list \<Rightarrow> path \<Rightarrow> reason option" where
  "should_ignore_by [] p = None"
| "should_ignore_by (rule # rules) p = (case rule p of Some reason \<Rightarrow> Some reason | None \<Rightarrow> should_ignore_by rules p)"

definition should_ignore :: "path \<Rightarrow> reason option" where
  "should_ignore p = should_ignore_by policy_rules p"

text \<open>
  A mutant is left out when its node or a node around it is ignored: ignoring covers the whole
  subtree.
\<close>

fun left_out_at :: "rule list \<Rightarrow> ast \<Rightarrow> (ast \<times> nat) list \<Rightarrow> bool" where
  "left_out_at rules n [] = (should_ignore_by rules (Path n []) \<noteq> None)"
| "left_out_at rules n ((m, i) # us) = (should_ignore_by rules (Path n ((m, i) # us)) \<noteq> None \<or> left_out_at rules m us)"

definition left_out :: "rule list \<Rightarrow> path \<Rightarrow> bool" where
  "left_out rules p = left_out_at rules (pt_node p) (pt_ups p)"


section \<open>The paths of a program\<close>

definition child_paths :: "path \<Rightarrow> path list" where
  "child_paths p = map (\<lambda>(i, c). Path c ((pt_node p, i) # pt_ups p)) (List.enumerate 0 (children (pt_node p)))"

lemma child_smaller: "c \<in> set (children n) \<Longrightarrow> size c < size n"
  by (cases n) (auto dest: size_list_estimation' [where f = size, OF _ order_refl] simp: less_Suc_eq_le)

lemma child_path_node:
  assumes "q \<in> set (child_paths p)"
  shows "pt_node q \<in> set (children (pt_node p))" "\<exists>i. pt_ups q = (pt_node p, i) # pt_ups p"
  using assms by (auto simp: child_paths_def in_set_enumerate_eq)

function all_paths :: "path \<Rightarrow> path list" where
  "all_paths p = p # concat (map all_paths (child_paths p))"
  by pat_completeness auto

termination
  by (relation "measure (\<lambda>p. size (pt_node p))") (auto dest: child_path_node(1) child_smaller)

declare all_paths.simps [simp del]

definition program_paths :: "ast \<Rightarrow> path list" where
  "program_paths program = all_paths (Path program [])"

section \<open>What is left out\<close>

text \<open>The paths of a program hold nodes of the program only, around them as well as below.\<close>

definition inside :: "ast set \<Rightarrow> path \<Rightarrow> bool" where
  "inside N p \<longleftrightarrow> pt_node p \<in> N \<and> fst ` set (pt_ups p) \<subseteq> N"

lemma all_paths_self: "p \<in> set (all_paths p)"
  by (subst all_paths.simps) simp

lemma all_paths_child:
  assumes "q \<in> set (all_paths p)" "r \<in> set (child_paths q)"
  shows "r \<in> set (all_paths p)"
  using assms
proof (induction p rule: all_paths.induct)
  case (1 p)
  from \<open>q \<in> set (all_paths p)\<close> consider "q = p" | c where "c \<in> set (child_paths p)" "q \<in> set (all_paths c)"
    by (subst (asm) all_paths.simps) auto
  then show ?case
  proof cases
    case 1
    then show ?thesis using \<open>r \<in> set (child_paths q)\<close> all_paths_self by (subst all_paths.simps) auto
  next
    case 2
    then show ?thesis using "1.IH" \<open>r \<in> set (child_paths q)\<close> by (subst all_paths.simps) auto
  qed
qed

lemma all_paths_inside:
  assumes "p \<in> set (all_paths r)" "inside N r" "\<And>n. n \<in> N \<Longrightarrow> set (children n) \<subseteq> N"
  shows "inside N p"
  using assms(1,2)
proof (induction r rule: all_paths.induct)
  case (1 r)
  from \<open>p \<in> set (all_paths r)\<close> consider "p = r" | c where "c \<in> set (child_paths r)" "p \<in> set (all_paths c)"
    by (subst (asm) all_paths.simps) auto
  then show ?case
  proof cases
    case 2
    then have "inside N c" using child_path_node [of c r] \<open>inside N r\<close> assms(3) by (fastforce simp: inside_def)
    with 2 show ?thesis using "1.IH" by blast
  qed (use 1 in simp)
qed

definition program_nodes :: "ast \<Rightarrow> ast list" where
  "program_nodes program = map pt_node (program_paths program)"

lemma program_nodes_children:
  assumes "n \<in> set (program_nodes program)"
  shows "set (children n) \<subseteq> set (program_nodes program)"
proof
  fix c assume "c \<in> set (children n)"
  obtain p where p: "p \<in> set (program_paths program)" "n = pt_node p"
    using assms by (auto simp: program_nodes_def)
  obtain i where "i < length (children n)" "c = children n ! i"
    using \<open>c \<in> set (children n)\<close> by (metis in_set_conv_nth)
  then have "Path c ((n, i) # pt_ups p) \<in> set (child_paths p)"
    by (force simp: child_paths_def p(2) in_set_enumerate_eq)
  then have "Path c ((n, i) # pt_ups p) \<in> set (program_paths program)"
    using p(1) all_paths_child unfolding program_paths_def by blast
  then show "c \<in> set (program_nodes program)" by (force simp: program_nodes_def)
qed

lemma program_paths_inside:
  assumes "p \<in> set (program_paths program)"
  shows "inside (set (program_nodes program)) p"
proof -
  have "inside (set (program_nodes program)) (Path program [])"
    using all_paths_self by (force simp: inside_def program_nodes_def program_paths_def)
  then show ?thesis
    using assms all_paths_inside program_nodes_children unfolding program_paths_def by blast
qed

text \<open>The names one of which every matcher asks for.\<close>

definition policy_names :: "string list" where
  "policy_names = [''logger'', ''detached'', ''successLog'', ''Buffer'', ''circuitBreaker'', ''windowStart'']"

fun names_policy :: "ast \<Rightarrow> bool" where
  "names_policy (Identifier x) = (x \<in> set policy_names)"
| "names_policy (PrivateName x) = (x \<in> set policy_names)"
| "names_policy _ = False"

definition unnamed :: "ast set \<Rightarrow> bool" where
  "unnamed N \<longleftrightarrow> (\<forall>n \<in> N. \<not> names_policy n \<and> set (children n) \<subseteq> N)"

lemma find_parent_inside:
  "find_parent P us = Some q \<Longrightarrow> fst ` set us \<subseteq> N \<Longrightarrow> pt_node q \<in> N \<and> P (pt_node q)"
  by (induction us) (auto split: if_splits)

lemma unnamed_child: "unnamed N \<Longrightarrow> n \<in> N \<Longrightarrow> c \<in> set (children n) \<Longrightarrow> c \<in> N \<and> \<not> names_policy c"
  by (auto simp: unnamed_def)

lemma unnamed_around:
  "unnamed N \<Longrightarrow> n \<in> N \<Longrightarrow> \<not> names_policy n \<and> list_all (\<lambda>c. c \<in> N \<and> \<not> names_policy c) (children n)"
  by (auto simp: unnamed_def list_all_iff)

lemma unnamed_property: "\<not> names_policy n \<Longrightarrow> \<not> logger_property n"
  by (cases n) (auto simp: logger_property_def policy_names_def)

lemma unnamed_logger_object: "unnamed N \<Longrightarrow> n \<in> N \<Longrightarrow> \<not> is_logger_object n"
  using unnamed_around [of N n] by (cases n) (auto simp: policy_names_def dest: unnamed_property)

lemma unnamed_logger_method: "unnamed N \<Longrightarrow> n \<in> N \<Longrightarrow> \<not> is_logger_method n m"
  by (auto simp: is_logger_method_def dest: unnamed_logger_object split: ast.splits)

lemma unnamed_logger_call:
  assumes "unnamed N" "n \<in> N"
  shows "\<not> is_logger_call n"
proof (cases "callee_of n")
  case (Some c)
  then have "c \<in> N" using unnamed_around [OF assms] by (cases n) auto
  then show ?thesis
    using unnamed_around [OF assms(1), of c] unnamed_logger_method [OF assms(1)]
    by (auto simp: is_logger_call_def Some split: ast.splits)
qed (simp add: is_logger_call_def)

lemma key_name_child: "key_name n = Some x \<Longrightarrow> Identifier x \<in> set (children n)"
  by (cases n) (auto simp: name_of.simps elim!: name_of.elims)

lemma sort_names_set: "set (sort_names xs) = set xs"
  by (force simp: sort_names_def map_filter_def)

lemma unnamed_rules:
  assumes "unnamed N" "inside N p"
  shows "log_string p = None" "log_call_rule p = None" "detached_label p = None" "success_log_hook p = None"
    "buffer_encoding p = None" "breaker_name p = None" "repaired_window_counter p = None"
proof -
  have ups: "fst ` set (pt_ups p) \<subseteq> N" and node: "pt_node p \<in> N" using assms(2) by (auto simp: inside_def)
  note found = find_parent_inside [OF _ ups]
  have callee: "callee_of n \<noteq> Some (Identifier x)" if "n \<in> N" "x \<in> set policy_names" for n x
    using unnamed_child [OF assms(1) that(1), of "Identifier x"] that(2) by (cases n) auto
  show "log_string p = None" using found unnamed_logger_call [OF assms(1)] by (auto simp: log_string_def split: option.split)
  show "log_call_rule p = None"
    using node unnamed_logger_call [OF assms(1)] unnamed_around [OF assms(1) node]
    by (cases "pt_node p") (auto simp: log_call_rule_def Let_def)
  show "detached_label p = None"
    using found callee by (auto simp: detached_label_def policy_names_def split: option.split)
  show "success_log_hook p = None"
    using unnamed_around [OF assms(1) node] by (cases "pt_node p") (auto simp: success_log_hook_def policy_names_def)
  show "breaker_name p = None"
    using found callee by (cases "pt_node p") (auto simp: breaker_name_def policy_names_def split: option.split)
  show "buffer_encoding p = None"
  proof (cases "pt_ups p")
    case (Cons u us)
    obtain m i where u: "u = (m, i)" by (cases u)
    have "\<not> is_buffer_from c" if "c \<in> N" for c
      using unnamed_around [OF assms(1) that] by (cases c) (auto simp: is_buffer_from_def policy_names_def)
    then show ?thesis
      using ups unnamed_around [OF assms(1), of m] by (cases m) (auto simp: buffer_encoding_def Cons u)
  qed (simp add: buffer_encoding_def)
  show "repaired_window_counter p = None"
  proof (cases "pt_node p")
    case (ObjectExpression properties)
    have "Some ''windowStart'' \<notin> set (map key_name properties)"
    proof
      assume "Some ''windowStart'' \<in> set (map key_name properties)"
      then obtain q where q: "q \<in> set properties" "key_name q = Some ''windowStart''" by auto
      then have "q \<in> N" using unnamed_child [OF assms(1) node] ObjectExpression by simp
      then show False
        using unnamed_child [OF assms(1) _ key_name_child [OF q(2)]] by (auto simp: policy_names_def)
    qed
    then have "sort_names (map key_name properties) \<noteq> [Some ''count'', Some ''windowStart'']"
      by (metis sort_names_set list.set_intros)
    then show ?thesis by (simp add: repaired_window_counter_def ObjectExpression Let_def)
  qed (simp_all add: repaired_window_counter_def)
qed

lemma ignoring_rule: "should_ignore_by rules p \<noteq> None \<Longrightarrow> \<exists>rule \<in> set rules. rule p \<noteq> None"
  by (induction rules) (auto split: option.splits)

lemma left_out_by_rules:
  assumes "left_out_at rules n us" "inside N (Path n us)"
  shows "\<exists>q. inside N q \<and> (\<exists>rule \<in> set rules. rule q \<noteq> None)"
  using assms
proof (induction us arbitrary: n)
  case Nil
  then have "should_ignore_by rules (Path n []) \<noteq> None" by simp
  then show ?case by (intro exI [of _ "Path n []"] conjI Nil.prems(2) ignoring_rule)
next
  case (Cons u us)
  obtain m i where u: "u = (m, i)" by (cases u)
  show ?case
  proof (cases "should_ignore_by rules (Path n (u # us)) = None")
    case True
    then have "left_out_at rules m us" using Cons.prems(1) by (simp add: u)
    moreover have "inside N (Path m us)" using Cons.prems(2) by (simp add: inside_def u)
    ultimately show ?thesis by (rule Cons.IH)
  next
    case False
    then show ?thesis by (intro exI [of _ "Path n (u # us)"] conjI Cons.prems(2) ignoring_rule)
  qed
qed

lemma find_parent_left_out:
  "find_parent P us = Some q \<Longrightarrow> should_ignore_by rules q \<noteq> None \<Longrightarrow> left_out_at rules n us"
proof (induction us arbitrary: n)
  case (Cons u us)
  obtain m i where u: "u = (m, i)" by (cases u)
  show ?case
  proof (cases "P m")
    case True
    then have "should_ignore_by rules (Path m us) \<noteq> None" using Cons.prems by (simp add: u)
    then have "left_out_at rules m us" by (cases us) auto
    then show ?thesis by (simp add: u)
  next
    case False
    then show ?thesis using Cons by (simp add: u)
  qed
qed simp

lemma logger_call_ignored:
  assumes "is_call (pt_node q) \<or> is_optional_call (pt_node q)" "is_logger_call (pt_node q)"
  shows "log_call_rule q = Some RemovalIsPhrasing"
  using assms by (cases "pt_node q") (auto simp: log_call_rule_def)

lemma log_string_inside_call:
  assumes "log_string (Path n us) \<noteq> None" "log_call_rule \<in> set rules"
  shows "left_out_at rules n us"
proof -
  obtain q where q: "find_parent (\<lambda>m. is_call m \<or> is_optional_call m) us = Some q" "is_logger_call (pt_node q)"
    using assms(1) by (auto simp: log_string_def split: if_splits option.splits)
  then have "is_call (pt_node q) \<or> is_optional_call (pt_node q)"
    using find_parent_inside [OF q(1), of UNIV] by simp
  then have "log_call_rule q \<noteq> None" using logger_call_ignored q(2) by simp
  then have "should_ignore_by rules q \<noteq> None"
    using assms(2) by (induction rules) (auto split: option.splits)
  then show ?thesis by (rule find_parent_left_out [OF q(1)])
qed

lemma left_out_belt:
  assumes "log_call_rule \<in> set rules"
  shows "left_out_at (log_string # rules) n us = left_out_at rules n us"
proof (induction us arbitrary: n)
  case Nil
  show ?case using log_string_inside_call [of n "[]" rules] assms by (auto split: option.splits)
next
  case (Cons u us)
  obtain m i where u: "u = (m, i)" by (cases u)
  show ?case
    using log_string_inside_call [of n "u # us" rules] assms Cons.IH [of m] by (auto simp: u split: option.splits)
qed

section \<open>Properties\<close>

text \<open>
  The rule for strings in calls of a logger is redundant: whatever it leaves out is left out by
  the rule for the calls themselves, whose subtrees the strings are in. There are no strings
  outside a matched call for which it would be needed.
\<close>

theorem log_string_redundant:
  "left_out policy_rules p = left_out [log_call_rule, detached_label, success_log_hook, buffer_encoding, breaker_name, repaired_window_counter] p"
  unfolding left_out_def policy_rules_def by (rule left_out_belt) simp

text \<open>
  C39: The policy touches only what it names: in a program in which no identifier is \<open>logger\<close>,
  \<open>detached\<close>, \<open>successLog\<close>, \<open>Buffer\<close>, \<open>circuitBreaker\<close> or \<open>windowStart\<close>, every mutant stays in
  the gate.
\<close>

theorem policy_spares_other_code:
  assumes "list_all (\<lambda>n. \<not> names_policy n) (program_nodes program)"
  shows "list_all (\<lambda>p. \<not> left_out policy_rules p) (program_paths program)"
proof -
  define N where "N = set (program_nodes program)"
  have "unnamed N"
    using assms program_nodes_children by (auto simp: unnamed_def N_def list_all_iff)
  note quiet = unnamed_rules [OF this]
  have "\<not> left_out policy_rules p" if "p \<in> set (program_paths program)" for p
  proof
    assume "left_out policy_rules p"
    moreover have "inside N (Path (pt_node p) (pt_ups p))"
      using program_paths_inside [OF that] by (simp add: N_def)
    ultimately obtain q rule where "inside N q" "rule \<in> set policy_rules" "rule q \<noteq> None"
      using left_out_by_rules unfolding left_out_def by blast
    then show False using quiet by (auto simp: policy_rules_def)
  qed
  then show ?thesis by (simp add: list_all_iff)
qed

definition console_sample :: ast where
  "console_sample = CallExpression (MemberExpression (Identifier ''console'') False (Identifier ''warn''))
     [StringLiteral ''lost'', ObjectExpression [ObjectProperty False (Identifier ''name'') (StringLiteral ''q'')]]"

theorem policy_spares_other_code_witness:
  "list_all (\<lambda>p. \<not> left_out policy_rules p) (program_paths console_sample) \<and> length (program_paths console_sample) = 9"
proof -
  have "list_all (\<lambda>n. \<not> names_policy n) (program_nodes console_sample)" by code_simp
  from policy_spares_other_code [OF this] show ?thesis by (intro conjI) (assumption | code_simp)+
qed

text \<open>
  The sites the rules were written for are left out, with their reasons: the default of the
  fixed window, the encoding but not the text of \<open>Buffer.from('utf-8', 'utf-8')\<close>, the name of the
  breaker, a label and the line of a logger in a private field.
\<close>

definition dotted :: "ast \<Rightarrow> string \<Rightarrow> ast" where
  "dotted object x = MemberExpression object False (Identifier x)"

definition ignored_nodes :: "ast \<Rightarrow> (ast \<times> reason) list" where
  "ignored_nodes program =
     List.map_filter (\<lambda>p. map_option (Pair (pt_node p)) (should_ignore p)) (program_paths program)"

theorem policy_sites:
  "map snd (ignored_nodes (LogicalExpression ''||'' (CallExpression (dotted (Identifier ''counters'') ''get'') [Identifier ''key''])
       (ObjectExpression [ObjectProperty False (Identifier ''count'') (OtherNode ''NumericLiteral'' []),
          ObjectProperty False (Identifier ''windowStart'') (Identifier ''windowStart'')]))) = [DefaultIsRepaired] \<and>
   map snd (ignored_nodes (CallExpression (dotted (Identifier ''Buffer'') ''from'') [StringLiteral ''utf-8'', StringLiteral ''utf-8''])) =
     [EncodingIsUtf8] \<and>
   map snd (ignored_nodes (CallExpression (Identifier ''circuitBreaker'')
       [ObjectExpression [ObjectProperty False (Identifier ''name'') (StringLiteral ''publisher'')]])) = [BreakerNameInternal] \<and>
   map snd (ignored_nodes (CallExpression (Identifier ''detached'')
       [CallExpression (Identifier ''attempt'') [], Identifier ''logger'', StringLiteral ''failed''])) = [LabelIsPhrasing] \<and>
   map snd (ignored_nodes (ExpressionStatement (CallExpression
       (dotted (MemberExpression (OtherNode ''ThisExpression'' []) False (PrivateName ''logger'')) ''warn'') [StringLiteral ''lost'']))) =
     [RemovalIsPhrasing, RemovalIsPhrasing, PhrasingIsNotContract]"
  by (intro conjI) code_simp+

text \<open>
  The rule for labels asks only which call is the nearest: a string in the promise handed to
  \<open>detached\<close>, as in \<open>detached(tasks['sync'], logger, 'failed')\<close>, is left out as if it were the label,
  though it decides which promise is awaited. The rule for the breaker's name likewise takes a
  \<open>name\<close> at any depth of the options, and one whose key is computed.
\<close>

theorem label_rule_takes_promise:
  "should_ignore (Path (StringLiteral ''sync'')
       [(MemberExpression (Identifier ''tasks'') True (StringLiteral ''sync''), 1),
        (CallExpression (Identifier ''detached'')
           [MemberExpression (Identifier ''tasks'') True (StringLiteral ''sync''), Identifier ''logger'', StringLiteral ''failed''], 1)]) =
     Some LabelIsPhrasing \<and>
   map snd (ignored_nodes (CallExpression (Identifier ''circuitBreaker'')
       [ObjectExpression [ObjectProperty False (Identifier ''retry'')
          (ObjectExpression [ObjectProperty True (Identifier ''name'') (Identifier ''limit'')])]])) = [BreakerNameInternal]"
  by (intro conjI) code_simp+

end
