(* ===== verification/Spec2Isabelle.thy ===== *)
theory Spec2Isabelle
  imports Parallel_Subscription Consumer_Recovery Subscription_Options Connection Rpc Facade_Setup Facade_Fence Accepted_Mutants Mutation_Policy
begin

text \<open>
  A model of the RabbitMQ client library of this repository (\<open>src/src\<close>, JavaScript), and what
  makes it correct.

  \<^bold>\<open>The program.\<close> The class \<open>RabbitMQ\<close> (\<open>index.js\<close>) is a facade over components that share a
  context: a connection with reconnection (\<open>connection/connection.js\<close>), a pool of confirm
  channels on it (\<open>connection/channel-pool.js\<close>), publishing with retries behind a circuit
  breaker and a rate limiter (\<open>messaging/publisher.js\<close>, \<open>messaging/routable-publish.js\<close>,
  \<open>resilience\<close>), consuming with retry policies, ordered delivery and worker threads
  (\<open>consumers\<close>), requests and responses over direct reply-to (\<open>messaging/rpc.js\<close>), declarations
  and dead letters (\<open>messaging/topology.js\<close>), a codec (\<open>messaging/message-codec.js\<close>) and utilities
  (\<open>utils\<close>). When the connection comes back, the facade builds a new pool, asserts the exchange
  and has the consumers recreated; when it is lost, requests in flight are rejected and the
  pool is given up.

  \<^bold>\<open>How it is modelled.\<close> Synchronous code is a function on a record of the object's fields. A
  component that waits is a machine: a function from a state and an event to the next state and
  the calls it makes to the outside. An event is one turn of the event loop: a call of the
  application, the answer to something awaited, a timer, a frame of the broker. What an \<open>async\<close>
  function does between two \<open>await\<close>s is one event, and what it still has to do is part of the
  state; a run over a list of events is therefore any interleaving. What a component calls is a
  parameter (the broker, \<open>amqplib\<close>, breakwater's policies, node-cache, \<open>gzip\<close>, the serializers,
  the application's handlers) or the machine of the component called (the facade runs the
  connection's, the parallel subscription the consumers'). What can throw returns a sum, \<open>Inl\<close>
  the thrown value. JavaScript values are the datatype \<open>jsval\<close>, numbers that can be \<open>NaN\<close> or
  infinite \<open>jsnum\<close>, finite numbers exact rationals: the rounding of doubles is not modelled.
  \<open>Map\<close> objects are association lists in insertion order. Times are inputs of the events.

  \<^bold>\<open>Theories.\<close>

  \<^item> \<open>Prelude\<close>: JavaScript values, maps, decimal rendering, and the locales \<open>event_machine\<close> (an
    invariant that every event keeps) and \<open>ledger_machine\<close> (everything that enters is tracked
    until it is settled, once), which every machine below interprets on its own step function.
  \<^item> \<open>Utils\<close>: \<open>utils\<close>: option validation, error descriptions, contained emission, loggers.
  \<^item> \<open>Rate_Strategy\<close> (the locale of the strategies), \<open>Fixed_Window\<close>, \<open>Token_Bucket\<close>, \<open>Window_Log\<close>
    (sliding window and leaky bucket), \<open>Rate_Limiter\<close>: \<open>resilience/strategies\<close> and
    \<open>resilience/rate-limiter.js\<close>: admission limits, isolation of keys, blocking, and the limiter as
    a refinement of its strategy.
  \<^item> \<open>Circuit_Breaker\<close>: \<open>resilience/circuit-breaker.js\<close>, the adapter over breakwater.
  \<^item> \<open>Message_Codec\<close>, \<open>Delivery\<close>: the codec, its setters in \<open>index.js\<close>, and a message as delivered:
    round trips.
  \<^item> \<open>Connection\<close>: \<open>connection/connection.js\<close>: reconnection never stalls, \<open>disconnect\<close> is a fence,
    every call is answered, the connection string can be read back.
  \<^item> \<open>Channel_Pool\<close>: \<open>connection/channel-pool.js\<close>: only live channels are handed out.
  \<^item> \<open>Routable_Publish\<close>, \<open>Publisher\<close>: \<open>messaging/routable-publish.js\<close>, \<open>messaging/publisher.js\<close>: return
    watches are exact, what resolves was confirmed, batches publish and confirm once.
  \<^item> \<open>Rpc\<close>: \<open>messaging/rpc.js\<close>: every request settles once, replies come back as sent, the reply
    route is fenced, the responder answers every request.
  \<^item> \<open>Topology\<close>: \<open>messaging/topology.js\<close>: routes of dead letters agree, a move resolves exactly if
    it was routed, concurrent probes do not disturb each other.
  \<^item> \<open>Settlement\<close>, \<open>Consume_Pipeline\<close>, \<open>Sequential_Processor\<close>, \<open>Worker_Pool\<close>, \<open>Consumer_Lifecycle\<close>,
    \<open>Prefetch_Optimizer\<close>, \<open>Parallel_Subscription\<close>: \<open>consumers\<close>. \<open>consumer-manager.js\<close> is split by
    concern: the retry policy and acknowledgements, the handling of one delivery, registration
    with recovery and removal, and the two wrapping subscriptions.
  \<^item> \<open>Subscription_Options\<close>: the arguments of a subscription: the library settles what the broker waits
    for.
  \<^item> \<open>Consumer_Recovery\<close>: consumers do not die silently: the machine of \<open>Consumer_Lifecycle\<close> under a watch
    that knows which consumers the broker delivers to.
  \<^item> \<open>Facade\<close>, \<open>Facade_Waiting\<close>, \<open>Facade_Fence\<close>: the lifecycle of \<open>index.js\<close> over the machine of the
    connection: every call settles once; a waiting \<open>connect\<close> always has a future; restorations
    are fenced by the connection, as far as the pool goes: the recreation of the consumers by a
    stale one is not.
  \<^item> \<open>Facade_Cache\<close>, \<open>Facade_Setup\<close>: the other calls of \<open>index.js\<close>: the cached publication, the
    constructor, the limiter's events, the cluster status, the graceful shutdown, the
    processing of dead letter queues.
  \<^item> \<open>Accepted_Mutants\<close>: claims of \<open>stryker-mutation-policy.js\<close> that mutations of the source change
    nothing: some are proved, others refuted by a run.
  \<^item> \<open>Mutation_Policy\<close>: the matchers of \<open>stryker-mutation-policy.js\<close> over syntax trees: what the policy
    keeps out of the mutation gate.

  \<^bold>\<open>Groups of lemmas.\<close> Per machine there is an invariant, the lemma that every event keeps it, and
  for ledgers the lemma that every event conserves what is tracked; handlers have lemmas of the
  same shape, closed under composition, so that the step lemma is a case analysis. Theorems
  about runs come from the locales. Round trips rest on characterisations of the encodings.
  Behaviour that contradicts the intent of the code is a theorem on a concrete run, evaluated by
  the simplifier, and is recorded as a finding.

  \<^bold>\<open>Bounds and fuel.\<close> The only fuel is that of \<open>deliveries_made\<close> in \<open>Settlement\<close>, which repeats the
  delivery of a failing message: more than the number of attempts, and more than 2, suffices,
  and the theorem proves that it returns. The loops of the source are recursion on lists and
  counters and total. Strings are byte strings where the source encodes them (the connection
  string); white space is that of ASCII. Where a round trip gives a string back, it says what the
  deserializer reads in it: the codec sends strings as they are.

  \<^bold>\<open>Not modelled.\<close> \<open>utils/clock.js\<close>, a table of timer functions
  of the platform; writing of log lines, except where building a line can throw; the examples,
  the tests, the type declarations and the build files. \<open>cacheOptions\<close> go to the
  cache library as they are. A continuation in the microtask queue belongs to the event that
  queued it, so interleavings of two microtask chains are covered only where the source awaits
  something outside. Payloads that a worker cannot clone, and strategy names inherited from
  \<open>Object.prototype\<close>. Methods of the facade that forward a call unchanged are the component's.
\<close>

end
